(* ===== verification/Prelude.thy ===== *)
theory Prelude
  imports Main "HOL-Library.AList" "HOL-Library.Word"
begin

text \<open>
  Shared vocabulary of the development: machine-integer synonyms, Rust's saturating and checked
  arithmetic, hash maps as association lists with the interface the stores use, and the
  collections of facts that carry the component proofs.

  A Rust \<open>HashMap<K, V>\<close> is an association list with distinct keys; the list's order stands for
  the (unspecified) iteration order of the map. Every operation is stated for an arbitrary list, so
  for an arbitrary iteration order.
\<close>

named_theorems rust_simps "defining equations of the modelled standard-library functions"
named_theorems model_defs "definitions of the operations, for unfolding in component proofs"

subsection \<open>Machine integers\<close>

type_synonym u8 = "8 word"
type_synonym u64 = "64 word"

abbreviation u16_max :: nat where "u16_max \<equiv> 65535"
abbreviation u32_max :: nat where "u32_max \<equiv> 4294967295"
abbreviation u64_max :: nat where "u64_max \<equiv> 18446744073709551615"

definition sat_add64 :: "nat \<Rightarrow> nat \<Rightarrow> nat" where
  [rust_simps]: "sat_add64 a b = min (a + b) u64_max"

definition checked_sub :: "nat \<Rightarrow> nat \<Rightarrow> nat option" where
  [rust_simps]: "checked_sub a b = (if b \<le> a then Some (a - b) else None)"

definition clamp :: "'a::linorder \<Rightarrow> 'a \<Rightarrow> 'a \<Rightarrow> 'a" where
  [rust_simps]: "clamp lo hi x = (if x < lo then lo else if hi < x then hi else x)"

lemma clamp_bounds: "lo \<le> hi \<Longrightarrow> lo \<le> clamp lo hi x \<and> clamp lo hi x \<le> hi"
  by (auto simp: clamp_def)

lemma clamp_id: "lo \<le> x \<Longrightarrow> x \<le> hi \<Longrightarrow> clamp lo hi x = x"
  by (auto simp: clamp_def)

lemma sat_add64_ge: "a \<le> u64_max \<Longrightarrow> a \<le> sat_add64 a b"
  by (simp add: sat_add64_def)

lemma sat_add64_le: "sat_add64 a b \<le> a + b"
  by (simp add: sat_add64_def)

subsection \<open>Hash maps\<close>

type_synonym ('k, 'v) hmap = "('k \<times> 'v) list"

definition hm_ok :: "('k, 'v) hmap \<Rightarrow> bool" where
  "hm_ok m \<longleftrightarrow> distinct (map fst m)"

definition hm_get :: "('k, 'v) hmap \<Rightarrow> 'k \<Rightarrow> 'v option" where
  "hm_get m k = map_of m k"

definition hm_insert :: "'k \<Rightarrow> 'v \<Rightarrow> ('k, 'v) hmap \<Rightarrow> ('k, 'v) hmap" where
  "hm_insert k v m = AList.update k v m"

definition hm_remove :: "'k \<Rightarrow> ('k, 'v) hmap \<Rightarrow> ('k, 'v) hmap" where
  "hm_remove k m = filter (\<lambda>e. fst e \<noteq> k) m"

definition hm_retain :: "('v \<Rightarrow> bool) \<Rightarrow> ('k, 'v) hmap \<Rightarrow> ('k, 'v) hmap" where
  "hm_retain P m = filter (\<lambda>e. P (snd e)) m"

definition hm_values :: "('k, 'v) hmap \<Rightarrow> 'v list" where
  "hm_values m = map snd m"

text \<open>The interface the stores use, and the laws every client proof rests on.\<close>

locale keyed_map =
  fixes get :: "'m \<Rightarrow> 'k \<Rightarrow> 'v option"
    and ins :: "'k \<Rightarrow> 'v \<Rightarrow> 'm \<Rightarrow> 'm"
    and rem :: "'k \<Rightarrow> 'm \<Rightarrow> 'm"
    and ret :: "('v \<Rightarrow> bool) \<Rightarrow> 'm \<Rightarrow> 'm"
    and vals :: "'m \<Rightarrow> 'v list"
    and ok :: "'m \<Rightarrow> bool"
  assumes get_ins: "get (ins k v m) k' = (if k' = k then Some v else get m k')"
    and get_rem: "get (rem k m) k' = (if k' = k then None else get m k')"
    and get_ret: "ok m \<Longrightarrow> get (ret P m) k =
      (case get m k of None \<Rightarrow> None | Some v \<Rightarrow> if P v then Some v else None)"
    and vals_get: "ok m \<Longrightarrow> v \<in> set (vals m) \<longleftrightarrow> (\<exists>k. get m k = Some v)"
    and ok_ins: "ok m \<Longrightarrow> ok (ins k v m)"
    and ok_rem: "ok m \<Longrightarrow> ok (rem k m)"
    and ok_ret: "ok m \<Longrightarrow> ok (ret P m)"
begin

lemma get_ins_same [simp]: "get (ins k v m) k = Some v"
  by (simp add: get_ins)

lemma get_ins_other [simp]: "k' \<noteq> k \<Longrightarrow> get (ins k v m) k' = get m k'"
  by (simp add: get_ins)

lemma get_rem_same [simp]: "get (rem k m) k = None"
  by (simp add: get_rem)

lemma get_rem_other [simp]: "k' \<noteq> k \<Longrightarrow> get (rem k m) k' = get m k'"
  by (simp add: get_rem)

lemma get_ret_Some: "ok m \<Longrightarrow> get (ret P m) k = Some v \<longleftrightarrow> get m k = Some v \<and> P v"
  by (auto simp: get_ret split: option.splits)

lemma get_ret_None: "ok m \<Longrightarrow> get m k = None \<Longrightarrow> get (ret P m) k = None"
  by (simp add: get_ret)

lemma ret_ret: "ok m \<Longrightarrow> get (ret P (ret Q m)) k = get (ret (\<lambda>v. P v \<and> Q v) m) k"
  by (simp add: get_ret ok_ret split: option.splits)

lemma vals_ret: "ok m \<Longrightarrow> v \<in> set (vals (ret P m)) \<longleftrightarrow> v \<in> set (vals m) \<and> P v"
  by (auto simp: vals_get ok_ret get_ret_Some)

end

lemma hm_remove_map_of: "map_of (filter (\<lambda>e. fst e \<noteq> k) m) k' = (if k' = k then None else map_of m k')"
  by (induction m) auto

lemma hm_retain_map_of:
  "distinct (map fst m) \<Longrightarrow> map_of (filter (\<lambda>e. P (snd e)) m) k =
    (case map_of m k of None \<Rightarrow> None | Some v \<Rightarrow> if P v then Some v else None)"
proof (induction m)
  case Nil
  then show ?case by simp
next
  case (Cons e m)
  have "map_of (filter (\<lambda>e. P (snd e)) m) (fst e) = None"
    using Cons.prems by (auto simp: map_of_eq_None_iff)
  then show ?case using Cons
    by (cases e) (auto split: option.splits)
qed

interpretation hm: keyed_map hm_get hm_insert hm_remove hm_retain hm_values hm_ok
proof unfold_locales
  show "hm_get (hm_insert k v m) k' = (if k' = k then Some v else hm_get m k')"
    for k :: 'k and v :: 'v and m k'
    by (simp add: hm_get_def hm_insert_def update_conv')
  show "hm_get (hm_remove k m) k' = (if k' = k then None else hm_get m k')"
    for k :: 'k and m :: "('k, 'v) hmap" and k'
    by (simp add: hm_get_def hm_remove_def hm_remove_map_of)
  show "hm_get (hm_retain P m) k =
      (case hm_get m k of None \<Rightarrow> None | Some v \<Rightarrow> if P v then Some v else None)"
    if "hm_ok m" for P :: "'v \<Rightarrow> bool" and m :: "('k, 'v) hmap" and k
    using that by (simp add: hm_get_def hm_retain_def hm_retain_map_of hm_ok_def)
  show "v \<in> set (hm_values m) \<longleftrightarrow> (\<exists>k. hm_get m k = Some v)"
    if "hm_ok m" for m :: "('k, 'v) hmap" and v
    using that by (force simp: hm_values_def hm_get_def hm_ok_def map_of_eq_Some_iff)
  show "hm_ok (hm_insert k v m)" if "hm_ok m" for k :: 'k and v :: 'v and m
    using that by (simp add: hm_ok_def hm_insert_def distinct_update)
  show "hm_ok (hm_remove k m)" if "hm_ok m" for k :: 'k and m :: "('k, 'v) hmap"
    using that by (simp add: hm_ok_def hm_remove_def distinct_map_filter)
  show "hm_ok (hm_retain P m)" if "hm_ok m" for P :: "'v \<Rightarrow> bool" and m :: "('k, 'v) hmap"
    using that by (simp add: hm_ok_def hm_retain_def distinct_map_filter)
qed

lemmas hm_laws = hm.get_ins hm.get_rem hm.get_ret hm.ok_ins hm.ok_rem hm.ok_ret

lemma hm_ok_Nil [simp]: "hm_ok []"
  by (simp add: hm_ok_def)

lemma hm_get_Nil [simp]: "hm_get [] k = None"
  by (simp add: hm_get_def)

lemma hm_get_mem: "hm_ok m \<Longrightarrow> hm_get m k = Some v \<longleftrightarrow> (k, v) \<in> set m"
  by (simp add: hm_get_def hm_ok_def map_of_eq_Some_iff)

lemma hm_length_remove: "length (hm_remove k m) \<le> length m"
  by (simp add: hm_remove_def)

lemma hm_length_insert:
  "length (hm_insert k v m) = (if hm_get m k = None then Suc (length m) else length m)"
  unfolding hm_insert_def hm_get_def by (induction m) auto

end
