(* ===== verification/Text.thy ===== *)
theory Text
  imports Prelude
begin

text \<open>
  The parts of Rust's \<open>str\<close> and \<open>char\<close> interface that the program uses. A \<open>str\<close> is a
  \<open>string\<close>: a list of code points below 256. On that range (all of Latin-1) Rust's
  \<open>char::is_whitespace\<close>, \<open>char::is_control\<close>, \<open>to_lowercase\<close> and the ASCII predicates are defined
  here exactly as in Rust; code points from 256 on are outside the model.
\<close>

subsection \<open>Character classes\<close>

definition code :: "char \<Rightarrow> nat" where
  "code c = (of_char c :: nat)"

text \<open>\<open>char::is_whitespace\<close> (Unicode \<open>White_Space\<close>).\<close>

definition is_whitespace :: "char \<Rightarrow> bool" where
  "is_whitespace c \<longleftrightarrow> (9 \<le> code c \<and> code c \<le> 13) \<or> code c = 32 \<or> code c = 133 \<or> code c = 160"

text \<open>\<open>u8::is_ascii_whitespace\<close>: unlike the above it leaves out the vertical tab.\<close>

definition is_ascii_whitespace :: "char \<Rightarrow> bool" where
  "is_ascii_whitespace c \<longleftrightarrow> code c \<in> {9, 10, 12, 13, 32}"

text \<open>\<open>char::is_control\<close> (Unicode category \<open>Cc\<close>).\<close>

definition is_control :: "char \<Rightarrow> bool" where
  "is_control c \<longleftrightarrow> code c \<le> 31 \<or> (127 \<le> code c \<and> code c \<le> 159)"

definition is_ascii_digit :: "char \<Rightarrow> bool" where
  "is_ascii_digit c \<longleftrightarrow> 48 \<le> code c \<and> code c \<le> 57"

definition is_ascii_upper :: "char \<Rightarrow> bool" where
  "is_ascii_upper c \<longleftrightarrow> 65 \<le> code c \<and> code c \<le> 90"

definition is_ascii_lower :: "char \<Rightarrow> bool" where
  "is_ascii_lower c \<longleftrightarrow> 97 \<le> code c \<and> code c \<le> 122"

definition is_ascii_alphanumeric :: "char \<Rightarrow> bool" where
  "is_ascii_alphanumeric c \<longleftrightarrow> is_ascii_digit c \<or> is_ascii_upper c \<or> is_ascii_lower c"

text \<open>\<open>char::to_lowercase\<close>: upper-case ASCII and the upper-case Latin-1 letters (U+00C0 to U+00DE
  but for the multiplication sign U+00D7) move by 32, everything else stays.\<close>

definition has_lower :: "char \<Rightarrow> bool" where
  "has_lower c \<longleftrightarrow> is_ascii_upper c \<or> (192 \<le> code c \<and> code c \<le> 222 \<and> code c \<noteq> 215)"

definition char_lower :: "char \<Rightarrow> char" where
  "char_lower c = (if has_lower c then char_of (code c + 32) else c)"

definition ascii_lower :: "char \<Rightarrow> char" where
  "ascii_lower c = (if is_ascii_upper c then char_of (code c + 32) else c)"

definition ascii_upper :: "char \<Rightarrow> char" where
  "ascii_upper c = (if is_ascii_lower c then char_of (code c - 32) else c)"

lemmas char_class_defs = code_def is_whitespace_def is_ascii_whitespace_def is_control_def
  is_ascii_digit_def is_ascii_upper_def is_ascii_lower_def is_ascii_alphanumeric_def

lemma code_char_of: "n < 256 \<Longrightarrow> code (char_of n) = n"
  by (simp add: code_def)

lemma code_less [simp]: "code c < 256"
  by (simp add: code_def)

lemma code_inject: "code c = code d \<longleftrightarrow> c = d"
  by (simp add: code_def)

definition to_lowercase :: "string \<Rightarrow> string" where
  "to_lowercase s = map char_lower s"

definition to_ascii_lowercase :: "string \<Rightarrow> string" where
  "to_ascii_lowercase s = map ascii_lower s"

lemma code_char_lower: "code (char_lower c) = (if has_lower c then code c + 32 else code c)"
  by (auto simp: char_lower_def has_lower_def is_ascii_upper_def code_char_of)

lemma char_lower_idem [simp]: "char_lower (char_lower c) = char_lower c"
proof -
  have "\<not> has_lower (char_lower c)"
    by (auto simp: code_char_lower has_lower_def is_ascii_upper_def)
  then show ?thesis by (simp add: char_lower_def [of "char_lower c"])
qed

lemma to_lowercase_idem [simp]: "to_lowercase (to_lowercase s) = to_lowercase s"
  by (simp add: to_lowercase_def)

lemma char_lower_whitespace [simp]: "is_whitespace (char_lower c) = is_whitespace c"
  by (auto simp: is_whitespace_def code_char_lower has_lower_def is_ascii_upper_def)

subsection \<open>Trimming and splitting\<close>

definition trim_start :: "string \<Rightarrow> string" where
  "trim_start s = dropWhile is_whitespace s"

definition trim_end :: "string \<Rightarrow> string" where
  "trim_end s = rev (dropWhile is_whitespace (rev s))"

definition trim :: "string \<Rightarrow> string" where
  "trim s = trim_end (trim_start s)"

text \<open>A trimmed string neither starts nor ends with white space.\<close>

definition trimmed :: "string \<Rightarrow> bool" where
  "trimmed s \<longleftrightarrow> s = [] \<or> (\<not> is_whitespace (hd s) \<and> \<not> is_whitespace (last s))"

lemma trim_trimmed: "trimmed s \<Longrightarrow> trim s = s"
proof (cases "s = []")
  case True
  then show ?thesis by (simp add: trim_def trim_start_def trim_end_def)
next
  case False
  assume t: "trimmed s"
  then have h: "\<not> is_whitespace (hd s)" and l: "\<not> is_whitespace (hd (rev s))"
    using False by (auto simp: trimmed_def hd_rev)
  have "dropWhile is_whitespace s = s"
    using h False by (cases s) auto
  moreover have "dropWhile is_whitespace (rev s) = rev s"
    using l False by (cases "rev s") auto
  ultimately show ?thesis by (simp add: trim_def trim_start_def trim_end_def)
qed

lemma trim_start_hd: "trim_start s \<noteq> [] \<Longrightarrow> \<not> is_whitespace (hd (trim_start s))"
  unfolding trim_start_def by (metis hd_dropWhile)

lemma trim_end_last: "trim_end s \<noteq> [] \<Longrightarrow> \<not> is_whitespace (last (trim_end s))"
  unfolding trim_end_def by (metis hd_dropWhile last_rev rev_is_Nil_conv)

lemma trim_end_prefix: "\<exists>t. s = trim_end s @ t"
proof -
  have "rev s = takeWhile is_whitespace (rev s) @ dropWhile is_whitespace (rev s)"
    by simp
  then have "s = rev (dropWhile is_whitespace (rev s)) @ rev (takeWhile is_whitespace (rev s))"
    by (metis rev_append rev_rev_ident)
  then show ?thesis unfolding trim_end_def by blast
qed

lemma trimmed_trim [simp]: "trimmed (trim s)"
proof (cases "trim s = []")
  case True
  then show ?thesis by (simp add: trimmed_def)
next
  case False
  obtain t where t: "trim_start s = trim_end (trim_start s) @ t"
    using trim_end_prefix by blast
  have ne: "trim_end (trim_start s) \<noteq> []" using False by (simp add: trim_def)
  then have "hd (trim_end (trim_start s)) = hd (trim_start s)"
    using t by (metis hd_append2)
  moreover have "trim_start s \<noteq> []" using ne t by auto
  ultimately have "\<not> is_whitespace (hd (trim s))"
    using trim_start_hd by (simp add: trim_def)
  then show ?thesis
    using trim_end_last [OF ne] by (simp add: trimmed_def trim_def)
qed

lemma trim_idem [simp]: "trim (trim s) = trim s"
  by (simp add: trim_trimmed)

lemma trimmed_map: "(\<And>c. is_whitespace (f c) = is_whitespace c) \<Longrightarrow> trimmed (map f s) = trimmed s"
  by (cases "s = []") (auto simp: trimmed_def hd_map last_map)

lemma trimmed_to_lowercase [simp]: "trimmed (to_lowercase s) = trimmed s"
  by (simp add: to_lowercase_def trimmed_map)

text \<open>\<open>str::split_once\<close>, \<open>str::rsplit_once\<close>, \<open>str::split\<close> and \<open>str::splitn\<close> on one character
  (also \<open>slice::split\<close>, which is why the element type is open).\<close>

definition split_once :: "'a \<Rightarrow> 'a list \<Rightarrow> ('a list \<times> 'a list) option" where
  "split_once c s =
    (if c \<in> set s then Some (takeWhile (\<lambda>x. x \<noteq> c) s, tl (dropWhile (\<lambda>x. x \<noteq> c) s)) else None)"

definition rsplit_once :: "'a \<Rightarrow> 'a list \<Rightarrow> ('a list \<times> 'a list) option" where
  "rsplit_once c s =
    (case split_once c (rev s) of None \<Rightarrow> None | Some (a, b) \<Rightarrow> Some (rev b, rev a))"

fun split_by :: "('a \<Rightarrow> bool) \<Rightarrow> 'a list \<Rightarrow> 'a list list" where
  "split_by P [] = [[]]"
| "split_by P (x # xs) =
    (if P x then [] # split_by P xs
     else (case split_by P xs of [] \<Rightarrow> [[x]] | p # ps \<Rightarrow> (x # p) # ps))"

definition split_on :: "'a \<Rightarrow> 'a list \<Rightarrow> 'a list list" where
  "split_on c s = split_by (\<lambda>x. x = c) s"

fun splitn :: "nat \<Rightarrow> 'a \<Rightarrow> 'a list \<Rightarrow> 'a list list" where
  "splitn 0 c s = []"
| "splitn (Suc 0) c s = [s]"
| "splitn (Suc (Suc n)) c s =
    (case split_once c s of None \<Rightarrow> [s] | Some (a, b) \<Rightarrow> a # splitn (Suc n) c b)"

lemma split_once_append: "c \<notin> set a \<Longrightarrow> split_once c (a @ c # b) = Some (a, b)"
proof -
  assume "c \<notin> set a"
  then have "takeWhile (\<lambda>x. x \<noteq> c) (a @ c # b) = a" "dropWhile (\<lambda>x. x \<noteq> c) (a @ c # b) = c # b"
    by (induction a) auto
  then show ?thesis by (simp add: split_once_def)
qed

lemma split_once_None [simp]: "split_once c s = None \<longleftrightarrow> c \<notin> set s"
  by (simp add: split_once_def)

lemma split_once_SomeD: "split_once c s = Some (a, b) \<Longrightarrow> s = a @ c # b \<and> c \<notin> set a"
proof -
  assume h: "split_once c s = Some (a, b)"
  then have c: "c \<in> set s" by (simp add: split_once_def split: if_splits)
  then obtain a' b' where s: "s = a' @ c # b'" "c \<notin> set a'" by (metis split_list_first)
  then have "split_once c s = Some (a', b')" by (simp add: split_once_append)
  with h s show ?thesis by simp
qed

lemma split_by_nonempty [simp]: "split_by P s \<noteq> []"
  by (induction s) (auto split: list.splits)

lemma split_by_free: "(\<And>x. x \<in> set s \<Longrightarrow> \<not> P x) \<Longrightarrow> split_by P s = [s]"
  by (induction s) auto

lemma split_by_append:
  "(\<And>x. x \<in> set a \<Longrightarrow> \<not> P x) \<Longrightarrow> P c \<Longrightarrow> split_by P (a @ c # b) = a # split_by P b"
  by (induction a) (auto split: list.splits)

lemma split_by_pieces: "p \<in> set (split_by P s) \<Longrightarrow> set p \<subseteq> {x \<in> set s. \<not> P x}"
proof (induction s arbitrary: p)
  case Nil
  then show ?case by simp
next
  case (Cons x xs)
  obtain q qs where q: "split_by P xs = q # qs"
    by (cases "split_by P xs") auto
  then have sub: "set q \<subseteq> {x \<in> set xs. \<not> P x}" "\<And>r. r \<in> set qs \<Longrightarrow> set r \<subseteq> {x \<in> set xs. \<not> P x}"
    using Cons.IH by auto
  show ?case
  proof (cases "P x")
    case True
    then show ?thesis using Cons by auto
  next
    case False
    then have "p = x # q \<or> p \<in> set qs" using Cons.prems q by simp
    then show ?thesis using sub False by auto
  qed
qed

lemma split_on_free: "c \<notin> set s \<Longrightarrow> split_on c s = [s]"
  unfolding split_on_def by (rule split_by_free) auto

lemma split_on_append: "c \<notin> set a \<Longrightarrow> split_on c (a @ c # b) = a # split_on c b"
  unfolding split_on_def by (rule split_by_append) auto

text \<open>\<open>split_whitespace\<close>, \<open>join\<close>, \<open>strip_prefix\<close>, \<open>replace\<close>, \<open>find\<close> and \<open>split\<close> on a string.\<close>

definition split_whitespace :: "string \<Rightarrow> string list" where
  "split_whitespace s = filter (\<lambda>w. w \<noteq> []) (split_by is_whitespace s)"

fun join :: "'a list \<Rightarrow> 'a list list \<Rightarrow> 'a list" where
  "join sep [] = []"
| "join sep [w] = w"
| "join sep (w # v # ws) = w @ sep @ join sep (v # ws)"

fun strip_prefix :: "'a list \<Rightarrow> 'a list \<Rightarrow> 'a list option" where
  "strip_prefix [] s = Some s"
| "strip_prefix (p # ps) [] = None"
| "strip_prefix (p # ps) (c # cs) = (if p = c then strip_prefix ps cs else None)"

definition starts_with :: "'a list \<Rightarrow> 'a list \<Rightarrow> bool" where
  "starts_with p s \<longleftrightarrow> strip_prefix p s \<noteq> None"

lemma strip_prefix_append [simp]: "strip_prefix p (p @ s) = Some s"
  by (induction p) auto

lemma strip_prefix_Some: "strip_prefix p s = Some r \<longleftrightarrow> s = p @ r"
  by (induction p s rule: strip_prefix.induct) auto

lemma starts_with_iff: "starts_with p s \<longleftrightarrow> (\<exists>r. s = p @ r)"
  by (auto simp: starts_with_def strip_prefix_Some)

lemma strip_prefix_length: "strip_prefix p s = Some r \<Longrightarrow> length r \<le> length s"
  by (auto simp: strip_prefix_Some)

text \<open>\<open>str::replace\<close> for a non-empty pattern: leftmost matches, not overlapping.\<close>

function str_replace :: "string \<Rightarrow> string \<Rightarrow> string \<Rightarrow> string" where
  "str_replace pat rep [] = []"
| "str_replace pat rep (c # cs) =
    (case strip_prefix pat (c # cs) of
       Some r \<Rightarrow> if pat = [] then c # str_replace pat rep cs else rep @ str_replace pat rep r
     | None \<Rightarrow> c # str_replace pat rep cs)"
  by pat_completeness auto
termination
  by (relation "measure (\<lambda>(pat, rep, s). length s)") (auto simp: strip_prefix_Some Cons_eq_append_conv)

lemma str_replace_char:
  "str_replace [x] rep s = concat (map (\<lambda>c. if c = x then rep else [c]) s)"
  by (induction s) auto

fun str_find :: "string \<Rightarrow> string \<Rightarrow> nat option" where
  "str_find pat [] = (if pat = [] then Some 0 else None)"
| "str_find pat (c # cs) =
    (if starts_with pat (c # cs) then Some 0 else map_option Suc (str_find pat cs))"

lemma starts_with_length: "starts_with p s \<Longrightarrow> length p \<le> length s"
  by (auto simp: starts_with_def strip_prefix_Some)

lemma starts_with_take: "starts_with p s \<Longrightarrow> take (length p) s = p"
  by (auto simp: starts_with_def strip_prefix_Some)

lemma str_find_bound: "str_find pat s = Some i \<Longrightarrow> i + length pat \<le> length s"
proof (induction s arbitrary: i)
  case Nil
  then show ?case by (simp split: if_splits)
next
  case (Cons c cs)
  show ?case
  proof (cases "starts_with pat (c # cs)")
    case True
    then show ?thesis using Cons.prems starts_with_length [OF True] by simp
  next
    case False
    then show ?thesis using Cons by auto
  qed
qed

lemma str_find_take: "str_find pat s = Some i \<Longrightarrow> take (length pat) (drop i s) = pat"
proof (induction s arbitrary: i)
  case Nil
  then show ?case by (simp split: if_splits)
next
  case (Cons c cs)
  show ?case
  proof (cases "starts_with pat (c # cs)")
    case True
    then show ?thesis using Cons.prems starts_with_take [OF True] by simp
  next
    case False
    then show ?thesis using Cons by auto
  qed
qed

definition str_contains :: "string \<Rightarrow> string \<Rightarrow> bool" where
  "str_contains pat s \<longleftrightarrow> str_find pat s \<noteq> None"

function split_str :: "string \<Rightarrow> string \<Rightarrow> string list" where
  "split_str pat s =
    (if pat = [] then [s]
     else case str_find pat s of
       None \<Rightarrow> [s]
     | Some i \<Rightarrow> take i s # split_str pat (drop (i + length pat) s))"
  by pat_completeness auto
termination
proof (relation "measure (\<lambda>(pat, s). length s)")
  show "wf (measure (\<lambda>(pat, s). length s))" by simp
next
  fix pat s i
  assume "pat \<noteq> []" and "str_find pat s = Some i"
  moreover from this have "i + length pat \<le> length s" by (auto dest: str_find_bound)
  ultimately show "((pat, drop (i + length pat) s), pat, s) \<in> measure (\<lambda>(pat, s). length s)"
    by (cases pat) auto
qed

declare split_str.simps [simp del]

definition nth_piece :: "string list \<Rightarrow> nat \<Rightarrow> string option" where
  "nth_piece ps n = (if n < length ps then Some (ps ! n) else None)"

definition trim_end_matches :: "char \<Rightarrow> string \<Rightarrow> string" where
  "trim_end_matches c s = rev (dropWhile (\<lambda>x. x = c) (rev s))"

subsection \<open>Decimal numbers: \<open>format!("{n}")\<close> and \<open>str::parse\<close>\<close>

definition digit_char :: "nat \<Rightarrow> char" where
  "digit_char d = char_of (48 + d)"

fun show_nat :: "nat \<Rightarrow> string" where
  "show_nat n = (if n < 10 then [digit_char n] else show_nat (n div 10) @ [digit_char (n mod 10)])"

declare show_nat.simps [simp del]

fun parse_digits :: "nat \<Rightarrow> string \<Rightarrow> nat option" where
  "parse_digits acc [] = Some acc"
| "parse_digits acc (c # cs) =
    (if is_ascii_digit c then parse_digits (10 * acc + (code c - 48)) cs else None)"

text \<open>Parsing an unsigned integer of largest value \<open>mx\<close>: an optional plus sign, at least one digit,
  nothing else, and no overflow.\<close>

definition parse_uint :: "nat \<Rightarrow> string \<Rightarrow> nat option" where
  "parse_uint mx s =
    (let ds = (case s of [] \<Rightarrow> [] | c # cs \<Rightarrow> if c = CHR ''+'' then cs else s)
     in if ds = [] then None
        else case parse_digits 0 ds of
          None \<Rightarrow> None
        | Some n \<Rightarrow> if n \<le> mx then Some n else None)"

lemma code_digit_char [simp]: "d < 10 \<Longrightarrow> code (digit_char d) = 48 + d"
  by (simp add: digit_char_def code_char_of)

lemma is_digit_digit_char [simp]: "d < 10 \<Longrightarrow> is_ascii_digit (digit_char d)"
  by (simp add: is_ascii_digit_def)

lemma parse_digits_append:
  "parse_digits acc (a @ b) = (case parse_digits acc a of None \<Rightarrow> None | Some n \<Rightarrow> parse_digits n b)"
  by (induction a arbitrary: acc) auto

lemma show_nat_digits: "c \<in> set (show_nat n) \<Longrightarrow> is_ascii_digit c"
proof (induction n rule: show_nat.induct)
  case (1 n)
  then show ?case by (subst (asm) (2) show_nat.simps) (auto split: if_splits)
qed

lemma show_nat_nonempty [simp]: "show_nat n \<noteq> []"
  by (subst show_nat.simps) simp

lemma parse_digits_show: "parse_digits 0 (show_nat n) = Some n"
proof (induction n rule: show_nat.induct)
  case (1 n)
  show ?case
  proof (cases "n < 10")
    case True
    then show ?thesis by (subst show_nat.simps) simp
  next
    case False
    with 1 have "parse_digits 0 (show_nat (n div 10)) = Some (n div 10)" by simp
    with False show ?thesis
      by (subst show_nat.simps) (simp add: parse_digits_append)
  qed
qed

lemma parse_uint_show: "n \<le> mx \<Longrightarrow> parse_uint mx (show_nat n) = Some n"
proof -
  assume n: "n \<le> mx"
  obtain c cs where s: "show_nat n = c # cs" by (cases "show_nat n") auto
  then have "is_ascii_digit c" using show_nat_digits [of c n] by simp
  then have "c \<noteq> CHR ''+''" by (auto simp: is_ascii_digit_def code_def)
  then show ?thesis
    using n parse_digits_show [of n] by (simp add: parse_uint_def s)
qed

lemma parse_uint_bound: "parse_uint mx s = Some n \<Longrightarrow> n \<le> mx"
  by (auto simp: parse_uint_def Let_def split: if_splits option.splits)

lemma show_nat_inj: "show_nat m = show_nat n \<longleftrightarrow> m = n"
  by (metis parse_digits_show option.inject)

lemma show_nat_free: "\<not> is_ascii_digit c \<Longrightarrow> c \<notin> set (show_nat n)"
  using show_nat_digits by blast

subsection \<open>UTF-8\<close>

text \<open>\<open>str::as_bytes\<close> and \<open>str::from_utf8\<close> on code points below 256, which take one or two bytes.
  Well-formed encodings of larger code points are outside the model and decode to \<open>None\<close>.\<close>

definition utf8_char :: "char \<Rightarrow> u8 list" where
  "utf8_char c =
    (if code c < 128 then [word_of_nat (code c)]
     else [word_of_nat (192 + code c div 64), word_of_nat (128 + code c mod 64)])"

definition utf8 :: "string \<Rightarrow> u8 list" where
  "utf8 s = concat (map utf8_char s)"

fun from_utf8 :: "u8 list \<Rightarrow> string option" where
  "from_utf8 [] = Some []"
| "from_utf8 (b # bs) =
    (if unat b < 128 then map_option (\<lambda>s. char_of (unat b) # s) (from_utf8 bs)
     else (case bs of
       [] \<Rightarrow> None
     | b2 # bs2 \<Rightarrow>
        if 194 \<le> unat b \<and> unat b \<le> 195 \<and> 128 \<le> unat b2 \<and> unat b2 < 192
        then map_option (\<lambda>s. char_of ((unat b - 192) * 64 + (unat b2 - 128)) # s) (from_utf8 bs2)
        else None))"

lemma from_utf8_utf8 [simp]: "from_utf8 (utf8 s) = Some s"
proof (induction s)
  case Nil
  then show ?case by (simp add: utf8_def)
next
  case (Cons c s)
  have lt: "code c < 256" by simp
  show ?case
  proof (cases "code c < 128")
    case True
    then have "unat (word_of_nat (code c) :: u8) = code c" by (simp add: unat_of_nat take_bit_eq_mod)
    then show ?thesis using Cons True by (simp add: utf8_def utf8_char_def) (simp add: code_def)
  next
    case False
    have b: "2 \<le> code c div 64" "code c div 64 \<le> 3" "code c mod 64 < 64"
      using False div_less_iff_less_mult [of 64 "code c" 4] lt by auto
    have u8: "n < 256 \<Longrightarrow> unat (word_of_nat n :: u8) = n" for n
      by (simp add: unat_of_nat take_bit_eq_mod)
    have hi: "unat (word_of_nat (192 + code c div 64) :: u8) = 192 + code c div 64"
      using b by (intro u8) simp
    have lo: "unat (word_of_nat (128 + code c mod 64) :: u8) = 128 + code c mod 64"
      using b by (intro u8) simp
    moreover have "code c div 64 * 64 + code c mod 64 = code c" by simp
    ultimately show ?thesis using Cons False hi b
      by (simp add: utf8_def utf8_char_def del: of_nat_add) (simp add: code_def)
  qed
qed

lemma utf8_inject [simp]: "utf8 s = utf8 t \<longleftrightarrow> s = t"
  by (metis from_utf8_utf8 option.inject)

lemma utf8_append: "utf8 (s @ t) = utf8 s @ utf8 t"
  by (simp add: utf8_def)

end
