(* ===== verification/Modes.thy ===== *)
theory Modes
  imports Text
begin

text \<open>
  The DECSET mode tracker of \<open>src/src/terminals.rs\<close> (\<open>Scan\<close>, \<open>ModeTracker\<close>): a byte-level
  scanner for \<open>ESC [ ? n ; ... h|l\<close> sequences that survives sequences split across feeds, and the
  synthesis of the sequences that reinstate every mode it tracked. Bytes are \<open>8 word\<close>s; mode
  numbers are the \<open>u16\<close> values that \<open>parse::<u16>\<close> accepts.
\<close>

subsection \<open>State\<close>

datatype scan = Ground | Esc | Csi "u8 list"

record mode_tracker =
  st :: scan
  app_cursor :: bool
  cursor_hidden :: bool
  alt_screen :: "nat option"
  bracketed_paste :: bool
  mouse :: "nat list" \<comment> \<open>a \<open>BTreeSet<u16>\<close>: ascending, without duplicates\<close>

definition tracker_new :: mode_tracker where
  "tracker_new = \<lparr>st = Ground, app_cursor = False, cursor_hidden = False, alt_screen = None,
     bracketed_paste = False, mouse = []\<rparr>"

subsection \<open>Operations\<close>

definition byte_text :: "u8 list \<Rightarrow> string" where
  "byte_text bs = map (\<lambda>b. char_of (unat b)) bs"

definition text_bytes :: "string \<Rightarrow> u8 list" where
  "text_bytes s = map (\<lambda>c. word_of_nat (code c)) s"

definition is_mouse_mode :: "nat \<Rightarrow> bool" where
  "is_mouse_mode n \<longleftrightarrow> n = 9 \<or> (1000 \<le> n \<and> n \<le> 1003) \<or> n = 1005 \<or> n = 1006 \<or> n = 1015 \<or> n = 1016"

definition is_alt_mode :: "nat \<Rightarrow> bool" where
  "is_alt_mode n \<longleftrightarrow> n = 47 \<or> n = 1047 \<or> n = 1049"

definition apply_mode :: "bool \<Rightarrow> mode_tracker \<Rightarrow> nat \<Rightarrow> mode_tracker" where
  "apply_mode on t n =
    (if n = 1 then t\<lparr>app_cursor := on\<rparr>
     else if n = 25 then t\<lparr>cursor_hidden := \<not> on\<rparr>
     else if is_alt_mode n then t\<lparr>alt_screen := (if on then Some n else None)\<rparr>
     else if n = 2004 then t\<lparr>bracketed_paste := on\<rparr>
     else if is_mouse_mode n then
       t\<lparr>mouse := (if on then insort_insert n (mouse t) else filter (\<lambda>m. m \<noteq> n) (mouse t))\<rparr>
     else t)"

definition apply_param :: "bool \<Rightarrow> mode_tracker \<Rightarrow> u8 list \<Rightarrow> mode_tracker" where
  "apply_param on t p =
    (case parse_uint u16_max (byte_text p) of None \<Rightarrow> t | Some n \<Rightarrow> apply_mode on t n)"

definition apply_params :: "bool \<Rightarrow> mode_tracker \<Rightarrow> u8 list \<Rightarrow> mode_tracker" where
  "apply_params on t b =
    (case strip_prefix [0x3f] b of
       None \<Rightarrow> t
     | Some params \<Rightarrow> foldl (apply_param on) t (split_on 0x3b params))"

definition dispatch :: "mode_tracker \<Rightarrow> u8 list \<Rightarrow> u8 \<Rightarrow> mode_tracker" where
  "dispatch t b final =
    (if final = 0x68 then apply_params True t b
     else if final = 0x6c then apply_params False t b
     else t)"

definition feed_byte :: "mode_tracker \<Rightarrow> u8 \<Rightarrow> mode_tracker" where
  "feed_byte t b =
    (case st t of
       Ground \<Rightarrow> t\<lparr>st := (if b = 0x1b then Esc else Ground)\<rparr>
     | Esc \<Rightarrow> t\<lparr>st := (if b = 0x5b then Csi [] else if b = 0x1b then Esc else Ground)\<rparr>
     | Csi buf \<Rightarrow>
         (if 0x20 \<le> b \<and> b \<le> 0x3f then t\<lparr>st := Csi (if length buf < 32 then buf @ [b] else buf)\<rparr>
          else if 0x40 \<le> b \<and> b \<le> 0x7e then (dispatch t buf b)\<lparr>st := Ground\<rparr>
          else if b = 0x1b then t\<lparr>st := Esc\<rparr>
          else t\<lparr>st := Csi buf\<rparr>))"

definition feed :: "mode_tracker \<Rightarrow> u8 list \<Rightarrow> mode_tracker" where
  "feed t bs = foldl feed_byte t bs"

definition mode_seq :: "nat \<Rightarrow> u8 \<Rightarrow> u8 list" where
  "mode_seq n final = [0x1b, 0x5b, 0x3f] @ text_bytes (show_nat n) @ [final]"

definition synth :: "mode_tracker \<Rightarrow> u8 list" where
  "synth t =
    (case alt_screen t of None \<Rightarrow> [] | Some n \<Rightarrow> mode_seq n 0x68) @
    (if app_cursor t then mode_seq 1 0x68 else []) @
    (if bracketed_paste t then mode_seq 2004 0x68 else []) @
    concat (map (\<lambda>n. mode_seq n 0x68) (mouse t)) @
    (if cursor_hidden t then mode_seq 25 0x6c else [])"

subsection \<open>Feeding\<close>

lemma feed_Nil [simp]: "feed t [] = t"
  by (simp add: feed_def)

lemma feed_Cons: "feed t (b # bs) = feed (feed_byte t b) bs"
  by (simp add: feed_def)

lemma feed_append: "feed t (a @ b) = feed (feed t a) b"
  by (simp add: feed_def)

lemma feed_concat: "feed t (concat bss) = foldl feed t bss"
  by (induction bss arbitrary: t) (auto simp: feed_append)

text \<open>What the tracker holds at any time is well formed.\<close>

definition modes_ok :: "mode_tracker \<Rightarrow> bool" where
  "modes_ok t \<longleftrightarrow> sorted (mouse t) \<and> distinct (mouse t) \<and> (\<forall>n \<in> set (mouse t). is_mouse_mode n) \<and>
     (case alt_screen t of None \<Rightarrow> True | Some n \<Rightarrow> is_alt_mode n)"

lemma modes_ok_new [simp]: "modes_ok tracker_new"
  by (simp add: modes_ok_def tracker_new_def)

lemma modes_ok_st [simp]: "modes_ok (t\<lparr>st := s\<rparr>) = modes_ok t"
  by (simp add: modes_ok_def)

lemma modes_ok_apply_mode: "modes_ok t \<Longrightarrow> modes_ok (apply_mode on t n)"
  by (auto simp: modes_ok_def apply_mode_def sorted_insort_insert distinct_insort_insert
      set_insort_insert sorted_filter [where f = "\<lambda>x. x", simplified])

lemma modes_ok_foldl: "modes_ok t \<Longrightarrow> modes_ok (foldl (apply_param on) t ps)"
  by (induction ps arbitrary: t) (auto simp: apply_param_def modes_ok_apply_mode split: option.splits)

lemma modes_ok_dispatch: "modes_ok t \<Longrightarrow> modes_ok (dispatch t b f)"
  by (auto simp: dispatch_def apply_params_def modes_ok_foldl split: option.splits)

lemma modes_ok_feed_byte: "modes_ok t \<Longrightarrow> modes_ok (feed_byte t b)"
  by (auto simp: feed_byte_def modes_ok_dispatch split: scan.splits)

lemma modes_ok_feed: "modes_ok t \<Longrightarrow> modes_ok (feed t bs)"
  by (induction bs arbitrary: t) (auto simp: feed_Cons modes_ok_feed_byte)

subsection \<open>Synthesis is the inverse of tracking\<close>

lemma unat_digit: "is_ascii_digit c \<Longrightarrow> unat (word_of_nat (code c) :: u8) = code c"
  by (simp add: unat_of_nat take_bit_eq_mod)

lemma byte_text_bytes [simp]: "byte_text (text_bytes s) = s"
  by (induction s) (auto simp: byte_text_def text_bytes_def unat_of_nat code_def)

lemma digit_byte_range:
  assumes "is_ascii_digit c"
  shows "(0x20 :: u8) \<le> word_of_nat (code c)" and "word_of_nat (code c) \<le> (0x3f :: u8)"
    and "word_of_nat (code c) \<noteq> (0x3b :: u8)"
proof -
  have u: "unat (word_of_nat (code c) :: u8) = code c" and b: "48 \<le> code c" "code c \<le> 57"
    using assms unat_digit by (auto simp: is_ascii_digit_def)
  show "(0x20 :: u8) \<le> word_of_nat (code c)" "word_of_nat (code c) \<le> (0x3f :: u8)"
    using u b by (simp_all add: word_le_nat_alt)
  show "word_of_nat (code c) \<noteq> (0x3b :: u8)"
  proof
    assume "word_of_nat (code c) = (0x3b :: u8)"
    then have "unat (word_of_nat (code c) :: u8) = unat (0x3b :: u8)" by simp
    with u b show False by simp
  qed
qed

lemma feed_csi_digits:
  "\<lbrakk>\<And>c. c \<in> set ds \<Longrightarrow> is_ascii_digit c; length buf + length ds \<le> 32; st t = Csi buf\<rbrakk>
    \<Longrightarrow> feed t (text_bytes ds) = t\<lparr>st := Csi (buf @ text_bytes ds)\<rparr>"
proof (induction ds arbitrary: buf t)
  case Nil
  then show ?case by (simp add: text_bytes_def)
next
  case (Cons c ds)
  let ?b = "word_of_nat (code c) :: u8"
  have "feed_byte t ?b = t\<lparr>st := Csi (buf @ [?b])\<rparr>"
    using Cons.prems digit_byte_range [of c] by (simp add: feed_byte_def)
  moreover have "feed (t\<lparr>st := Csi (buf @ [?b])\<rparr>) (text_bytes ds)
      = t\<lparr>st := Csi ((buf @ [?b]) @ text_bytes ds)\<rparr>"
    using Cons.IH [of "buf @ [?b]" "t\<lparr>st := Csi (buf @ [?b])\<rparr>"] Cons.prems by simp
  ultimately show ?case by (simp add: text_bytes_def feed_Cons)
qed

lemma show_nat_length: "n < 10 ^ k \<Longrightarrow> 0 < k \<Longrightarrow> length (show_nat n) \<le> k"
proof (induction k arbitrary: n)
  case 0
  then show ?case by simp
next
  case (Suc k)
  show ?case
  proof (cases "n < 10")
    case True
    then show ?thesis by (subst show_nat.simps) simp
  next
    case False
    then have "0 < k" using Suc.prems by (cases k) auto
    moreover have "n div 10 < 10 ^ k" using Suc.prems by (simp add: less_mult_imp_div_less)
    ultimately have "length (show_nat (n div 10)) \<le> k" using Suc.IH by simp
    then show ?thesis using False by (subst show_nat.simps) simp
  qed
qed

lemma feed_mode_seq:
  assumes "st t = Ground" "n \<le> u16_max" "f = 0x68 \<or> f = 0x6c"
  shows "feed t (mode_seq n f) = (apply_mode (f = 0x68) t n)\<lparr>st := Ground\<rparr>"
proof -
  let ?d = "text_bytes (show_nat n)"
  let ?t = "t\<lparr>st := Csi [0x3f]\<rparr>"
  have "length (show_nat n) \<le> 5" using assms(2) by (intro show_nat_length) auto
  then have digits: "feed ?t ?d = ?t\<lparr>st := Csi ([0x3f] @ ?d)\<rparr>"
    by (intro feed_csi_digits) (auto dest: show_nat_digits)
  have "0x3b \<notin> set ?d"
    using digit_byte_range(3) by (force simp: text_bytes_def dest: show_nat_digits)
  then have one: "split_on 0x3b ?d = [?d]" by (rule split_on_free)
  have final: "feed_byte (?t\<lparr>st := Csi ([0x3f] @ ?d)\<rparr>) f
      = (dispatch (?t\<lparr>st := Csi ([0x3f] @ ?d)\<rparr>) ([0x3f] @ ?d) f)\<lparr>st := Ground\<rparr>"
    using assms(3) by (auto simp: feed_byte_def)
  have "feed t (mode_seq n f) = feed ?t (?d @ [f])"
    using assms(1) by (simp add: mode_seq_def feed_Cons feed_byte_def)
  also have "\<dots> = feed_byte (?t\<lparr>st := Csi ([0x3f] @ ?d)\<rparr>) f"
    by (simp only: feed_append digits) (simp add: feed_Cons)
  also have "\<dots> = (apply_mode (f = 0x68) (t\<lparr>st := Csi ([0x3f] @ ?d)\<rparr>) n)\<lparr>st := Ground\<rparr>"
    unfolding final using assms(2,3)
    by (auto simp: dispatch_def apply_params_def one apply_param_def parse_uint_show)
  also have "\<dots> = (apply_mode (f = 0x68) t n)\<lparr>st := Ground\<rparr>"
    by (simp add: apply_mode_def)
  finally show ?thesis .
qed

lemma insort_insert_last: "sorted (xs @ [x]) \<Longrightarrow> x \<notin> set xs \<Longrightarrow> insort_insert x xs = xs @ [(x::nat)]"
  by (induction xs) (auto simp: insort_insert_key_def)

lemma feed_mouse_seqs:
  "\<lbrakk>st t = Ground; \<And>n. n \<in> set ns \<Longrightarrow> is_mouse_mode n; sorted (mouse t @ ns); distinct (mouse t @ ns)\<rbrakk>
    \<Longrightarrow> feed t (concat (map (\<lambda>n. mode_seq n 0x68) ns)) = t\<lparr>mouse := mouse t @ ns\<rparr>"
proof (induction ns arbitrary: t)
  case Nil
  then show ?case by simp
next
  case (Cons n ns)
  have n: "is_mouse_mode n" and bound: "n \<le> u16_max"
    using Cons.prems(2) [of n] by (auto simp: is_mouse_mode_def)
  have "insort_insert n (mouse t) = mouse t @ [n]"
    using Cons.prems by (intro insort_insert_last) (auto simp: sorted_append)
  then have step: "feed t (mode_seq n 0x68) = t\<lparr>mouse := mouse t @ [n]\<rparr>"
    using n bound Cons.prems(1)
    by (subst feed_mode_seq) (auto simp: apply_mode_def is_mouse_mode_def is_alt_mode_def)
  show ?case
    using Cons.IH [of "t\<lparr>mouse := mouse t @ [n]\<rparr>"] Cons.prems by (simp add: feed_append step)
qed

lemma feed_opt_seq:
  assumes "st t = Ground" "n \<le> u16_max" "f = 0x68 \<or> f = 0x6c"
  shows "feed t (if b then mode_seq n f else [])
    = (if b then (apply_mode (f = 0x68) t n)\<lparr>st := Ground\<rparr> else t)"
  using assms by (simp add: feed_mode_seq)

lemma feed_synth:
  assumes "modes_ok t"
  shows "feed tracker_new (synth t) = t\<lparr>st := Ground\<rparr>"
proof -
  let ?t1 = "tracker_new\<lparr>alt_screen := alt_screen t\<rparr>"
  let ?t2 = "?t1\<lparr>app_cursor := app_cursor t\<rparr>"
  let ?t3 = "?t2\<lparr>bracketed_paste := bracketed_paste t\<rparr>"
  let ?t4 = "?t3\<lparr>mouse := mouse t\<rparr>"
  have 1: "feed tracker_new (case alt_screen t of None \<Rightarrow> [] | Some n \<Rightarrow> mode_seq n 0x68) = ?t1"
    using assms
    by (auto simp: tracker_new_def modes_ok_def is_alt_mode_def apply_mode_def feed_mode_seq
        split: option.splits)
  have 2: "feed ?t1 (if app_cursor t then mode_seq 1 0x68 else []) = ?t2"
    by (subst feed_opt_seq) (auto simp: tracker_new_def apply_mode_def)
  have 3: "feed ?t2 (if bracketed_paste t then mode_seq 2004 0x68 else []) = ?t3"
    by (subst feed_opt_seq) (auto simp: tracker_new_def apply_mode_def is_alt_mode_def)
  have 4: "feed ?t3 (concat (map (\<lambda>n. mode_seq n 0x68) (mouse t))) = ?t4"
    using assms by (subst feed_mouse_seqs) (auto simp: tracker_new_def modes_ok_def)
  have 5: "feed ?t4 (if cursor_hidden t then mode_seq 25 0x6c else []) = t\<lparr>st := Ground\<rparr>"
    by (subst feed_opt_seq) (auto simp: tracker_new_def apply_mode_def)
  show ?thesis unfolding synth_def feed_append 1 2 3 4 5 ..
qed

text \<open>C30: feeding a fresh tracker the synthesised sequences reproduces every tracked mode.\<close>

theorem synth_roundtrip:
  assumes "modes_ok t"
  shows "feed tracker_new (synth t) = t\<lparr>st := Ground\<rparr>"
  using assms by (rule feed_synth)

theorem synth_roundtrip_witness:
  "let t = \<lparr>st = Esc, app_cursor = True, cursor_hidden = True, alt_screen = Some 1049,
       bracketed_paste = False, mouse = [1000, 1006]\<rparr>
   in feed tracker_new (synth t) = t\<lparr>st := Ground\<rparr>"
  unfolding Let_def
  by (rule synth_roundtrip) (simp add: modes_ok_def is_mouse_mode_def is_alt_mode_def)

end
