(* ===== verification/Ring.thy ===== *)
theory Ring
  imports Modes
begin

text \<open>
  The capped scrollback ring of \<open>src/src/terminals.rs\<close> (\<open>Scrollback\<close>): pushing output, the cut
  point of a new attachment, the mode prefix of a full replay and the screen model. The abstract
  specification is the whole output history of the shell; \<open>ring_abs\<close> says what the ring holds of it.

  The screen emulator (the \<open>vt100\<close> crate) is a parameter, the record \<open>emulator\<close>. The stream total
  is a 64-bit word, so it wraps as in the release build; every statement that needs it not to have
  wrapped says so.
\<close>

subsection \<open>State\<close>

datatype attach_mode = Resume | Replay

record 's emulator =
  em_new :: "nat \<Rightarrow> nat \<Rightarrow> 's"
  em_process :: "'s \<Rightarrow> u8 list \<Rightarrow> 's"
  em_contents :: "'s \<Rightarrow> u8 list"

record 's scrollback =
  buf :: "u8 list"
  cap :: nat
  total :: u64
  front_state :: mode_tracker
  screen :: 's
  size :: "nat \<times> nat"
  stale :: bool

subsection \<open>Operations\<close>

definition screen_dim :: "nat \<Rightarrow> nat" where
  "screen_dim n = (if n = 0 then 1 else n)"

definition screen_model :: "'s emulator \<Rightarrow> nat \<Rightarrow> nat \<Rightarrow> 's" where
  "screen_model em cols rows = em_new em (screen_dim rows) (screen_dim cols)"

definition scrollback_new :: "'s emulator \<Rightarrow> nat \<Rightarrow> nat \<Rightarrow> nat \<Rightarrow> 's scrollback" where
  "scrollback_new em cp cols rows =
     \<lparr>buf = [], cap = cp, total = 0, front_state = tracker_new,
      screen = screen_model em cols rows, size = (cols, rows), stale = False\<rparr>"

text \<open>The eviction loop: pop the front while the ring is longer than the cap; the popped bytes and
  what stays.\<close>

fun evict :: "nat \<Rightarrow> u8 list \<Rightarrow> u8 list \<times> u8 list" where
  "evict c [] = ([], [])"
| "evict c (b # bs) =
    (if c < length (b # bs) then (case evict c bs of (ev, rest) \<Rightarrow> (b # ev, rest))
     else ([], b # bs))"

definition push :: "'s emulator \<Rightarrow> 's scrollback \<Rightarrow> u8 list \<Rightarrow> 's scrollback" where
  "push em s dat =
    (case evict (cap s) (buf s @ dat) of
      (evicted, rest) \<Rightarrow>
        s\<lparr>total := total s + word_of_nat (length dat),
          buf := rest,
          front_state := feed (front_state s) evicted,
          screen := em_process em (screen s) dat\<rparr>)"

definition sb_resize :: "'s scrollback \<Rightarrow> nat \<Rightarrow> nat \<Rightarrow> 's scrollback" where
  "sb_resize s cols rows =
    (if size s \<noteq> (cols, rows) then s\<lparr>size := (cols, rows), stale := True\<rparr> else s)"

definition front_init :: "'s scrollback \<Rightarrow> u8 list" where
  "front_init s = synth (front_state s)"

definition snapshot :: "'s scrollback \<Rightarrow> u8 list" where
  "snapshot s = buf s"

text \<open>\<open>k\<close> is where the deque's storage wraps: \<open>as_slices\<close> gives the ring in two pieces.\<close>

definition screen_snapshot ::
  "'s emulator \<Rightarrow> nat \<Rightarrow> 's scrollback \<Rightarrow> u8 list \<times> 's scrollback" where
  "screen_snapshot em k s =
    (let s' = (if stale s then
        (let fresh = screen_model em (fst (size s)) (snd (size s));
             fresh1 = em_process em fresh (front_init s);
             fresh2 = em_process em fresh1 (take k (buf s));
             fresh3 = em_process em fresh2 (drop k (buf s))
         in s\<lparr>screen := fresh3, stale := False\<rparr>) else s)
     in (em_contents em (screen s'), s'))"

definition cut :: "'s scrollback \<Rightarrow> u64 option \<Rightarrow> attach_mode \<times> u64 \<times> u8 list" where
  "cut s offset =
    (let replay = (let bytes = snapshot s in (Replay, total s - word_of_nat (length bytes), bytes))
     in case offset of
       None \<Rightarrow> replay
     | Some off \<Rightarrow>
        (if off \<le> total s then
           (let missed = total s - off
            in if unat missed \<le> length (buf s)
               then (Resume, off, drop (length (buf s) - unat missed) (buf s))
               else replay)
         else replay))"

subsection \<open>The abstract specification: the output history\<close>

definition ring_abs :: "u8 list \<Rightarrow> 's scrollback \<Rightarrow> bool" where
  "ring_abs h s \<longleftrightarrow>
     length h < 2 ^ 64 \<and>
     buf s = drop (length h - cap s) h \<and>
     total s = word_of_nat (length h) \<and>
     front_state s = feed tracker_new (take (length h - cap s) h)"

lemma evict_eq: "evict c bs = (take (length bs - c) bs, drop (length bs - c) bs)"
proof (induction bs)
  case Nil
  then show ?case by simp
next
  case (Cons b bs)
  then show ?case by (auto simp: Suc_diff_le not_less)
qed

lemma ring_abs_new: "ring_abs [] (scrollback_new em c cols rows)"
  by (simp add: ring_abs_def scrollback_new_def)

lemma drop_append_shift:
  "drop (length (drop m h @ d) - c) (drop m h @ d) = drop (length (h @ d) - c) (h @ d)"
  if "m = length h - c"
proof (cases "c \<le> length h")
  case True
  then show ?thesis using that by (simp add: add.commute)
next
  case False
  then show ?thesis using that by simp
qed

lemma take_append_shift:
  "take m h @ take (length (drop m h @ d) - c) (drop m h @ d) = take (length (h @ d) - c) (h @ d)"
  if "m = length h - c"
proof (cases "c \<le> length h")
  case True
  have m: "m \<le> length h" using that by simp
  have "length (h @ d) - c = m + (length (drop m h @ d) - c)"
    using that True by simp
  then have "take (length (h @ d) - c) (h @ d) =
      take m (h @ d) @ take (length (drop m h @ d) - c) (drop m (h @ d))"
    by (simp only: take_add)
  then show ?thesis using m by simp
next
  case False
  then show ?thesis using that by simp
qed

lemma push_buf: "buf (push em s d) = drop (length (buf s @ d) - cap s) (buf s @ d)"
  and push_front: "front_state (push em s d) =
    feed (front_state s) (take (length (buf s @ d) - cap s) (buf s @ d))"
  and push_total: "total (push em s d) = total s + word_of_nat (length d)"
  and push_cap [simp]: "cap (push em s d) = cap s"
  and push_screen: "screen (push em s d) = em_process em (screen s) d"
  and push_size [simp]: "size (push em s d) = size s"
  and push_stale [simp]: "stale (push em s d) = stale s"
  by (simp_all add: push_def evict_eq)

lemma ring_abs_push:
  assumes "ring_abs h s" and "length (h @ d) < 2 ^ 64"
  shows "ring_abs (h @ d) (push em s d)"
proof -
  let ?m = "length h - cap s"
  have "buf (push em s d) = drop (length (h @ d) - cap s) (h @ d)"
    using assms(1) drop_append_shift [of ?m h "cap s" d] by (simp only: push_buf ring_abs_def)
  moreover have "front_state (push em s d)
      = feed tracker_new (take ?m h @ take (length (drop ?m h @ d) - cap s) (drop ?m h @ d))"
    using assms(1) by (simp only: push_front ring_abs_def feed_append)
  then have "front_state (push em s d) = feed tracker_new (take (length (h @ d) - cap s) (h @ d))"
    using take_append_shift [of ?m h "cap s" d] by (simp only:)
  moreover have "total (push em s d) = word_of_nat (length (h @ d))"
    using assms(1) by (simp add: push_total ring_abs_def)
  ultimately show ?thesis using assms by (simp add: ring_abs_def)
qed

lemma ring_abs_resize: "ring_abs h s \<Longrightarrow> ring_abs h (sb_resize s c r)"
  by (simp add: ring_abs_def sb_resize_def)

lemma ring_abs_snapshot: "ring_abs h s \<Longrightarrow> ring_abs h (snd (screen_snapshot em k s))"
  by (simp add: ring_abs_def screen_snapshot_def Let_def)

lemma ring_abs_total: "ring_abs h s \<Longrightarrow> unat (total s) = length h"
  by (simp add: ring_abs_def unat_of_nat take_bit_eq_mod)

lemma ring_abs_length: "ring_abs h s \<Longrightarrow> length (buf s) = min (length h) (cap s)"
  by (simp add: ring_abs_def)

text \<open>pushing chunks one after another keeps exactly the last \<open>cap\<close> bytes of the whole output,
  counts every byte, and leaves the tracker with the modes of exactly the evicted prefix.\<close>

theorem push_all_refines:
  assumes "length (concat ds) < 2 ^ 64"
  shows "ring_abs (concat ds) (foldl (push em) (scrollback_new em c cols rows) ds)
    \<and> cap (foldl (push em) (scrollback_new em c cols rows) ds) = c"
  using assms
proof (induction ds rule: rev_induct)
  case Nil
  show ?case by (simp add: ring_abs_new) (simp add: scrollback_new_def)
next
  case (snoc d ds)
  then show ?case by (simp add: ring_abs_push)
qed

definition unit_emulator :: "unit emulator" where
  "unit_emulator = \<lparr>em_new = (\<lambda>_ _. ()), em_process = (\<lambda>_ _. ()), em_contents = (\<lambda>_. [])\<rparr>"

theorem push_all_refines_witness:
  "ring_abs [1, 2, 3, 4, 5]
     (foldl (push unit_emulator) (scrollback_new unit_emulator 4 80 24) [[1, 2], [3, 4, 5]]) \<and>
   cap (foldl (push unit_emulator) (scrollback_new unit_emulator 4 80 24) [[1, 2], [3, 4, 5]]) = 4"
  using push_all_refines [of "[[1, 2], [3, 4, 5]]" unit_emulator 4 80 24] by simp

subsection \<open>The cut point\<close>

lemma unat_diff_le: "(a :: u64) \<le> b \<Longrightarrow> unat (b - a) = unat b - unat a"
  by (simp add: unat_sub)

lemma cut_resumeD:
  assumes "ring_abs h s" and "cut s offset = (Resume, base, bytes)"
  shows "\<exists>off. offset = Some off \<and> base = off \<and> unat off \<le> length h \<and> bytes = drop (unat off) h"
proof -
  obtain off where off: "offset = Some off" "off \<le> total s" "unat (total s - off) \<le> length (buf s)"
    "base = off" "bytes = drop (length (buf s) - unat (total s - off)) (buf s)"
    using assms(2) by (auto simp: cut_def Let_def split: option.splits if_splits)
  have le: "unat off \<le> length h"
    using off(2) ring_abs_total [OF assms(1)] by (simp add: word_le_nat_alt)
  have missed: "unat (total s - off) = length h - unat off"
    using off(2) ring_abs_total [OF assms(1)] by (simp add: unat_diff_le)
  have buf: "buf s = drop (length h - cap s) h" "length (buf s) = min (length h) (cap s)"
    using assms(1) ring_abs_length [OF assms(1)] by (simp_all add: ring_abs_def)
  have fit: "length h - unat off \<le> min (length h) (cap s)"
    using off(3) missed buf(2) by simp
  then have "(min (length h) (cap s) - (length h - unat off)) + (length h - cap s) = unat off"
    using le by (simp add: min_def split: if_splits)
  then have "bytes = drop (unat off) h"
    unfolding off(5) missed buf(2) by (simp only: buf(1) drop_drop)
  then show ?thesis using off le by blast
qed

lemma cut_replayD:
  assumes "ring_abs h s" and "cut s offset = (Replay, base, bytes)"
  shows "unat base = length h - min (length h) (cap s) \<and> bytes = drop (unat base) h"
proof -
  have b: "bytes = buf s" "base = total s - word_of_nat (length (buf s))"
    using assms(2)
    by (auto simp: cut_def Let_def snapshot_def split: option.splits if_splits)
  have len: "length (buf s) = min (length h) (cap s)" and lim: "length h < 2 ^ 64"
    using ring_abs_length [OF assms(1)] assms(1) by (simp_all add: ring_abs_def)
  then have u: "unat (word_of_nat (length (buf s)) :: u64) = length (buf s)"
    by (simp add: unat_of_nat take_bit_eq_mod)
  have "unat base = length h - length (buf s)"
    using b(2) u len ring_abs_total [OF assms(1)] by (simp add: unat_diff_le word_le_nat_alt)
  then show ?thesis using b(1) len assms(1) by (simp add: ring_abs_def min_def)
qed

text \<open>the cut resumes exactly when the client's offset lies inside the retained window; it then
  sends precisely the missed tail, and otherwise (no offset, an offset beyond the stream, or one
  that fell out of the ring) it replays the whole retained tail from its true position.\<close>

theorem cut_correct:
  assumes "ring_abs h s"
  shows "cut s offset =
    (case offset of
       Some off \<Rightarrow>
         if unat off \<le> length h \<and> length h - unat off \<le> cap s
         then (Resume, off, drop (unat off) h)
         else (Replay, word_of_nat (length h - cap s), drop (length h - cap s) h)
     | None \<Rightarrow> (Replay, word_of_nat (length h - cap s), drop (length h - cap s) h))"
proof -
  have tot: "unat (total s) = length h" and lim: "length h < 2 ^ 64"
    using ring_abs_total [OF assms] assms by (simp_all add: ring_abs_def)
  have len: "length (buf s) = min (length h) (cap s)" using assms by (rule ring_abs_length)
  have buf: "buf s = drop (length h - cap s) h" using assms by (simp add: ring_abs_def)
  have "total s - word_of_nat (length (buf s)) = word_of_nat (length h - cap s)"
    using assms len by (simp add: ring_abs_def of_nat_diff min_def)
  then have rep: "(Replay, total s - word_of_nat (length (snapshot s)), snapshot s)
      = (Replay, word_of_nat (length h - cap s), drop (length h - cap s) h)"
    using buf by (simp add: snapshot_def)
  show ?thesis
  proof (cases offset)
    case None
    then have "cut s offset = (Replay, total s - word_of_nat (length (snapshot s)), snapshot s)"
      by (simp add: cut_def Let_def)
    then show ?thesis using rep None by simp
  next
    case (Some off)
    have cond: "(off \<le> total s \<and> unat (total s - off) \<le> length (buf s))
        = (unat off \<le> length h \<and> length h - unat off \<le> cap s)"
      using tot len by (auto simp: word_le_nat_alt unat_diff_le)
    show ?thesis
    proof (cases "unat off \<le> length h \<and> length h - unat off \<le> cap s")
      case True
      then have c: "off \<le> total s" "unat (total s - off) \<le> length (buf s)" using cond by auto
      then have cs: "cut s offset = (Resume, off, drop (length (buf s) - unat (total s - off)) (buf s))"
        using Some by (simp add: cut_def Let_def)
      have "drop (length (buf s) - unat (total s - off)) (buf s) = drop (unat off) h"
        using cut_resumeD [OF assms cs] Some by auto
      then show ?thesis using cs Some True by simp
    next
      case False
      then have "\<not> (off \<le> total s \<and> unat (total s - off) \<le> length (buf s))" using cond by simp
      then have "cut s offset = (Replay, total s - word_of_nat (length (snapshot s)), snapshot s)"
        using Some by (auto simp: cut_def Let_def)
      then show ?thesis using rep Some False by auto
    qed
  qed
qed

text \<open>A small ring for the witnesses: four bytes of the output \<open>hello\<close>.\<close>

definition hello_ring :: "unit scrollback" where
  "hello_ring = push unit_emulator (scrollback_new unit_emulator 4 80 24)
     [0x68, 0x65, 0x6c, 0x6c, 0x6f]"

lemma hello_ring_abs: "ring_abs [0x68, 0x65, 0x6c, 0x6c, 0x6f] hello_ring"
  using ring_abs_push [OF ring_abs_new, of "[0x68, 0x65, 0x6c, 0x6c, 0x6f]" unit_emulator unit_emulator 4 80 24]
  by (simp add: hello_ring_def)

lemma hello_ring_cap [simp]: "cap hello_ring = 4"
  by (simp add: hello_ring_def scrollback_new_def)

theorem cut_correct_witness:
  "cut hello_ring (Some 3) = (Resume, 3, [0x6c, 0x6f]) \<and>
   cut hello_ring (Some 0) = (Replay, 1, [0x65, 0x6c, 0x6c, 0x6f]) \<and>
   cut hello_ring (Some 99) = (Replay, 1, [0x65, 0x6c, 0x6c, 0x6f])"
  by (simp add: cut_correct [OF hello_ring_abs])

subsection \<open>What a replaying client sees\<close>

text \<open>when the ring does not begin inside an escape sequence, a client that resets, writes the
  hello's mode prefix and then the ring ends with exactly the modes (and scanner position) of the
  whole output, however much of it was evicted.\<close>

theorem replay_modes_exact:
  assumes "ring_abs h s" and "st (front_state s) = Ground"
  shows "feed tracker_new (front_init s @ snapshot s) = feed tracker_new h"
proof -
  let ?m = "length h - cap s"
  have front: "front_state s = feed tracker_new (take ?m h)" and b: "buf s = drop ?m h"
    using assms(1) by (simp_all add: ring_abs_def)
  have "modes_ok (front_state s)" using front by (simp add: modes_ok_feed)
  then have "feed tracker_new (front_init s) = (front_state s)\<lparr>st := Ground\<rparr>"
    by (simp add: front_init_def feed_synth)
  also have "\<dots> = front_state s" using assms(2) by simp
  finally have "feed tracker_new (front_init s @ snapshot s) = feed (front_state s) (drop ?m h)"
    by (simp add: feed_append snapshot_def b)
  also have "\<dots> = feed tracker_new (take ?m h @ drop ?m h)"
    by (simp only: feed_append front)
  finally show ?thesis by simp
qed

theorem replay_modes_exact_witness:
  "feed tracker_new (front_init hello_ring @ snapshot hello_ring)
    = feed tracker_new [0x68, 0x65, 0x6c, 0x6c, 0x6f]"
  by (rule replay_modes_exact [OF hello_ring_abs])
    (simp add: hello_ring_def push_front scrollback_new_def tracker_new_def feed_Cons feed_byte_def)

text \<open>The four-byte ring cut in the middle of \<open>ESC [ ? 1 0 4 9 h\<close>.\<close>

definition split_ring :: "unit scrollback" where
  "split_ring = push unit_emulator (scrollback_new unit_emulator 4 80 24)
      [0x1b, 0x5b, 0x3f, 0x31, 0x30, 0x34, 0x39, 0x68]"

lemma split_ring_state:
  "buf split_ring = [0x30, 0x34, 0x39, 0x68]"
  "front_state split_ring = tracker_new\<lparr>st := Csi [0x3f, 0x31]\<rparr>"
  by (simp_all add: split_ring_def push_buf push_front scrollback_new_def feed_Cons feed_byte_def
      tracker_new_def)

text \<open>the condition on the ring's front is needed. When eviction cuts an enabling sequence in
  two, neither the mode prefix nor the ring carries the mode, so a full replay shows the primary
  screen although the shell is on the alternate one.\<close>

theorem replay_split_sequence_loses_mode:
  "alt_screen (feed tracker_new (front_init split_ring @ snapshot split_ring)) = None \<and>
   alt_screen (feed tracker_new [0x1b, 0x5b, 0x3f, 0x31, 0x30, 0x34, 0x39, 0x68]) = Some 1049"
proof
  have "front_init split_ring = []"
    by (simp add: front_init_def split_ring_state synth_def tracker_new_def)
  then show "alt_screen (feed tracker_new (front_init split_ring @ snapshot split_ring)) = None"
    by (simp add: snapshot_def split_ring_state feed_Cons feed_byte_def tracker_new_def)
  have "[0x1b, 0x5b, 0x3f, 0x31, 0x30, 0x34, 0x39, 0x68] = mode_seq 1049 0x68"
    by (simp add: mode_seq_def text_bytes_def show_nat.simps digit_char_def code_char_of)
  moreover have "feed tracker_new (mode_seq 1049 0x68)
      = (apply_mode True tracker_new 1049)\<lparr>st := Ground\<rparr>"
    by (subst feed_mode_seq) (simp_all add: tracker_new_def)
  ultimately show
    "alt_screen (feed tracker_new [0x1b, 0x5b, 0x3f, 0x31, 0x30, 0x34, 0x39, 0x68]) = Some 1049"
    by (simp add: apply_mode_def is_alt_mode_def)
qed

subsection \<open>The screen model\<close>

text \<open>What the program relies on of the emulator: it is a streaming parser, so feeding a sequence in
  pieces is feeding it whole.\<close>

definition streaming :: "'s emulator \<Rightarrow> bool" where
  "streaming em \<longleftrightarrow> (\<forall>s a b. em_process em (em_process em s a) b = em_process em s (a @ b))"

lemma streaming_foldl:
  "streaming em \<Longrightarrow> ds \<noteq> [] \<Longrightarrow> screen (foldl (push em) s ds) = em_process em (screen s) (concat ds)"
proof (induction ds rule: rev_induct)
  case Nil
  then show ?case by simp
next
  case (snoc d ds)
  then show ?case by (cases "ds = []") (auto simp: push_screen streaming_def)
qed

lemma foldl_push_stale [simp]: "stale (foldl (push em) s ds) = stale s"
  and foldl_push_size [simp]: "size (foldl (push em) s ds) = size s"
  and foldl_push_cap [simp]: "cap (foldl (push em) s ds) = cap s"
  by (induction ds arbitrary: s) auto

text \<open>a redraw shows what the emulator makes of the whole output when the size never changed;
  after a resize it shows what a client replaying the mode prefix and the ring at the new size
  shows, wherever the deque's storage wraps, and the model is no longer stale.\<close>

theorem screen_snapshot_correct:
  assumes "streaming em" and "ds \<noteq> []"
    and "s = foldl (push em) (scrollback_new em c cols rows) ds"
    and "(cols', rows') \<noteq> (cols, rows)" and "s' = sb_resize s cols' rows'"
  shows "fst (screen_snapshot em k s)
        = em_contents em (em_process em (screen_model em cols rows) (concat ds)) \<and>
      fst (screen_snapshot em k s')
        = em_contents em (em_process em (screen_model em cols' rows') (front_init s' @ snapshot s')) \<and>
      \<not> stale (snd (screen_snapshot em k s'))"
proof -
  have s: "\<not> stale s" "size s = (cols, rows)"
    "screen s = em_process em (screen_model em cols rows) (concat ds)"
    by (simp_all add: assms(3) streaming_foldl assms(1,2)) (simp_all add: scrollback_new_def)
  then have s': "stale s'" "size s' = (cols', rows')"
    using assms(4,5) by (auto simp: sb_resize_def)
  have join: "em_process em (em_process em (em_process em x a) (take k b)) (drop k b)
      = em_process em x (a @ b)" for x a b
    using assms(1) by (simp add: streaming_def)
  show ?thesis
    by (simp add: screen_snapshot_def Let_def s s' join snapshot_def)
qed

theorem screen_snapshot_correct_witness:
  defines "em \<equiv> \<lparr>em_new = (\<lambda>_ _. []), em_process = (\<lambda>s b. s @ b), em_contents = (\<lambda>s. s)\<rparr>"
  shows "fst (screen_snapshot em 0 (foldl (push em) (scrollback_new em 3 80 24) [[1, 2], [3, 4]]))
     = [1, 2, 3, 4]"
proof -
  have "streaming em" by (simp add: streaming_def em_def)
  from screen_snapshot_correct [OF this, of "[[1, 2], [3, 4]]" _ 3 80 24 100 30, OF _ refl _ refl]
  show ?thesis by (simp add: em_def screen_model_def)
qed

subsection \<open>The resume protocol\<close>

text \<open>
  The contract between the ring and every client that attaches, detaches and re-attaches to the
  same shell: the cut hands out exactly the bytes a client at that offset lacks, or everything
  retained from a stated position. A client keeps the stream position of its oldest byte and the
  bytes since; its offset is their sum.
\<close>

datatype 'b stream_event = Output "'b list" | Detach | Attach

record 'b follower =
  attached :: bool
  base :: nat
  got :: "'b list"

definition viewer_new :: "'b follower" where
  "viewer_new = \<lparr>attached = False, base = 0, got = []\<rparr>"

definition viewer_offset :: "'b follower \<Rightarrow> nat" where
  "viewer_offset v = base v + length (got v)"

definition viewer_hello :: "attach_mode \<times> u64 \<times> 'b list \<Rightarrow> 'b follower \<Rightarrow> 'b follower" where
  "viewer_hello r v =
    (case r of
       (Resume, b, bytes) \<Rightarrow> v\<lparr>attached := True, got := got v @ bytes\<rparr>
     | (Replay, b, bytes) \<Rightarrow> \<lparr>attached = True, base = unat b, got = bytes\<rparr>)"

fun stream_step ::
  "('s \<Rightarrow> 'b list \<Rightarrow> 's) \<Rightarrow> ('s \<Rightarrow> u64 option \<Rightarrow> attach_mode \<times> u64 \<times> 'b list) \<Rightarrow>
    's \<times> 'b follower \<Rightarrow> 'b stream_event \<Rightarrow> 's \<times> 'b follower" where
  "stream_step pu cu (s, v) (Output d) =
    (pu s d, if attached v then v\<lparr>got := got v @ d\<rparr> else v)"
| "stream_step pu cu (s, v) Detach = (s, v\<lparr>attached := False\<rparr>)"
| "stream_step pu cu (s, v) Attach =
    (s, viewer_hello (cu s (Some (word_of_nat (viewer_offset v)))) v)"

fun outputs :: "'b stream_event list \<Rightarrow> 'b list" where
  "outputs [] = []"
| "outputs (Output d # es) = d @ outputs es"
| "outputs (_ # es) = outputs es"

text \<open>The client shows a contiguous piece of the true stream at the position it claims, and
  everything up to now while attached.\<close>

definition in_sync :: "'b list \<Rightarrow> 'b follower \<Rightarrow> bool" where
  "in_sync h v \<longleftrightarrow> viewer_offset v \<le> length h \<and>
     got v = take (length (got v)) (drop (base v) h) \<and>
     (attached v \<longrightarrow> viewer_offset v = length h)"

lemma in_sync_grow:
  assumes "in_sync h v"
  shows "in_sync (h @ d) (if attached v then v\<lparr>got := got v @ d\<rparr> else v)"
proof (cases "attached v")
  case True
  then have len: "base v + length (got v) = length h" and g: "got v = drop (base v) h"
    using assms by (auto simp: in_sync_def viewer_offset_def)
  then have "got v @ d = drop (base v) (h @ d)" by simp
  then show ?thesis using True len by (auto simp: in_sync_def viewer_offset_def)
next
  case False
  then show ?thesis using assms
    by (auto simp: in_sync_def viewer_offset_def)
qed

locale resumable =
  fixes abs :: "'b list \<Rightarrow> 's \<Rightarrow> bool"
    and pu :: "'s \<Rightarrow> 'b list \<Rightarrow> 's"
    and cu :: "'s \<Rightarrow> u64 option \<Rightarrow> attach_mode \<times> u64 \<times> 'b list"
  assumes abs_push: "abs h s \<Longrightarrow> length (h @ d) < 2 ^ 64 \<Longrightarrow> abs (h @ d) (pu s d)"
    and cut_resume: "abs h s \<Longrightarrow> cu s o' = (Resume, b, bytes) \<Longrightarrow>
      \<exists>off. o' = Some off \<and> b = off \<and> unat off \<le> length h \<and> bytes = drop (unat off) h"
    and cut_replay: "abs h s \<Longrightarrow> cu s o' = (Replay, b, bytes) \<Longrightarrow>
      unat b \<le> length h \<and> bytes = drop (unat b) h"
begin

lemma hello_in_sync:
  assumes "abs h s" "length h < 2 ^ 64" "in_sync h v"
  shows "in_sync h (viewer_hello (cu s (Some (word_of_nat (viewer_offset v)))) v)"
proof -
  have off: "unat (word_of_nat (viewer_offset v) :: u64) = viewer_offset v"
    using assms(2,3) by (simp add: in_sync_def unat_of_nat take_bit_eq_mod)
  obtain m b bytes where c: "cu s (Some (word_of_nat (viewer_offset v))) = (m, b, bytes)"
    by (cases "cu s (Some (word_of_nat (viewer_offset v)))") auto
  show ?thesis
  proof (cases m)
    case Resume
    then have bytes: "bytes = drop (viewer_offset v) h"
      using cut_resume [OF assms(1) c [unfolded Resume]] off by auto
    have g: "got v = take (length (got v)) (drop (base v) h)" and le: "viewer_offset v \<le> length h"
      using assms(3) by (auto simp: in_sync_def)
    have "got v @ bytes = drop (base v) h"
      unfolding bytes viewer_offset_def
      by (subst g) (metis add.commute append_take_drop_id drop_drop)
    then show ?thesis using le c Resume bytes
      by (auto simp: in_sync_def viewer_hello_def viewer_offset_def)
  next
    case Replay
    then have "unat b \<le> length h \<and> bytes = drop (unat b) h"
      using cut_replay [OF assms(1) c [unfolded Replay]] by simp
    then show ?thesis using c Replay
      by (auto simp: in_sync_def viewer_hello_def viewer_offset_def)
  qed
qed

lemma run_in_sync:
  assumes "abs h s" "in_sync h v" "length (h @ outputs es) < 2 ^ 64"
  shows "case foldl (stream_step pu cu) (s, v) es of
    (s', v') \<Rightarrow> abs (h @ outputs es) s' \<and> in_sync (h @ outputs es) v'"
  using assms
proof (induction es arbitrary: h s v)
  case Nil
  then show ?case by simp
next
  case (Cons e es)
  show ?case
  proof (cases e)
    case (Output d)
    have "abs (h @ d) (pu s d)"
      using Cons.prems Output by (intro abs_push) auto
    moreover have "in_sync (h @ d) (if attached v then v\<lparr>got := got v @ d\<rparr> else v)"
      using Cons.prems(2) by (rule in_sync_grow)
    ultimately have "abs (h @ d) (pu s d)"
      "in_sync (h @ d) (if attached v then v\<lparr>got := got v @ d\<rparr> else v)" .
    from Cons.IH [OF this] show ?thesis using Cons.prems Output by simp
  next
    case Detach
    have "in_sync h (v\<lparr>attached := False\<rparr>)"
      using Cons.prems by (auto simp: in_sync_def viewer_offset_def)
    from Cons.IH [OF Cons.prems(1) this] show ?thesis using Cons.prems Detach by simp
  next
    case Attach
    have "in_sync h (viewer_hello (cu s (Some (word_of_nat (viewer_offset v)))) v)"
      using Cons.prems by (intro hello_in_sync) auto
    from Cons.IH [OF Cons.prems(1) this] show ?thesis using Cons.prems Attach by simp
  qed
qed

end

interpretation rs: resumable ring_abs "push em" cut for em
proof unfold_locales
  show "ring_abs (h @ d) (push em s d)" if "ring_abs h s" "length (h @ d) < 2 ^ 64" for h s d
    using that by (rule ring_abs_push)
  show "\<exists>off. o' = Some off \<and> b = off \<and> unat off \<le> length h \<and> bytes = drop (unat off) h"
    if "ring_abs h s" "cut s o' = (Resume, b, bytes)" for h and s :: "'a scrollback" and o' b bytes
    using cut_resumeD [OF that] .
  show "unat b \<le> length h \<and> bytes = drop (unat b) h"
    if "ring_abs h s" "cut s o' = (Replay, b, bytes)" for h and s :: "'a scrollback" and o' b bytes
    using cut_replayD [OF that] by simp
qed

text \<open>C29: across any sequence of output, disconnects and resuming re-attachments, a client never
  shows a byte twice, never misses one and never shows one at the wrong position; while attached it
  has everything from its base on.\<close>

theorem reattach_in_sync:
  assumes "length (outputs es) < 2 ^ 64"
  shows "in_sync (outputs es)
    (snd (foldl (stream_step (push em) cut) (scrollback_new em c cols rows, viewer_new) es))"
proof -
  have "in_sync [] (viewer_new :: u8 follower)"
    by (simp add: in_sync_def viewer_new_def viewer_offset_def)
  from rs.run_in_sync [OF ring_abs_new this, of es em em c cols rows] assms show ?thesis
    by (auto split: prod.splits)
qed

theorem reattach_in_sync_witness:
  "let es = [Output [1], Attach, Output [2, 3], Detach, Output [4, 5, 6], Attach]
   in in_sync [1, 2, 3, 4, 5, 6]
     (snd (foldl (stream_step (push unit_emulator) cut)
       (scrollback_new unit_emulator 4 80 24, viewer_new) es))"
proof -
  let ?es = "[Output [1], Attach, Output [2, 3], Detach, Output [4, 5, 6], Attach] :: u8 stream_event list"
  have out: "outputs ?es = [1, 2, 3, 4, 5, 6]" and lt: "length (outputs ?es) < 2 ^ 64" by simp_all
  show ?thesis
    unfolding Let_def using reattach_in_sync [OF lt, of unit_emulator 4 80 24]
    unfolding out .
qed

end
