(* ===== verification/Terminals.thy ===== *)
theory Terminals
  imports Ring Text
begin

text \<open>
  The terminal slots of \<open>src/src/terminals.rs\<close>: a live terminal with its two threads, spawning, attaching,
  viewing, resetting, and the redraw of a screen.

  Terminals are shared by the slot that owns them, their threads and every attachment, so they live in
  a heap and slots and attachments hold indices. The broadcast channel is the list of all chunks ever
  sent, a receiver a position in it; a receiver more than the channel's capacity behind has lagged.
  Everything done under one lock is one step. Parameters: the screen emulator, the outcomes of the
  operating system's calls, the process environment, the random draws.
\<close>

subsection \<open>Epochs\<close>

text \<open>The loop of \<open>next_epoch\<close> over the random draws it makes; \<open>None\<close> while it is still drawing.\<close>

fun next_epoch :: "u64 list \<Rightarrow> u64 option" where
  "next_epoch [] = None"
| "next_epoch (r # rs) =
    (let epoch = and r (2 ^ 53 - 1) in if epoch \<noteq> 0 then Some epoch else next_epoch rs)"

subsection \<open>One terminal\<close>

datatype pty_cmd = Input "u8 list" | Resize_to nat nat | Kill

datatype signal = Hup | Kill9

text \<open>The command thread takes commands (a write may block, so it is a phase of its own) until it breaks
  out of its loop, kills the child, retires the shared killer and reaps the child. The reader thread
  reads until the end of the output, marks the terminal dead, notifies the watchers and nudges the
  command thread.\<close>

datatype cmd_phase = Taking | Writing "u8 list" | Broken | Killed | Retired | Reaped

datatype read_phase = Reading | Marked | Notified | Gone

record 's terminal =
  tm_queue :: "pty_cmd list"
  tm_log :: "u8 list list"
  tm_sb :: "'s scrollback"
  tm_alive :: bool
  tm_size :: "nat \<times> nat"
  tm_shutdown :: bool
  tm_version :: nat
  tm_watchers :: nat
  tm_killer :: bool
  tm_epoch :: u64
  tm_cmd :: cmd_phase
  tm_read :: read_phase
  tm_signals :: "(signal \<times> cmd_phase) list"

definition queue_cap :: nat where "queue_cap = 128"
definition channel_cap :: nat where "channel_cap = 64"

text \<open>\<open>try_send\<close>: refused when the bounded queue is full or the command thread, which owns the receiving
  end, is gone.\<close>

definition try_send :: "pty_cmd \<Rightarrow> 's terminal \<Rightarrow> bool \<times> 's terminal" where
  "try_send c t =
    (if tm_cmd t \<noteq> Reaped \<and> length (tm_queue t) < queue_cap
     then (True, t\<lparr>tm_queue := tm_queue t @ [c]\<rparr>) else (False, t))"

text \<open>The shutdown channel is a \<open>watch\<close>: sending fails, and changes nothing, while nobody holds a receiver; a
  receiver is told when the version is no longer the one it has seen, and a fresh receiver has seen
  the current one.\<close>

definition watch_send :: "'s terminal \<Rightarrow> 's terminal" where
  "watch_send t = (if tm_watchers t = 0 then t else t\<lparr>tm_shutdown := True, tm_version := Suc (tm_version t)\<rparr>)"

definition watch_subscribe :: "'s terminal \<Rightarrow> nat \<times> 's terminal" where
  "watch_subscribe t = (tm_version t, t\<lparr>tm_watchers := Suc (tm_watchers t)\<rparr>)"

definition watch_drop :: "'s terminal \<Rightarrow> 's terminal" where
  "watch_drop t = t\<lparr>tm_watchers := tm_watchers t - 1\<rparr>"

definition told :: "nat \<Rightarrow> 's terminal \<Rightarrow> bool" where
  "told seen t \<longleftrightarrow> tm_version t \<noteq> seen \<and> tm_shutdown t"

text \<open>A signal is recorded with the phase of the command thread at that moment.\<close>

definition signal_child :: "signal \<Rightarrow> 's terminal \<Rightarrow> 's terminal" where
  "signal_child g t = t\<lparr>tm_signals := tm_signals t @ [(g, tm_cmd t)]\<rparr>"

definition term_stop :: "'s terminal \<Rightarrow> 's terminal" where
  "term_stop t =
    (let t1 = watch_send t;
         t2 = (if tm_killer t1 then signal_child Hup t1 else t1)
     in snd (try_send Kill t2))"

definition read_chunk :: "'s emulator \<Rightarrow> u8 list \<Rightarrow> 's terminal \<Rightarrow> 's terminal" where
  "read_chunk em chunk t = t\<lparr>tm_sb := push em (tm_sb t) chunk, tm_log := tm_log t @ [chunk]\<rparr>"

definition read_mark :: "'s terminal \<Rightarrow> 's terminal" where
  "read_mark t = t\<lparr>tm_alive := False, tm_read := Marked\<rparr>"

definition read_notify :: "'s terminal \<Rightarrow> 's terminal" where
  "read_notify t = (watch_send t)\<lparr>tm_read := Notified\<rparr>"

definition read_nudge :: "'s terminal \<Rightarrow> 's terminal" where
  "read_nudge t = (snd (try_send Kill t))\<lparr>tm_read := Gone\<rparr>"

definition cmd_take :: "'s terminal \<Rightarrow> 's terminal" where
  "cmd_take t =
    (case tm_queue t of
      [] \<Rightarrow> t
    | c # rest \<Rightarrow>
       (case c of
         Input b \<Rightarrow> t\<lparr>tm_queue := rest, tm_cmd := Writing b\<rparr>
       | Resize_to cols rows \<Rightarrow>
           t\<lparr>tm_queue := rest, tm_size := (cols, rows), tm_sb := sb_resize (tm_sb t) cols rows\<rparr>
       | Kill \<Rightarrow> t\<lparr>tm_queue := rest, tm_cmd := Broken\<rparr>))"

definition cmd_written :: "bool \<Rightarrow> 's terminal \<Rightarrow> 's terminal" where
  "cmd_written ok t = t\<lparr>tm_cmd := (if ok then Taking else Broken)\<rparr>"

definition cmd_kill :: "'s terminal \<Rightarrow> 's terminal" where
  "cmd_kill t = (signal_child Kill9 t)\<lparr>tm_cmd := Killed\<rparr>"

definition cmd_retire :: "'s terminal \<Rightarrow> 's terminal" where
  "cmd_retire t = t\<lparr>tm_killer := False, tm_cmd := Retired\<rparr>"

definition cmd_reap :: "'s terminal \<Rightarrow> 's terminal" where
  "cmd_reap t = t\<lparr>tm_cmd := Reaped\<rparr>"

text \<open>\<open>recv\<close> fails once the queue is empty and every sender is gone; who still holds a sender is not tracked, so
  that step is allowed at any time.\<close>

definition cmd_disconnected :: "'s terminal \<Rightarrow> 's terminal" where
  "cmd_disconnected t = t\<lparr>tm_cmd := Broken\<rparr>"

text \<open>The steps of the two threads, and those of everybody else who holds the terminal.\<close>

inductive thread_step :: "'s emulator \<Rightarrow> 's terminal \<Rightarrow> 's terminal \<Rightarrow> bool" for em :: "'s emulator" where
  t_chunk: "tm_read t = Reading \<Longrightarrow> thread_step em t (read_chunk em chunk t)"
| t_mark: "tm_read t = Reading \<Longrightarrow> thread_step em t (read_mark t)"
| t_notify: "tm_read t = Marked \<Longrightarrow> thread_step em t (read_notify t)"
| t_nudge: "tm_read t = Notified \<Longrightarrow> thread_step em t (read_nudge t)"
| t_take: "tm_cmd t = Taking \<Longrightarrow> tm_queue t \<noteq> [] \<Longrightarrow> thread_step em t (cmd_take t)"
| t_written: "tm_cmd t = Writing b \<Longrightarrow> thread_step em t (cmd_written ok t)"
| t_kill: "tm_cmd t = Broken \<Longrightarrow> thread_step em t (cmd_kill t)"
| t_retire: "tm_cmd t = Killed \<Longrightarrow> thread_step em t (cmd_retire t)"
| t_reap: "tm_cmd t = Retired \<Longrightarrow> thread_step em t (cmd_reap t)"

inductive term_step :: "'s emulator \<Rightarrow> 's terminal \<Rightarrow> 's terminal \<Rightarrow> bool" for em :: "'s emulator" where
  s_thread: "thread_step em t t' \<Longrightarrow> term_step em t t'"
| s_send: "term_step em t (snd (try_send c t))"
| s_stop: "term_step em t (term_stop t)"
| s_subscribe: "term_step em t (snd (watch_subscribe t))"
| s_drop: "term_step em t (watch_drop t)"
| s_disconnected: "tm_cmd t = Taking \<Longrightarrow> tm_queue t = [] \<Longrightarrow> term_step em t (cmd_disconnected t)"
| s_snapshot: "term_step em t (t\<lparr>tm_sb := snd (screen_snapshot em k (tm_sb t))\<rparr>)"

inductive_cases thread_stepE: "thread_step em t t'"
inductive_cases term_stepE: "term_step em t t'"

lemmas term_ops = try_send_def signal_child_def term_stop_def read_chunk_def read_mark_def read_notify_def
  read_nudge_def watch_send_def watch_subscribe_def watch_drop_def cmd_take_def cmd_written_def cmd_kill_def cmd_retire_def cmd_reap_def
  cmd_disconnected_def Let_def

subsection \<open>The invariant of a terminal\<close>

definition term_new :: "'s emulator \<Rightarrow> nat \<Rightarrow> nat \<Rightarrow> nat \<Rightarrow> u64 \<Rightarrow> 's terminal" where
  "term_new em cp cols rows epoch =
     \<lparr>tm_queue = [], tm_log = [], tm_sb = scrollback_new em cp cols rows, tm_alive = True,
      tm_size = (cols, rows), tm_shutdown = False, tm_version = 0, tm_watchers = 0, tm_killer = True,
      tm_epoch = epoch,
      tm_cmd = Taking, tm_read = Reading, tm_signals = []\<rparr>"

definition term_ok :: "'s terminal \<Rightarrow> bool" where
  "term_ok t \<longleftrightarrow>
     length (tm_queue t) \<le> queue_cap \<and>
     tm_alive t = (tm_read t = Reading) \<and>
     tm_shutdown t = (tm_version t \<noteq> 0) \<and>
     tm_killer t = (tm_cmd t \<notin> {Retired, Reaped}) \<and>
     list_all (\<lambda>(g, ph). ph \<noteq> Reaped) (tm_signals t) \<and>
     tm_size t = size (tm_sb t) \<and>
     (if length (concat (tm_log t)) < 2 ^ 64 then ring_abs (concat (tm_log t)) (tm_sb t) else True)"

lemma term_ok_new: "term_ok (term_new em cp cols rows epoch)"
  using ring_abs_new [of em cp cols rows]
  by (simp add: term_ok_def term_new_def scrollback_new_def)

lemma push_size [simp]: "size (push em s d) = size s"
  by (simp add: push_def split: prod.splits)

lemma screen_snapshot_size [simp]: "size (snd (screen_snapshot em k s)) = size s"
  by (simp add: screen_snapshot_def Let_def)

lemma sb_resize_size [simp]: "size (sb_resize s c r) = (c, r)"
  by (simp add: sb_resize_def)

lemma term_ok_send: "term_ok t \<Longrightarrow> term_ok (snd (try_send c t))"
  by (simp add: term_ok_def try_send_def)

lemma term_ok_stop: "term_ok t \<Longrightarrow> term_ok (term_stop t)"
  by (auto simp: term_ok_def term_ops)

lemma term_ok_watch [simp]:
  "term_ok (snd (watch_subscribe t)) = term_ok t" "term_ok (watch_drop t) = term_ok t"
  by (simp_all add: term_ok_def watch_subscribe_def watch_drop_def)

lemma term_ok_thread: "thread_step em t t' \<Longrightarrow> term_ok t \<Longrightarrow> term_ok t'"
proof (induction rule: thread_step.induct)
  case (t_chunk t chunk)
  then show ?case by (auto simp: term_ok_def read_chunk_def intro: ring_abs_push)
next
  case (t_take t)
  then show ?case
    by (auto simp: term_ok_def cmd_take_def ring_abs_resize split: list.splits pty_cmd.splits)
qed (auto simp: term_ok_def term_ops)

lemma term_ok_step: "term_step em t t' \<Longrightarrow> term_ok t \<Longrightarrow> term_ok t'"
proof (induction rule: term_step.induct)
  case (s_snapshot t k)
  then show ?case by (simp add: term_ok_def ring_abs_snapshot)
next
  case (s_disconnected t)
  then show ?case by (auto simp: term_ok_def cmd_disconnected_def)
qed (auto intro: term_ok_thread term_ok_send term_ok_stop)

lemma term_ok_reach: "(term_step em)\<^sup>*\<^sup>* t t' \<Longrightarrow> term_ok t \<Longrightarrow> term_ok t'"
  by (induction rule: rtranclp_induct) (auto intro: term_ok_step)

text \<open>Whatever the threads, the attachments and resets do, in whatever order: a signal is only ever sent to a child
  that has not been reaped (so never to a recycled pid), the input queue stays within its bound, a
  terminal is alive exactly while its reader reads, the reported grid is that of the screen model, and
  (below 2^64 bytes) the ring holds the tail of everything the shell has written.\<close>

theorem term_reachable_ok:
  assumes "(term_step em)\<^sup>*\<^sup>* (term_new em cp cols rows epoch) t"
  shows "list_all (\<lambda>(g, ph). ph \<noteq> Reaped) (tm_signals t) \<and> length (tm_queue t) \<le> 128 \<and>
    tm_alive t = (tm_read t = Reading) \<and> tm_shutdown t = (tm_version t \<noteq> 0) \<and>
    tm_size t = size (tm_sb t) \<and>
    (if length (concat (tm_log t)) < 2 ^ 64 then ring_abs (concat (tm_log t)) (tm_sb t) else True)"
  using term_ok_reach [OF assms term_ok_new] by (simp add: term_ok_def queue_cap_def)

subsection \<open>Notification\<close>

lemma try_send_fields [simp]:
  "tm_sb (snd (try_send c t)) = tm_sb t" "tm_log (snd (try_send c t)) = tm_log t"
  "tm_epoch (snd (try_send c t)) = tm_epoch t" "tm_alive (snd (try_send c t)) = tm_alive t"
  "tm_shutdown (snd (try_send c t)) = tm_shutdown t" "tm_version (snd (try_send c t)) = tm_version t" "tm_size (snd (try_send c t)) = tm_size t"
  by (simp_all add: try_send_def)

lemma notify_fields:
  "tm_watchers t \<noteq> 0 \<Longrightarrow> tm_version (read_notify t) = Suc (tm_version t) \<and> tm_shutdown (read_notify t)"
  "tm_watchers t \<noteq> 0 \<Longrightarrow> tm_version (term_stop t) = Suc (tm_version t) \<and> tm_shutdown (term_stop t)"
  by (simp_all add: read_notify_def term_stop_def watch_send_def signal_child_def Let_def)

lemma told_mono:
  "term_step em t t' \<Longrightarrow> seen \<le> tm_version t \<Longrightarrow> seen \<le> tm_version t' \<and> (told seen t \<longrightarrow> told seen t')"
  by (induction rule: term_step.induct; (erule thread_step.cases)?)
    (auto simp: told_def term_ops split: list.splits pty_cmd.splits)

lemma told_later:
  assumes "(term_step em)\<^sup>*\<^sup>* t t'" "seen \<le> tm_version t" "told seen t"
  shows "told seen t'"
proof -
  from assms(1) have "seen \<le> tm_version t' \<and> told seen t'"
    by (induction rule: rtranclp_induct) (use assms(2,3) told_mono in blast)+
  then show ?thesis by simp
qed

text \<open>Whoever holds a receiver when the reader reports the end of the shell, or when the terminal is stopped, is told, and
  stays told whatever happens after.\<close>

theorem watchers_told:
  assumes "seen \<le> tm_version t" "tm_watchers t \<noteq> 0" "t' = read_notify t \<or> t' = term_stop t"
    and "(term_step em)\<^sup>*\<^sup>* t' t''"
  shows "told seen t''"
proof -
  have "told seen t' \<and> seen \<le> tm_version t'"
    using assms(1,3) notify_fields [OF assms(2)] by (auto simp: told_def)
  then show ?thesis using told_later [OF assms(4)] by blast
qed

theorem watchers_told_witness:
  "told 0 (term_stop (snd (watch_subscribe (term_new unit_emulator 4 80 24 7 :: unit terminal))))"
  by (rule watchers_told [OF _ _ disjI2 [OF refl] rtranclp.rtrancl_refl [of "term_step unit_emulator"]])
    (simp_all add: watch_subscribe_def term_new_def)

lemma thread_step_gone:
  "thread_step em t t' \<Longrightarrow> tm_read t = Gone \<Longrightarrow> tm_read t' = Gone \<and> tm_version t' = tm_version t"
  by (induction rule: thread_step.induct) (auto simp: term_ops split: list.splits pty_cmd.splits)

text \<open>But a receiver taken after the report is not: if the shell exits between the check that the terminal is alive and the
  subscription of an attachment, nothing the threads still do tells that attachment.\<close>

theorem late_subscriber_never_told:
  "(seen, t') = watch_subscribe (read_nudge (read_notify (read_mark t))) \<Longrightarrow>
   (thread_step em)\<^sup>*\<^sup>* t' t'' \<Longrightarrow> \<not> tm_alive t' \<and> \<not> told seen t''"
proof -
  assume sub: "(seen, t') = watch_subscribe (read_nudge (read_notify (read_mark t)))"
  then have t': "tm_read t' = Gone" "tm_version t' = seen" "\<not> tm_alive t'"
    by (auto simp: term_ops)
  assume "(thread_step em)\<^sup>*\<^sup>* t' t''"
  then have "tm_read t'' = Gone \<and> tm_version t'' = seen"
    by (induction rule: rtranclp_induct) (use t' thread_step_gone in auto)
  with t' show ?thesis by (simp add: told_def)
qed

theorem late_subscriber_never_told_witness:
  "tm_alive (term_new unit_emulator 4 80 24 7 :: unit terminal) \<and>
   \<not> tm_alive (snd (watch_subscribe (read_nudge (read_notify (read_mark (term_new unit_emulator 4 80 24 7 :: unit terminal)))))) \<and>
   \<not> told 0 (snd (watch_subscribe (read_nudge (read_notify (read_mark (term_new unit_emulator 4 80 24 7 :: unit terminal))))))"
  using late_subscriber_never_told [of 0 _ "term_new unit_emulator 4 80 24 7 :: unit terminal", OF _ rtranclp.rtrancl_refl]
  by (auto simp: term_ops term_new_def)

subsection \<open>Reaping\<close>

text \<open>The command thread alone: one step if it has one, with \<open>ok\<close> the outcome of the write if it is writing.\<close>

definition cmd_step :: "bool \<Rightarrow> 's terminal \<Rightarrow> 's terminal" where
  "cmd_step ok t =
    (case tm_cmd t of
      Taking \<Rightarrow> cmd_take t
    | Writing b \<Rightarrow> cmd_written ok t
    | Broken \<Rightarrow> cmd_kill t
    | Killed \<Rightarrow> cmd_retire t
    | Retired \<Rightarrow> cmd_reap t
    | Reaped \<Rightarrow> t)"

definition cmd_run :: "bool list \<Rightarrow> 's terminal \<Rightarrow> 's terminal" where
  "cmd_run oks t = foldl (\<lambda>t ok. cmd_step ok t) t oks"

lemma cmd_run_simps [simp]: "cmd_run [] t = t" "cmd_run (ok # oks) t = cmd_run oks (cmd_step ok t)"
  by (simp_all add: cmd_run_def)

lemma cmd_step_thread: "cmd_step ok t \<noteq> t \<Longrightarrow> thread_step em t (cmd_step ok t)"
proof (cases "tm_cmd t = Taking")
  case True
  moreover assume "cmd_step ok t \<noteq> t"
  ultimately have "tm_queue t \<noteq> []" by (auto simp: cmd_step_def cmd_take_def)
  with True show ?thesis using t_take [of t em] by (simp add: cmd_step_def)
next
  case False
  moreover assume "cmd_step ok t \<noteq> t"
  ultimately show ?thesis by (cases "tm_cmd t") (auto simp: cmd_step_def intro: thread_step.intros)
qed

text \<open>How far the command thread is from the end, once a \<open>Kill\<close> is queued or it has broken out.\<close>

definition cmd_left :: "'s terminal \<Rightarrow> nat" where
  "cmd_left t =
    (case tm_cmd t of
      Taking \<Rightarrow> 2 * length (tm_queue t) + 3
    | Writing b \<Rightarrow> 2 * length (tm_queue t) + 4
    | Broken \<Rightarrow> 3 | Killed \<Rightarrow> 2 | Retired \<Rightarrow> 1 | Reaped \<Rightarrow> 0)"

definition cmd_bound_to_end :: "'s terminal \<Rightarrow> bool" where
  "cmd_bound_to_end t \<longleftrightarrow> (case tm_cmd t of Taking \<Rightarrow> Kill \<in> set (tm_queue t) | Writing b \<Rightarrow> Kill \<in> set (tm_queue t) | _ \<Rightarrow> True)"

lemma cmd_step_progress:
  "cmd_bound_to_end t \<Longrightarrow> cmd_bound_to_end (cmd_step ok t) \<and> cmd_left (cmd_step ok t) \<le> cmd_left t - 1"
  by (cases "tm_cmd t"; cases "tm_queue t")
    (auto simp: cmd_bound_to_end_def cmd_left_def cmd_step_def cmd_take_def cmd_written_def cmd_kill_def
      cmd_retire_def cmd_reap_def signal_child_def split: pty_cmd.splits)

lemma cmd_run_progress:
  "cmd_bound_to_end t \<Longrightarrow> cmd_left (cmd_run oks t) \<le> cmd_left t - length oks"
proof (induction oks arbitrary: t)
  case Nil
  then show ?case by simp
next
  case (Cons ok oks)
  then have "cmd_left (cmd_run oks (cmd_step ok t)) \<le> cmd_left (cmd_step ok t) - length oks"
    using cmd_step_progress [of t ok] by blast
  moreover have "cmd_left (cmd_step ok t) - length oks \<le> cmd_left t - length (ok # oks)"
    using cmd_step_progress [OF Cons.prems, of ok] diff_le_mono [of _ "cmd_left t - 1" "length oks"] by simp
  ultimately show ?case by simp
qed

lemma cmd_left_0: "cmd_left t = 0 \<Longrightarrow> tm_cmd t = Reaped"
  by (auto simp: cmd_left_def split: cmd_phase.splits)

lemma cmd_left_le: "length (tm_queue t) \<le> n \<Longrightarrow> cmd_left t \<le> 2 * n + 4"
  by (auto simp: cmd_left_def split: cmd_phase.splits)

text \<open>C35: A reset or a dying shell whose nudge is accepted is reaped: once \<open>Kill\<close> is queued, the command thread needs at
  most 260 of its own steps, whatever the outcomes of the writes it still makes.\<close>

theorem kill_reaps:
  assumes "term_ok t" "fst (try_send Kill t)" "260 \<le> length oks"
  shows "tm_cmd (cmd_run oks (snd (try_send Kill t))) = Reaped"
proof -
  let ?t = "snd (try_send Kill t)"
  have ok: "term_ok ?t" using assms(1) by (rule term_ok_send)
  have "cmd_bound_to_end ?t"
    using assms(2) by (auto simp: cmd_bound_to_end_def try_send_def split: cmd_phase.splits if_splits)
  from cmd_run_progress [OF this, of oks] have "cmd_left (cmd_run oks ?t) \<le> cmd_left ?t - length oks" .
  moreover have "cmd_left ?t \<le> 2 * queue_cap + 4"
    using ok by (intro cmd_left_le) (simp add: term_ok_def)
  ultimately show ?thesis using assms(3) by (intro cmd_left_0) (simp add: queue_cap_def)
qed

theorem kill_reaps_witness:
  "tm_cmd (cmd_run (replicate 260 True)
     (snd (try_send Kill (term_new unit_emulator 4 80 24 7 :: unit terminal)))) = Reaped"
  by (rule kill_reaps [OF term_ok_new]) (simp_all add: term_new_def try_send_def queue_cap_def)

text \<open>A queue full of resizes, and what the reader does when the shell exits.\<close>

definition resized_terminal :: "'s emulator \<Rightarrow> 's terminal" where
  "resized_terminal em = (term_new em 4096 80 24 7)\<lparr>tm_queue := replicate queue_cap (Resize_to 100 40)\<rparr>"

definition exited :: "'s terminal \<Rightarrow> 's terminal" where
  "exited t = read_nudge (read_notify (read_mark t))"

definition only_resizes :: "'s terminal \<Rightarrow> bool" where
  "only_resizes t \<longleftrightarrow> tm_cmd t = Taking \<and> list_all (\<lambda>c. case c of Resize_to _ _ \<Rightarrow> True | _ \<Rightarrow> False) (tm_queue t)"

lemma only_resizes_step: "only_resizes t \<Longrightarrow> only_resizes (cmd_step ok t)"
  by (cases "tm_queue t") (auto simp: only_resizes_def cmd_step_def cmd_take_def split: pty_cmd.splits)

lemma only_resizes_run: "only_resizes t \<Longrightarrow> only_resizes (cmd_run oks t)"
  by (induction oks arbitrary: t) (auto intro: only_resizes_step)

text \<open>A queue full of resizes when the shell exits: the nudge of the reader is refused, the command thread works
  the queue off and then waits, the child not reaped although the terminal is dead.\<close>

theorem exit_behind_resizes_unreaped:
  "term_ok (resized_terminal em) \<and> \<not> tm_alive (exited (resized_terminal em)) \<and>
   tm_cmd (cmd_run oks (exited (resized_terminal em))) = Taking"
proof -
  have "only_resizes (exited (resized_terminal em))"
    by (auto simp: only_resizes_def exited_def resized_terminal_def term_new_def term_ops list_all_iff)
  from only_resizes_run [OF this] show ?thesis
    using term_ok_new [of em 4096 80 24 7]
    by (auto simp: only_resizes_def term_ok_def resized_terminal_def exited_def term_new_def term_ops)
qed

subsection \<open>Receivers and the redraw\<close>

datatype recv = Chunk "u8 list" | Lagged | Empty

text \<open>\<open>try_recv\<close> of a receiver at position \<open>pos\<close>; a lagged receiver goes on at the oldest chunk kept.\<close>

definition try_recv :: "u8 list list \<Rightarrow> nat \<Rightarrow> recv \<times> nat" where
  "try_recv log pos =
    (if length log \<le> pos then (Empty, pos)
     else if length log - pos > channel_cap then (Lagged, length log - channel_cap)
     else (Chunk (log ! pos), Suc pos))"

record redraw =
  rd_pending :: "u8 list list"
  rd_lagged :: bool
  rd_cols :: nat
  rd_rows :: nat
  rd_screen :: "u8 list"

function drain :: "u8 list list \<Rightarrow> nat \<Rightarrow> u8 list list \<times> bool \<times> nat" where
  "drain log pos =
    (case try_recv log pos of
      (Chunk bytes, pos') \<Rightarrow> (let (rest, lagged, pos'') = drain log pos' in (bytes # rest, lagged, pos''))
    | (Lagged, pos') \<Rightarrow> ([], True, pos')
    | (Empty, pos') \<Rightarrow> ([], False, pos'))"
  by pat_completeness auto

termination drain
  by (relation "measure (\<lambda>(log, pos). length log - pos)") (auto simp: try_recv_def split: if_splits)

declare drain.simps [simp del]

text \<open>\<open>ScreenHandle::redraw\<close>: under the lock of the ring, drain the receiver and take the snapshot.\<close>

definition redraw_at :: "'s emulator \<Rightarrow> nat \<Rightarrow> nat \<Rightarrow> 's terminal \<Rightarrow> redraw \<times> nat \<times> 's terminal" where
  "redraw_at em k pos t =
    (let (pending, lagged, pos') = drain (tm_log t) pos;
         (cols, rows) = size (tm_sb t);
         (screen, sb) = screen_snapshot em k (tm_sb t)
     in (\<lparr>rd_pending = pending, rd_lagged = lagged, rd_cols = cols, rd_rows = rows, rd_screen = screen\<rparr>,
         pos', t\<lparr>tm_sb := sb\<rparr>))"

lemma drain_within:
  "length log - pos \<le> channel_cap \<Longrightarrow> drain log pos = (drop pos log, False, max pos (length log))"
proof (induction "length log - pos" arbitrary: pos)
  case 0
  then show ?case by (subst drain.simps) (simp add: try_recv_def)
next
  case (Suc n)
  then have "drain log (Suc pos) = (drop (Suc pos) log, False, max (Suc pos) (length log))"
    by (intro Suc.hyps) auto
  then show ?case using Suc.hyps(2) Suc.prems
    by (subst drain.simps) (auto simp: try_recv_def Cons_nth_drop_Suc)
qed

lemma drain_lagged: "length log - pos > channel_cap \<Longrightarrow> drain log pos = ([], True, length log - channel_cap)"
  by (subst drain.simps) (auto simp: try_recv_def)

text \<open>The redraw is in step with the stream: if the receiver has not lagged, the chunks to send first are exactly those
  broadcast since its position, so that with what it received before they are the whole output the
  snapshot reflects; if it has lagged, the redraw says so. Either way the receiver is at a position
  nothing already drawn is sent from again.\<close>

theorem redraw_in_step:
  "let (r, pos', t') = redraw_at em k pos t in
     rd_lagged r = (channel_cap < length (tm_log t) - pos) \<and>
     (if rd_lagged r then rd_pending r = []
      else take pos (tm_log t) @ rd_pending r = tm_log t \<and> pos' = max pos (length (tm_log t))) \<and>
     pos \<le> pos' \<and> tm_log t' = tm_log t \<and> (rd_cols r, rd_rows r) = size (tm_sb t) \<and>
     rd_screen r = fst (screen_snapshot em k (tm_sb t))"
proof (cases "channel_cap < length (tm_log t) - pos")
  case True
  then show ?thesis by (auto simp: redraw_at_def drain_lagged split: prod.splits)
next
  case False
  then show ?thesis by (auto simp: redraw_at_def drain_within split: prod.splits)
qed

subsection \<open>Epochs fit the wire\<close>

text \<open>Drawing an epoch ends with the first draw whose low 53 bits are not all zero, and the epoch is then non-zero and
  exactly representable as a JavaScript number.\<close>

theorem next_epoch_spec:
  "(next_epoch draws = None) = list_all (\<lambda>r. unat r mod 2 ^ 53 = 0) draws \<and>
   (case next_epoch draws of None \<Rightarrow> True
    | Some e \<Rightarrow> 0 < unat e \<and> unat e < 2 ^ 53 \<and> unat e \<in> (\<lambda>r. unat r mod 2 ^ 53) ` set draws)"
proof (induction draws)
  case Nil
  then show ?case by simp
next
  case (Cons r draws)
  have mask: "and r (2 ^ 53 - 1) = take_bit 53 r"
    by (simp add: take_bit_eq_mask mask_eq_exp_minus_1)
  have "unat (take_bit 53 r) = take_bit 53 (unat r)"
    by (rule unsigned_take_bit_eq)
  then have low: "unat (take_bit 53 r) = unat r mod 2 ^ 53"
    unfolding take_bit_eq_mod [of 53 "unat r"] .
  moreover have "take_bit 53 r = 0 \<longleftrightarrow> unat r mod 2 ^ 53 = 0"
    unfolding low [symmetric] by (simp only: word_unat_eq_iff unsigned_0)
  ultimately show ?case using Cons mask
    by (auto simp: Let_def split: option.splits)
qed

subsection \<open>What waits to be written to the shell\<close>

definition inputs :: "pty_cmd list \<Rightarrow> u8 list list" where
  "inputs q = concat (map (\<lambda>c. case c of Input b \<Rightarrow> [b] | _ \<Rightarrow> []) q)"

definition in_hand :: "'s terminal \<Rightarrow> u8 list list" where
  "in_hand t = (case tm_cmd t of Writing b \<Rightarrow> [b] | _ \<Rightarrow> [])"

text \<open>A change that neither takes from what waits to be written nor adds to it.\<close>

definition quiet :: "'s terminal \<Rightarrow> 's terminal \<Rightarrow> bool" where
  "quiet t t' \<longleftrightarrow> tm_cmd t' = tm_cmd t \<and> inputs (tm_queue t') = inputs (tm_queue t)"

lemma inputs_simps [simp]:
  "inputs [] = []" "inputs (q @ q') = inputs q @ inputs q'" "inputs (Input b # q) = b # inputs q"
  "inputs (Resize_to c r # q) = inputs q" "inputs (Kill # q) = inputs q"
  by (simp_all add: inputs_def)

lemma quiet_refl [simp]: "quiet t t"
  by (simp add: quiet_def)

lemma quiet_trans: "quiet t t' \<Longrightarrow> quiet t' t'' \<Longrightarrow> quiet t t''"
  by (simp add: quiet_def)

lemma quiet_ops [simp]:
  "quiet t (snd (try_send (Resize_to c r) t))" "quiet t (snd (try_send Kill t))" "quiet t (term_stop t)"
  "quiet t (watch_drop t)" "quiet t (snd (watch_subscribe t))" "quiet t (t\<lparr>tm_sb := sb\<rparr>)"
  by (simp_all add: quiet_def try_send_def term_stop_def watch_send_def watch_drop_def watch_subscribe_def signal_child_def Let_def)

end
