(* ===== verification/Slots.thy ===== *)
theory Slots
  imports Terminals
begin

text \<open>
  The slots of every user (\<open>Terminals\<close> in \<open>src/src/terminals.rs\<close>): the spawn command and its environment,
  spawning, attaching, viewing, listing, resetting.

  \<open>CommandBuilder\<close> belongs to the \<open>portable_pty\<close> crate: its initial environment is a parameter, and what
  the code does to it (setting, removing, arguments, working directory) is modelled. The outcomes of
  the operating system's calls are parameters.
\<close>

subsection \<open>The spawn command\<close>

text \<open>Environment keys and values are bytes; \<open>to_str\<close> succeeds on valid UTF-8 only.\<close>

definition cont_byte :: "u8 \<Rightarrow> bool" where
  "cont_byte b \<longleftrightarrow> 0x80 \<le> b \<and> b \<le> 0xBF"

fun utf8_valid :: "u8 list \<Rightarrow> bool" where
  "utf8_valid [] = True"
| "utf8_valid (a # bs) =
    (if a < 0x80 then utf8_valid bs
     else case bs of
       b # bs2 \<Rightarrow>
        if 0xC2 \<le> a \<and> a \<le> 0xDF then cont_byte b \<and> utf8_valid bs2
        else (case bs2 of
          c # bs3 \<Rightarrow>
            if 0xE0 \<le> a \<and> a \<le> 0xEF
            then cont_byte b \<and> cont_byte c \<and> (a \<noteq> 0xE0 \<or> 0xA0 \<le> b) \<and> (a \<noteq> 0xED \<or> b \<le> 0x9F) \<and> utf8_valid bs3
            else (case bs3 of
              d # bs4 \<Rightarrow> 0xF0 \<le> a \<and> a \<le> 0xF4 \<and> cont_byte b \<and> cont_byte c \<and> cont_byte d \<and>
                (a \<noteq> 0xF0 \<or> 0x90 \<le> b) \<and> (a \<noteq> 0xF4 \<or> b \<le> 0x8F) \<and> utf8_valid bs4
            | [] \<Rightarrow> False)
        | [] \<Rightarrow> False)
     | [] \<Rightarrow> False)"

definition is_server_secret_env :: "u8 list \<Rightarrow> bool" where
  "is_server_secret_env key \<longleftrightarrow> utf8_valid key \<and> starts_with (utf8 ''WEBSHELL_'') key"

record command =
  cb_argv :: "string list"
  cb_env :: "u8 list \<rightharpoonup> u8 list"
  cb_cwd :: string

definition set_env :: "string \<Rightarrow> string \<Rightarrow> (u8 list \<rightharpoonup> u8 list) \<Rightarrow> (u8 list \<rightharpoonup> u8 list)" where
  "set_env k v e = e(utf8 k \<mapsto> utf8 v)"

text \<open>\<open>base_env\<close> is the environment a fresh builder starts from, \<open>keys\<close> the names of the server's variables.\<close>

definition build_command ::
  "string list \<Rightarrow> string \<Rightarrow> string \<Rightarrow> string \<Rightarrow> (string \<times> string) list
    \<Rightarrow> (u8 list \<rightharpoonup> u8 list) \<Rightarrow> u8 list list \<Rightarrow> command option" where
  "build_command login_cmd user owner home envs base_env keys =
    (let resolved = map (\<lambda>part. str_replace ''{user}'' user part) login_cmd
     in case resolved of
       [] \<Rightarrow> None
     | program # args \<Rightarrow>
        (let e0 = foldl (\<lambda>e k. if is_server_secret_env k then e(k := None) else e) base_env keys;
             e1 = set_env ''TERM'' ''xterm-256color'' e0;
             e2 = set_env ''LOGNAME'' owner (set_env ''USER'' owner (set_env ''HOME'' home e1));
             e3 = foldl (\<lambda>e (k, v). set_env k v e) e2 envs
         in Some \<lparr>cb_argv = program # args, cb_env = e3, cb_cwd = home\<rparr>))"

subsection \<open>Spawning\<close>

datatype spawn_error =
    Openpty string
  | Empty_command
  | Spawn_failed string string string
  | Handle_setup string

datatype child_event = Spawned command | Child_killed | Child_waited

text \<open>What the system calls of one spawn give (\<open>Some\<close> an error), and the value \<open>next_epoch\<close> returns.\<close>

record spawn_os =
  so_openpty :: "string option"
  so_spawn :: "string option"
  so_reader :: "string option"
  so_writer :: "string option"
  so_base :: "u8 list \<rightharpoonup> u8 list"
  so_keys :: "u8 list list"
  so_epoch :: u64

definition spawn_terminal ::
  "'s emulator \<Rightarrow> spawn_os \<Rightarrow> string list \<Rightarrow> string \<Rightarrow> string \<Rightarrow> string \<Rightarrow> (string \<times> string) list \<Rightarrow> nat \<Rightarrow> nat \<Rightarrow> nat
    \<Rightarrow> (spawn_error + 's terminal) \<times> child_event list" where
  "spawn_terminal em os login_cmd user owner home envs cols rows scrollback_cap =
    (case so_openpty os of Some e \<Rightarrow> (Inl (Openpty e), [])
     | None \<Rightarrow>
    (case build_command login_cmd user owner home envs (so_base os) (so_keys os) of
       None \<Rightarrow> (Inl Empty_command, [])
     | Some cmd \<Rightarrow>
    (case so_spawn os of Some e \<Rightarrow> (Inl (Spawn_failed (hd (cb_argv cmd)) home e), [])
     | None \<Rightarrow>
    (case (so_reader os, so_writer os) of
       (None, None) \<Rightarrow> (Inr (term_new em scrollback_cap cols rows (so_epoch os)), [Spawned cmd])
     | (reader, writer) \<Rightarrow>
         (Inl (Handle_setup (case reader of Some e \<Rightarrow> e | None \<Rightarrow>
             (case writer of Some e \<Rightarrow> e | None \<Rightarrow> ''pty handle setup failed''))),
          [Spawned cmd, Child_killed, Child_waited])))))"

subsection \<open>The pools\<close>

record 's terminals =
  ts_pools :: "(string, nat option list) hmap"
  ts_heap :: "'s terminal list"
  ts_slots :: nat
  ts_login_cmd :: "string list"
  ts_envs :: "(string \<times> string) list"
  ts_owner :: string
  ts_home :: string
  ts_cap :: nat

definition terminals_new ::
  "nat \<Rightarrow> string list \<Rightarrow> (string \<times> string) list \<Rightarrow> string \<Rightarrow> string \<Rightarrow> nat \<Rightarrow> 's terminals" where
  "terminals_new slots login_cmd envs owner home cp =
     \<lparr>ts_pools = [], ts_heap = [], ts_slots = slots, ts_login_cmd = login_cmd, ts_envs = envs,
      ts_owner = owner, ts_home = home, ts_cap = cp\<rparr>"

definition user_pool_new :: "nat \<Rightarrow> nat option list" where
  "user_pool_new n = replicate n None"

definition pool_of :: "string \<Rightarrow> 's terminals \<Rightarrow> nat option list \<times> 's terminals" where
  "pool_of user ts =
    (case hm_get (ts_pools ts) user of
      Some p \<Rightarrow> (p, ts)
    | None \<Rightarrow> (user_pool_new (ts_slots ts),
               ts\<lparr>ts_pools := hm_insert user (user_pool_new (ts_slots ts)) (ts_pools ts)\<rparr>))"

definition set_slot :: "string \<Rightarrow> nat \<Rightarrow> nat option \<Rightarrow> 's terminals \<Rightarrow> 's terminals" where
  "set_slot user index v ts =
    (let (p, ts') = pool_of user ts in ts'\<lparr>ts_pools := hm_insert user (p[index := v]) (ts_pools ts')\<rparr>)"

definition on_term :: "nat \<Rightarrow> ('s terminal \<Rightarrow> 's terminal) \<Rightarrow> 's terminals \<Rightarrow> 's terminals" where
  "on_term a f ts = ts\<lparr>ts_heap := (ts_heap ts)[a := f (ts_heap ts ! a)]\<rparr>"

definition terminal_list :: "string \<Rightarrow> 's terminals \<Rightarrow> (nat \<times> bool) list \<times> 's terminals" where
  "terminal_list user ts =
    (let (p, ts') = pool_of user ts
     in (map (\<lambda>(index, slot). (index, case slot of None \<Rightarrow> False | Some a \<Rightarrow> tm_alive (ts_heap ts' ! a)))
           (enumerate 0 p), ts'))"

record attachment =
  at_term :: nat
  at_pos :: nat
  at_replay :: "u8 list"
  at_mode :: attach_mode
  at_epoch :: u64
  at_base :: u64
  at_init :: "u8 list"
  at_seen :: nat

datatype attach_error = Out_of_range | Spawn_error spawn_error | Not_running

text \<open>What an attachment gets from a terminal: the cut and the position of its receiver, taken under the lock
  of the ring, and what its shutdown receiver has seen; \<open>resume\<close> is the client's epoch and offset.\<close>

definition attach_cut :: "(u64 \<times> u64) option \<Rightarrow> nat \<Rightarrow> 's terminal \<Rightarrow> attachment" where
  "attach_cut resume a t =
    (let client_offset = (case resume of Some (e, off) \<Rightarrow> if e = tm_epoch t then Some off else None | None \<Rightarrow> None);
         (mode, base_offset, replay) = cut (tm_sb t) client_offset;
         init = (case mode of Replay \<Rightarrow> front_init (tm_sb t) | Resume \<Rightarrow> [])
     in \<lparr>at_term = a, at_pos = length (tm_log t), at_replay = replay, at_mode = mode,
         at_epoch = tm_epoch t, at_base = base_offset, at_init = init, at_seen = fst (watch_subscribe t)\<rparr>)"

definition join_resized :: "nat \<Rightarrow> nat \<Rightarrow> 's terminal \<Rightarrow> 's terminal" where
  "join_resized cols rows t = snd (watch_subscribe (snd (try_send (Resize_to cols rows) t)))"

definition join_view :: "'s terminal \<Rightarrow> 's terminal" where
  "join_view t = snd (watch_subscribe t)"

definition attach ::
  "'s emulator \<Rightarrow> spawn_os \<Rightarrow> string \<Rightarrow> nat \<Rightarrow> nat \<Rightarrow> nat \<Rightarrow> (u64 \<times> u64) option \<Rightarrow> 's terminals
    \<Rightarrow> (attach_error + attachment) \<times> child_event list \<times> 's terminals" where
  "attach em os user index cols rows resume ts =
    (if ts_slots ts \<le> index then (Inl Out_of_range, [], ts)
     else
       let (p, ts0) = pool_of user ts;
           need_spawn = (case p ! index of None \<Rightarrow> True | Some a \<Rightarrow> \<not> tm_alive (ts_heap ts0 ! a));
           ts1 = (if \<not> need_spawn then ts0
                  else case p ! index of
                    None \<Rightarrow> ts0
                  | Some a \<Rightarrow> on_term a term_stop (set_slot user index None ts0));
           (spawned, evs) = (if \<not> need_spawn then (None, [])
                  else let (r, evs) = spawn_terminal em os (ts_login_cmd ts) user (ts_owner ts) (ts_home ts)
                             (ts_envs ts) cols rows (ts_cap ts)
                       in (Some r, evs))
       in case spawned of
            Some (Inl e) \<Rightarrow> (Inl (Spawn_error e), evs, ts1)
          | _ \<Rightarrow>
            let ts2 = (case spawned of
                  Some (Inr t) \<Rightarrow> set_slot user index (Some (length (ts_heap ts1))) (ts1\<lparr>ts_heap := ts_heap ts1 @ [t]\<rparr>)
                | _ \<Rightarrow> ts1);
                a = the (fst (pool_of user ts2) ! index);
                ts3 = on_term a (join_resized cols rows) ts2
            in (Inr (attach_cut resume a (ts_heap ts3 ! a)), evs, ts3))"

definition live_slot :: "string \<Rightarrow> nat \<Rightarrow> 's terminals \<Rightarrow> nat option" where
  "live_slot user index ts =
    (case fst (pool_of user ts) ! index of
      Some a \<Rightarrow> if tm_alive (ts_heap ts ! a) then Some a else None
    | None \<Rightarrow> None)"

definition attach_view ::
  "string \<Rightarrow> nat \<Rightarrow> (u64 \<times> u64) option \<Rightarrow> 's terminals \<Rightarrow> (attach_error + attachment) \<times> 's terminals" where
  "attach_view user index resume ts =
    (if ts_slots ts \<le> index then (Inl Out_of_range, ts)
     else
       let ts0 = snd (pool_of user ts)
       in case live_slot user index ts of
            None \<Rightarrow> (Inl Not_running, ts0)
          | Some a \<Rightarrow> (Inr (attach_cut resume a (ts_heap ts0 ! a)), on_term a join_view ts0))"

definition current_size :: "string \<Rightarrow> nat \<Rightarrow> 's terminals \<Rightarrow> (nat \<times> nat) option \<times> 's terminals" where
  "current_size user index ts =
    (if ts_slots ts \<le> index then (None, ts)
     else (map_option (\<lambda>a. tm_size (ts_heap ts ! a)) (live_slot user index ts), snd (pool_of user ts)))"

definition terminal_reset :: "string \<Rightarrow> nat \<Rightarrow> 's terminals \<Rightarrow> 's terminals" where
  "terminal_reset user index ts =
    (if ts_slots ts \<le> index then ts
     else
       let (p, ts0) = pool_of user ts
       in case p ! index of
            None \<Rightarrow> ts0
          | Some a \<Rightarrow> on_term a term_stop (set_slot user index None ts0))"

subsection \<open>The environment of a shell\<close>

lemma strip_env_get:
  "foldl (\<lambda>e k. if is_server_secret_env k then e(k := None) else e) e0 keys k =
     (if k \<in> set keys \<and> is_server_secret_env k then None else e0 k)"
  by (induction keys arbitrary: e0) auto

lemma set_envs_get:
  "foldl (\<lambda>e (k, v). set_env k v e) e0 envs k \<noteq> e0 k \<Longrightarrow> k \<in> utf8 ` fst ` set envs"
proof (induction envs arbitrary: e0)
  case Nil
  then show ?case by simp
next
  case (Cons kv envs)
  obtain n v where kv: "kv = (n, v)" by (cases kv)
  show ?case
  proof (cases "k = utf8 n")
    case True
    then show ?thesis using kv by simp
  next
    case False
    then have "set_env n v e0 k = e0 k" by (simp add: set_env_def)
    then show ?thesis using Cons.IH [of "set_env n v e0"] Cons.prems kv by simp
  qed
qed

lemma not_secret_builtin:
  "k \<in> {''TERM'', ''HOME'', ''USER'', ''LOGNAME''} \<Longrightarrow> \<not> is_server_secret_env (utf8 k)"
  by (auto simp: is_server_secret_env_def starts_with_def utf8_def utf8_char_def code_def)

text \<open>A shell never inherits the server's own configuration: a variable in the \<open>WEBSHELL_\<close> namespace that the server's
  environment defines is in the shell's only if the configuration sets it; the identity variables
  name the account the shell runs as unless the configuration overrides them; and the program and its
  arguments are the template with the login identity substituted.\<close>

theorem shell_env_clean:
  "case build_command login_cmd user owner home envs base_env keys of
     None \<Rightarrow> login_cmd = []
   | Some cmd \<Rightarrow>
       {k. k \<in> set keys \<and> is_server_secret_env k \<and> cb_env cmd k \<noteq> None} \<subseteq> utf8 ` fst ` set envs \<and>
       (utf8 ''USER'' \<in> utf8 ` fst ` set envs \<or> cb_env cmd (utf8 ''USER'') = Some (utf8 owner)) \<and>
       (utf8 ''LOGNAME'' \<in> utf8 ` fst ` set envs \<or> cb_env cmd (utf8 ''LOGNAME'') = Some (utf8 owner)) \<and>
       (utf8 ''HOME'' \<in> utf8 ` fst ` set envs \<or> cb_env cmd (utf8 ''HOME'') = Some (utf8 home)) \<and>
       cb_argv cmd = map (str_replace ''{user}'' user) login_cmd \<and> cb_cwd cmd = home"
proof (cases "build_command login_cmd user owner home envs base_env keys")
  case None
  then show ?thesis by (simp add: build_command_def Let_def split: list.splits)
next
  case (Some cmd)
  define e0 where "e0 = foldl (\<lambda>e k. if is_server_secret_env k then e(k := None) else e) base_env keys"
  define e2 where "e2 = set_env ''LOGNAME'' owner (set_env ''USER'' owner (set_env ''HOME'' home
    (set_env ''TERM'' ''xterm-256color'' e0)))"
  have env: "cb_env cmd = foldl (\<lambda>e (k, v). set_env k v e) e2 envs"
    and argv: "cb_argv cmd = map (str_replace ''{user}'' user) login_cmd \<and> cb_cwd cmd = home"
    using Some by (auto simp: build_command_def Let_def e0_def e2_def split: list.splits)
  have e0: "e0 k = None" if "k \<in> set keys" "is_server_secret_env k" for k
    using that by (simp add: e0_def strip_env_get)
  have "e2 k = None" if "k \<in> set keys" "is_server_secret_env k" for k
    using e0 [OF that] that(2) not_secret_builtin by (auto simp: e2_def set_env_def)
  then have "{k. k \<in> set keys \<and> is_server_secret_env k \<and> cb_env cmd k \<noteq> None} \<subseteq> utf8 ` fst ` set envs"
    using set_envs_get [of e2 envs] unfolding env by auto
  moreover have kept: "k \<in> utf8 ` fst ` set envs \<or> cb_env cmd k = v" if "e2 k = v" for k v
    using set_envs_get [of e2 envs k] that unfolding env by blast
  have "e2 (utf8 ''USER'') = Some (utf8 owner)" "e2 (utf8 ''LOGNAME'') = Some (utf8 owner)"
      "e2 (utf8 ''HOME'') = Some (utf8 home)"
    by (simp_all add: e2_def set_env_def)
  note this [THEN kept]
  ultimately show ?thesis unfolding Some option.case using argv by (intro conjI) simp_all
qed

subsection \<open>Spawning leaves no orphan\<close>

text \<open>A child that was started is either owned by the new terminal, whose command thread reaps it, or killed and
  waited for before the error is returned; nothing is started when an earlier call fails.\<close>

theorem spawn_no_orphan:
  "case spawn_terminal em os login_cmd user owner home envs cols rows scrollback_cap of
     (Inr t, evs) \<Rightarrow> t = term_new em scrollback_cap cols rows (so_epoch os) \<and>
        list_all (\<lambda>e. case e of Spawned _ \<Rightarrow> True | _ \<Rightarrow> False) evs \<and> length evs = 1
   | (Inl (Handle_setup e), evs) \<Rightarrow> tl evs = [Child_killed, Child_waited]
   | (Inl e, evs) \<Rightarrow> evs = []"
  by (auto simp: spawn_terminal_def split: option.splits)

subsection \<open>Slots\<close>

definition slot_of :: "'s terminals \<Rightarrow> string \<Rightarrow> nat \<Rightarrow> nat option" where
  "slot_of ts user i =
    (case hm_get (ts_pools ts) user of None \<Rightarrow> None | Some p \<Rightarrow> if i < length p then p ! i else None)"

definition pools_ok :: "'s terminals \<Rightarrow> bool" where
  "pools_ok ts \<longleftrightarrow> hm_ok (ts_pools ts) \<and>
     (\<forall>u p. hm_get (ts_pools ts) u = Some p \<longrightarrow> length p = ts_slots ts) \<and>
     (\<forall>u i a. slot_of ts u i = Some a \<longrightarrow> a < length (ts_heap ts)) \<and>
     (\<forall>u i v j a. slot_of ts u i = Some a \<longrightarrow> slot_of ts v j = Some a \<longrightarrow> u = v \<and> i = j) \<and>
     (\<forall>t \<in> set (ts_heap ts). term_ok t)"

lemma pools_okD:
  "pools_ok ts \<Longrightarrow> slot_of ts u i = Some a \<Longrightarrow> a < length (ts_heap ts)"
  "pools_ok ts \<Longrightarrow> slot_of ts u i = Some a \<Longrightarrow> slot_of ts v j = Some a \<Longrightarrow> u = v \<and> i = j"
  "pools_ok ts \<Longrightarrow> a < length (ts_heap ts) \<Longrightarrow> term_ok (ts_heap ts ! a)"
  by (simp_all add: pools_ok_def)

lemma pool_of_fields [simp]:
  "ts_heap (snd (pool_of u ts)) = ts_heap ts" "ts_slots (snd (pool_of u ts)) = ts_slots ts"
  by (simp_all add: pool_of_def split: option.splits)

lemma slot_of_pool_of [simp]: "slot_of (snd (pool_of u ts)) v i = slot_of ts v i"
  by (auto simp: slot_of_def pool_of_def user_pool_new_def hm_laws split: option.splits)

lemma pool_of_ok: "pools_ok ts \<Longrightarrow> pools_ok (snd (pool_of u ts))"
  unfolding pools_ok_def slot_of_pool_of pool_of_fields
  by (auto simp: pool_of_def user_pool_new_def hm_laws split: option.splits)

lemma pool_of_slot: "pools_ok ts \<Longrightarrow> i < ts_slots ts \<Longrightarrow> fst (pool_of u ts) ! i = slot_of ts u i"
  by (auto simp: pool_of_def slot_of_def user_pool_new_def pools_ok_def split: option.splits)

lemma pool_of_length: "pools_ok ts \<Longrightarrow> length (fst (pool_of u ts)) = ts_slots ts"
  by (auto simp: pool_of_def user_pool_new_def pools_ok_def split: option.splits)

lemma slot_of_bound: "pools_ok ts \<Longrightarrow> slot_of ts u i = Some a \<Longrightarrow> i < ts_slots ts"
  by (auto simp: slot_of_def pools_ok_def split: option.splits if_splits)

lemma set_slot_fields [simp]:
  "ts_heap (set_slot u i v ts) = ts_heap ts" "ts_slots (set_slot u i v ts) = ts_slots ts"
  by (simp_all add: set_slot_def split_def Let_def)

lemma slot_of_set_slot:
  assumes "pools_ok ts" "i < ts_slots ts"
  shows "slot_of (set_slot u i x ts) v j = (if v = u \<and> j = i then x else slot_of ts v j)"
proof (cases "v = u")
  case True
  show ?thesis
    using assms pool_of_length [OF assms(1), of u] pool_of_slot [OF assms(1), of j u] True
    by (cases "j < ts_slots ts")
      (auto simp: set_slot_def slot_of_def hm_laws nth_list_update pools_ok_def split: prod.splits option.splits)
next
  case False
  then have "slot_of (set_slot u i x ts) v j = slot_of (snd (pool_of u ts)) v j"
    by (auto simp: set_slot_def slot_of_def hm_laws split: prod.splits)
  then show ?thesis using False by simp
qed

lemma set_slot_ok:
  assumes "pools_ok ts" "i < ts_slots ts"
    and "\<And>a. x = Some a \<Longrightarrow> a < length (ts_heap ts) \<and> (\<forall>v j. slot_of ts v j \<noteq> Some a)"
  shows "pools_ok (set_slot u i x ts)"
proof -
  have "hm_ok (ts_pools (set_slot u i x ts))"
    using pool_of_ok [OF assms(1), of u] by (auto simp: set_slot_def pools_ok_def hm_laws split: prod.splits)
  moreover have "hm_get (ts_pools (set_slot u i x ts)) v = Some p \<Longrightarrow> length p = ts_slots ts" for v p
    using pool_of_ok [OF assms(1), of u] pool_of_length [OF assms(1), of u]
    by (auto simp: set_slot_def split_def Let_def pools_ok_def hm_laws split: if_splits)
  ultimately show ?thesis
    using assms unfolding pools_ok_def slot_of_set_slot [OF assms(1,2)] set_slot_fields
    by (auto split: if_splits)
qed

lemma on_term_fields [simp]:
  "ts_pools (on_term a f ts) = ts_pools ts" "ts_slots (on_term a f ts) = ts_slots ts"
  "slot_of (on_term a f ts) u i = slot_of ts u i"
  "length (ts_heap (on_term a f ts)) = length (ts_heap ts)"
  by (simp_all add: on_term_def slot_of_def)

lemma on_term_heap: "ts_heap (on_term a f ts) = (ts_heap ts)[a := f (ts_heap ts ! a)]"
  by (simp add: on_term_def)

lemma on_term_ok:
  assumes "pools_ok ts" "a < length (ts_heap ts)" "term_ok (f (ts_heap ts ! a))"
  shows "pools_ok (on_term a f ts)"
  using assms set_update_subset_insert [of "ts_heap ts" a "f (ts_heap ts ! a)"]
  unfolding pools_ok_def on_term_fields by (auto simp: on_term_heap)

lemma heap_append_ok:
  assumes "pools_ok ts" "term_ok t"
  shows "pools_ok (ts\<lparr>ts_heap := ts_heap ts @ [t]\<rparr>)"
proof -
  have "slot_of (ts\<lparr>ts_heap := ts_heap ts @ [t]\<rparr>) u i = slot_of ts u i" for u i
    by (simp add: slot_of_def)
  then show ?thesis using assms unfolding pools_ok_def by (auto simp: less_SucI)
qed

subsection \<open>What attaching does\<close>

lemma term_ok_join [simp]:
  "term_ok t \<Longrightarrow> term_ok (join_resized cols rows t)" "term_ok t \<Longrightarrow> term_ok (join_view t)"
  by (simp_all add: join_resized_def join_view_def term_ok_send)

lemma join_fields [simp]:
  "tm_sb (join_resized c r t) = tm_sb t" "tm_epoch (join_resized c r t) = tm_epoch t"
  "tm_log (join_resized c r t) = tm_log t" "tm_version (join_resized c r t) = tm_version t"
  "tm_alive (join_resized c r t) = tm_alive t"
  by (simp_all add: join_resized_def watch_subscribe_def)

definition vacated :: "string \<Rightarrow> nat \<Rightarrow> 's terminals \<Rightarrow> 's terminals" where
  "vacated u i ts =
    (case slot_of ts u i of
      None \<Rightarrow> snd (pool_of u ts)
    | Some a \<Rightarrow> on_term a term_stop (set_slot u i None (snd (pool_of u ts))))"

definition slot_dead :: "'s terminals \<Rightarrow> string \<Rightarrow> nat \<Rightarrow> bool" where
  "slot_dead ts u i \<longleftrightarrow> (case slot_of ts u i of None \<Rightarrow> True | Some a \<Rightarrow> \<not> tm_alive (ts_heap ts ! a))"

lemma vacated_fields:
  assumes "pools_ok ts" "i < ts_slots ts"
  shows "pools_ok (vacated u i ts)" "ts_slots (vacated u i ts) = ts_slots ts"
    "length (ts_heap (vacated u i ts)) = length (ts_heap ts)"
    "slot_of (vacated u i ts) v j = (if v = u \<and> j = i then None else slot_of ts v j)"
proof -
  have ok: "pools_ok (set_slot u i None (snd (pool_of u ts)))"
    using assms by (intro set_slot_ok pool_of_ok) auto
  show "pools_ok (vacated u i ts)"
    using assms ok pools_okD(1,3) [OF assms(1)]
    by (auto simp: vacated_def pool_of_ok term_ok_stop intro!: on_term_ok split: option.splits)
  show "ts_slots (vacated u i ts) = ts_slots ts" "length (ts_heap (vacated u i ts)) = length (ts_heap ts)"
    by (simp_all add: vacated_def split: option.splits)
  show "slot_of (vacated u i ts) v j = (if v = u \<and> j = i then None else slot_of ts v j)"
    using assms by (auto simp: vacated_def slot_of_set_slot pool_of_ok split: option.splits)
qed

lemma attach_slots [simp]: "ts_slots (snd (snd (attach em os u i cols rows resume ts))) = ts_slots ts"
  by (auto simp: attach_def split_def Let_def split: option.splits sum.splits)

lemma attach_live:
  assumes "pools_ok ts" "i < ts_slots ts" "slot_of ts u i = Some a" "tm_alive (ts_heap ts ! a)"
  shows "attach em os u i cols rows resume ts =
    (Inr (attach_cut resume a (join_resized cols rows (ts_heap ts ! a))), [],
     on_term a (join_resized cols rows) (snd (pool_of u ts)))"
proof -
  have "fst (pool_of u ts) ! i = Some a" using pool_of_slot [OF assms(1,2)] assms(3) by simp
  moreover have "fst (pool_of u (snd (pool_of u ts))) ! i = Some a"
    using pool_of_slot [OF pool_of_ok [OF assms(1)]] assms(2,3) by simp
  ultimately show ?thesis
    using assms(2,4) pools_okD(1) [OF assms(1,3)]
    by (simp add: attach_def split_def Let_def on_term_def)
qed

lemma attach_cold:
  assumes "pools_ok ts" "i < ts_slots ts" "slot_dead ts u i"
    and "spawn_terminal em os (ts_login_cmd ts) u (ts_owner ts) (ts_home ts) (ts_envs ts) cols rows (ts_cap ts) = (r, evs)"
  shows "attach em os u i cols rows resume ts =
    (case r of
      Inl e \<Rightarrow> (Inl (Spawn_error e), evs, vacated u i ts)
    | Inr t \<Rightarrow>
        let n = length (ts_heap ts); v = vacated u i ts
        in (Inr (attach_cut resume n (join_resized cols rows t)), evs,
            on_term n (join_resized cols rows) (set_slot u i (Some n) (v\<lparr>ts_heap := ts_heap v @ [t]\<rparr>))))"
proof -
  let ?v = "vacated u i ts" and ?n = "length (ts_heap ts)"
  have slot: "fst (pool_of u ts) ! i = slot_of ts u i" using pool_of_slot [OF assms(1,2)] .
  have v: "(case slot_of ts u i of None \<Rightarrow> snd (pool_of u ts)
      | Some a \<Rightarrow> on_term a term_stop (set_slot u i None (snd (pool_of u ts)))) = ?v"
    by (simp add: vacated_def split: option.splits)
  have dead: "(case slot_of ts u i of None \<Rightarrow> True | Some a \<Rightarrow> \<not> tm_alive (ts_heap ts ! a))"
    using assms(3) by (simp add: slot_dead_def)
  have new: "fst (pool_of u (set_slot u i (Some ?n) (?v\<lparr>ts_heap := ts_heap ?v @ [t]\<rparr>))) ! i = Some ?n"
    if "term_ok t" for t
  proof -
    let ?w = "?v\<lparr>ts_heap := ts_heap ?v @ [t]\<rparr>"
    have w: "pools_ok ?w" using vacated_fields(1) [OF assms(1,2)] that by (rule heap_append_ok)
    have free: "\<forall>v j. slot_of ?w v j \<noteq> Some ?n"
      using pools_okD(1) [OF vacated_fields(1) [OF assms(1,2)]] vacated_fields(3) [OF assms(1,2), of u]
      by (force simp: slot_of_def)
    have "pools_ok (set_slot u i (Some ?n) ?w)"
      using w free assms(2) vacated_fields(2,3) [OF assms(1,2), of u] by (intro set_slot_ok) auto
    then show ?thesis
      using pool_of_slot [of "set_slot u i (Some ?n) ?w" i u] slot_of_set_slot [OF w] assms(2)
        vacated_fields(2) [OF assms(1,2), of u] by simp
  qed
  show ?thesis
  proof (cases r)
    case (Inl e)
    then show ?thesis using assms(2,4) dead v slot
      by (simp add: attach_def split_def Let_def cong: option.case_cong)
  next
    case (Inr t)
    have "t = term_new em (ts_cap ts) cols rows (so_epoch os)"
      using assms(4) Inr by (auto simp: spawn_terminal_def split: option.splits)
    then have "term_ok t" by (simp add: term_ok_new)
    note new = new [OF this]
    have len: "length (ts_heap ?v) = ?n" by (rule vacated_fields(3) [OF assms(1,2)])
    show ?thesis
      using assms(2,4) dead v slot Inr new len
      by (simp add: attach_def split_def Let_def on_term_def nth_append cong: option.case_cong)
  qed
qed

subsection \<open>Reachable states\<close>

text \<open>The operations on the slots, interleaved with steps of any terminal (its threads, input of attached
  clients, snapshots), also of terminals no slot holds any more.\<close>

inductive slots_step :: "'s emulator \<Rightarrow> 's terminals \<Rightarrow> 's terminals \<Rightarrow> bool" for em :: "'s emulator" where
  p_attach: "slots_step em ts (snd (snd (attach em os u i cols rows resume ts)))"
| p_view: "slots_step em ts (snd (attach_view u i resume ts))"
| p_size: "slots_step em ts (snd (current_size u i ts))"
| p_list: "slots_step em ts (snd (terminal_list u ts))"
| p_reset: "slots_step em ts (terminal_reset u i ts)"
| p_term: "a < length (ts_heap ts) \<Longrightarrow> term_step em (ts_heap ts ! a) t' \<Longrightarrow> slots_step em ts (on_term a (\<lambda>_. t') ts)"

inductive_cases slots_stepE: "slots_step em ts ts'"

lemma reset_eq:
  assumes "pools_ok ts"
  shows "terminal_reset u i ts = (if ts_slots ts \<le> i then ts else vacated u i ts)"
  using pool_of_slot [OF assms, of i u]
  by (auto simp: terminal_reset_def vacated_def split_def Let_def split: option.splits)

lemma term_ok_spawned:
  "fst (spawn_terminal em os lc u ow ho en cols rows cp) = Inr t \<Longrightarrow> term_ok t"
  by (auto simp: spawn_terminal_def term_ok_new split: option.splits)

lemma spawned_placed:
  fixes u :: string
  assumes "pools_ok ts" "i < ts_slots ts" "term_ok t"
  defines "v \<equiv> vacated u i ts"
  defines "w \<equiv> set_slot u i (Some (length (ts_heap ts))) (v\<lparr>ts_heap := ts_heap v @ [t]\<rparr>)"
  shows "pools_ok w" "slot_of w x j = (if x = u \<and> j = i then Some (length (ts_heap ts)) else slot_of ts x j)"
    "ts_heap w = ts_heap v @ [t]"
proof -
  let ?w = "v\<lparr>ts_heap := ts_heap v @ [t]\<rparr>"
  note v = vacated_fields [OF assms(1,2), of u, folded v_def]
  have ok: "pools_ok ?w" using v(1) assms(3) by (rule heap_append_ok)
  have same: "slot_of ?w x j = slot_of v x j" for x j by (simp add: slot_of_def)
  have free: "slot_of v x j \<noteq> Some (length (ts_heap ts))" for x j
    using pools_okD(1) [OF v(1), of x j] v(3) by auto
  show "pools_ok w"
    unfolding w_def using ok same free v(2,3) assms(2) by (intro set_slot_ok) auto
  show "slot_of w x j = (if x = u \<and> j = i then Some (length (ts_heap ts)) else slot_of ts x j)"
    unfolding w_def using slot_of_set_slot [OF ok] assms(2) v(2,4) same by simp
  show "ts_heap w = ts_heap v @ [t]" by (simp add: w_def)
qed

lemma attach_ok:
  assumes "pools_ok ts"
  shows "pools_ok (snd (snd (attach em os u i cols rows resume ts)))"
proof (cases "ts_slots ts \<le> i")
  case True
  then show ?thesis using assms by (simp add: attach_def)
next
  case False
  then have i: "i < ts_slots ts" by simp
  show ?thesis
  proof (cases "slot_dead ts u i")
    case True
    obtain r evs where sp: "spawn_terminal em os (ts_login_cmd ts) u (ts_owner ts) (ts_home ts) (ts_envs ts) cols rows (ts_cap ts)
        = (r, evs)" by (rule prod.exhaust)
    show ?thesis
    proof (cases r)
      case (Inl e)
      then show ?thesis using attach_cold [OF assms i True sp] vacated_fields(1) [OF assms i] by simp
    next
      case (Inr t)
      then have t: "term_ok t" using sp term_ok_spawned by (metis fst_conv)
      note w = spawned_placed [OF assms i t, of u]
      show ?thesis
        using attach_cold [OF assms i True sp] Inr w(1,3) vacated_fields(3) [OF assms i, of u] t
        by (simp add: Let_def) (intro on_term_ok term_ok_join, simp_all add: nth_append)
    qed
  next
    case False
    then obtain a where a: "slot_of ts u i = Some a" "tm_alive (ts_heap ts ! a)"
      by (auto simp: slot_dead_def split: option.splits)
    have "a < length (ts_heap ts)" using pools_okD(1) [OF assms a(1)] .
    then show ?thesis
      using attach_live [OF assms i a] pool_of_ok [OF assms] pools_okD(3) [OF assms]
      by (auto intro!: on_term_ok term_ok_join)
  qed
qed

lemma live_slot_eq:
  "pools_ok ts \<Longrightarrow> i < ts_slots ts \<Longrightarrow> live_slot u i ts = (if slot_dead ts u i then None else slot_of ts u i)"
  using pool_of_slot [of ts i u] by (auto simp: live_slot_def slot_dead_def split: option.splits)

lemma attach_view_ok: "pools_ok ts \<Longrightarrow> pools_ok (snd (attach_view u i resume ts))"
  using live_slot_eq [of ts i u] pools_okD(1,3) [of ts]
  by (auto simp: attach_view_def Let_def pool_of_ok intro!: on_term_ok split: option.splits if_splits)

lemma slots_step_ok: "slots_step em ts ts' \<Longrightarrow> pools_ok ts \<Longrightarrow> pools_ok ts'"
proof (induction rule: slots_step.induct)
  case (p_attach ts os u i cols rows resume)
  then show ?case by (rule attach_ok)
next
  case (p_term a ts t')
  then show ?case by (intro on_term_ok) (auto intro: term_ok_step pools_okD(3))
next
  case (p_reset ts u i)
  then show ?case by (simp add: reset_eq vacated_fields(1))
qed (auto simp: attach_view_ok current_size_def terminal_list_def split_def Let_def pool_of_ok
    split: option.splits)

lemma terminals_new_ok: "pools_ok (terminals_new slots login_cmd envs owner home cp)"
  by (simp add: pools_ok_def terminals_new_def slot_of_def)

lemma slots_reach_ok:
  "(slots_step em)\<^sup>*\<^sup>* ts ts' \<Longrightarrow> pools_ok ts \<Longrightarrow> pools_ok ts'"
  by (induction rule: rtranclp_induct) (auto intro: slots_step_ok)

text \<open>A terminal is placed in a slot when it is spawned and in no other slot ever after.\<close>

lemma attach_result:
  assumes "pools_ok ts" "i < ts_slots ts" "attach em os u i cols rows resume ts = (Inr att, evs, ts')"
  obtains (live) "slot_of ts u i = Some (at_term att)" "\<not> slot_dead ts u i" "evs = []"
      "att = attach_cut resume (at_term att) (join_resized cols rows (ts_heap ts ! at_term att))"
      "ts' = on_term (at_term att) (join_resized cols rows) (snd (pool_of u ts))"
  | (cold) t where "slot_dead ts u i" "at_term att = length (ts_heap ts)"
      "spawn_terminal em os (ts_login_cmd ts) u (ts_owner ts) (ts_home ts) (ts_envs ts) cols rows (ts_cap ts) = (Inr t, evs)"
      "att = attach_cut resume (length (ts_heap ts)) (join_resized cols rows t)"
      "ts' = on_term (length (ts_heap ts)) (join_resized cols rows)
         (set_slot u i (Some (length (ts_heap ts))) ((vacated u i ts)\<lparr>ts_heap := ts_heap (vacated u i ts) @ [t]\<rparr>))"
proof (cases "slot_dead ts u i")
  case True
  obtain r evs' where sp: "spawn_terminal em os (ts_login_cmd ts) u (ts_owner ts) (ts_home ts) (ts_envs ts) cols rows (ts_cap ts)
      = (r, evs')" by (rule prod.exhaust)
  show thesis
    using attach_cold [OF assms(1,2) True sp, of resume] assms(3) sp True cold
    by (cases r) (auto simp: Let_def attach_cut_def split_def)
next
  case False
  then obtain a where a: "slot_of ts u i = Some a" "tm_alive (ts_heap ts ! a)"
    by (auto simp: slot_dead_def split: option.splits)
  have "at_term att = a"
    using attach_live [OF assms(1,2) a, of em os cols rows resume] assms(3) by (auto simp: attach_cut_def split_def Let_def)
  then show thesis
    using attach_live [OF assms(1,2) a, of em os cols rows resume] assms(3) a False live by auto
qed

lemma attach_slot:
  fixes ts :: "'s terminals" and em os u i cols rows resume
  assumes "pools_ok ts"
  defines "ts' \<equiv> snd (snd (attach em os u i cols rows resume ts))"
  shows "(slot_of ts' v j = Some a \<longrightarrow> slot_of ts v j = Some a \<or> a = length (ts_heap ts)) \<and>
    length (ts_heap ts) \<le> length (ts_heap ts')"
proof (cases "ts_slots ts \<le> i")
    case True
    then show ?thesis by (simp add: ts'_def attach_def)
  next
    case False
    then have i: "i < ts_slots ts" by simp
    note v = vacated_fields [OF assms(1) i, of u]
    show ?thesis
    proof (cases "slot_dead ts u i")
      case True
      obtain r evs where sp: "spawn_terminal em os (ts_login_cmd ts) u (ts_owner ts) (ts_home ts) (ts_envs ts) cols rows (ts_cap ts)
          = (r, evs)" by (rule prod.exhaust)
      show ?thesis
      proof (cases r)
        case (Inl e)
        then show ?thesis using attach_cold [OF assms(1) i True sp] v(3,4) by (simp add: ts'_def)
      next
        case (Inr t)
        then have t: "term_ok t" using sp term_ok_spawned by (metis fst_conv)
        show ?thesis
          using attach_cold [OF assms(1) i True sp] Inr spawned_placed [OF assms(1) i t, of u] v(3)
          by (simp add: ts'_def Let_def)
      qed
    next
      case False
      then obtain b where b: "slot_of ts u i = Some b" "tm_alive (ts_heap ts ! b)"
        by (auto simp: slot_dead_def split: option.splits)
      then show ?thesis using attach_live [OF assms(1) i b] by (simp add: ts'_def)
    qed
  qed

lemma slots_step_slot:
  assumes "slots_step em ts ts'" "pools_ok ts"
  shows "(slot_of ts' v j = Some a \<longrightarrow> a < length (ts_heap ts) \<longrightarrow> slot_of ts v j = Some a) \<and>
    length (ts_heap ts) \<le> length (ts_heap ts')"
  using assms
proof (induction rule: slots_step.induct)
  case (p_attach ts os u i cols rows resume)
  then show ?case using attach_slot [OF p_attach, of em os u i cols rows resume v j a] by auto
next
  case (p_reset ts u i)
  then show ?case using vacated_fields(3,4) [of ts i u] by (auto simp: reset_eq)
qed (auto simp: attach_view_def current_size_def terminal_list_def split_def Let_def split: option.splits)

lemma slots_reach_slot:
  assumes "(slots_step em)\<^sup>*\<^sup>* ts ts'" "pools_ok ts"
  shows "(slot_of ts' v j = Some a \<longrightarrow> a < length (ts_heap ts) \<longrightarrow> slot_of ts v j = Some a) \<and>
    length (ts_heap ts) \<le> length (ts_heap ts')"
  using assms(1)
proof (induction rule: rtranclp_induct)
  case base
  then show ?case by simp
next
  case (step t t')
  then have "pools_ok t" using slots_reach_ok assms(2) by blast
  from slots_step_slot [OF step.hyps(2) this, of v j a] step.IH show ?case by auto
qed

lemma attach_att:
  assumes "pools_ok ts" "attach em os u i cols rows resume ts = (Inr att, evs, ts')"
  shows "i < ts_slots ts \<and> slot_of ts' u i = Some (at_term att) \<and>
    att = attach_cut resume (at_term att) (ts_heap ts' ! at_term att)"
proof -
  have i: "i < ts_slots ts" using assms(2) by (auto simp: attach_def split: if_splits)
  show ?thesis
    using assms(1) i assms(2)
  proof (cases rule: attach_result)
    case live
    then show ?thesis using i pools_okD(1) [OF assms(1) live(1)] by (simp add: on_term_heap)
  next
    case (cold t)
    then have "term_ok t" using term_ok_spawned by (metis fst_conv)
    note w = spawned_placed [OF assms(1) i this, of u]
    have "length (ts_heap (vacated u i ts)) = length (ts_heap ts)" by (rule vacated_fields(3) [OF assms(1) i])
    then have "ts_heap ts' ! length (ts_heap ts) = join_resized cols rows t"
      unfolding cold(5) by (simp add: on_term_heap w(3) nth_append)
    moreover have "slot_of ts' u i = Some (length (ts_heap ts))"
      unfolding cold(5) on_term_fields w(2) by simp
    ultimately show ?thesis using i cold(2,4) by simp
  qed
qed

text \<open>Users never share a shell: the terminal an attachment writes to is the one in the slot it asked for, and
  whatever happens later that terminal is found in no slot of anybody else, nor in another slot.\<close>

theorem slots_private:
  assumes "(slots_step em)\<^sup>*\<^sup>* (terminals_new slots login_cmd envs owner home cp) ts"
    and "attach em os u i cols rows resume ts = (Inr att, evs, ts')"
    and "(slots_step em)\<^sup>*\<^sup>* ts' ts''"
  shows "i < ts_slots ts \<and> slot_of ts' u i = Some (at_term att) \<and>
    {(v, j). slot_of ts'' v j = Some (at_term att)} \<subseteq> {(u, i)}"
proof -
  have ok: "pools_ok ts" using slots_reach_ok [OF assms(1) terminals_new_ok] .
  have ok': "pools_ok ts'" using attach_ok [OF ok, of em os u i cols rows resume] assms(2) by simp
  have i: "i < ts_slots ts" and slot: "slot_of ts' u i = Some (at_term att)"
    using attach_att [OF ok assms(2)] by auto
  have "slot_of ts' v j = Some (at_term att)" if "slot_of ts'' v j = Some (at_term att)" for v j
    using slots_reach_slot [OF assms(3) ok', of v j "at_term att"] pools_okD(1) [OF ok' slot] that by simp
  then show ?thesis using i slot pools_okD(2) [OF ok' slot] by blast
qed

definition toy_os :: spawn_os where
  "toy_os = \<lparr>so_openpty = None, so_spawn = None, so_reader = None, so_writer = None,
     so_base = Map.empty, so_keys = [], so_epoch = 7\<rparr>"

definition toy_slots :: "unit terminals" where
  "toy_slots = terminals_new 2 [''/bin/sh''] [] ''o'' ''/'' 10"

definition toy_shell :: "unit terminal" where
  "toy_shell = term_new unit_emulator 10 80 24 7"

lemma toy_spawn:
  "\<exists>evs. spawn_terminal unit_emulator toy_os (ts_login_cmd toy_slots) u (ts_owner toy_slots) (ts_home toy_slots)
     (ts_envs toy_slots) 80 24 (ts_cap toy_slots) = (Inr toy_shell, evs)"
  by (simp add: spawn_terminal_def toy_os_def build_command_def toy_slots_def terminals_new_def toy_shell_def Let_def)

lemma toy_slots_ok: "pools_ok toy_slots"
  by (simp add: toy_slots_def terminals_new_ok)

definition toy_attached :: "unit terminals" where
  "toy_attached = snd (snd (attach unit_emulator toy_os ''a'' 0 80 24 None toy_slots))"

lemma toy_reach: "(slots_step unit_emulator)\<^sup>*\<^sup>* (terminals_new 2 [''/bin/sh''] [] ''o'' ''/'' 10) toy_slots"
  by (simp add: toy_slots_def)

lemma toy_attach:
  obtains evs where "attach unit_emulator toy_os ''a'' 0 80 24 None toy_slots =
    (Inr (attach_cut None 0 (join_resized 80 24 toy_shell)), evs, toy_attached)"
proof -
  obtain evs where sp: "spawn_terminal unit_emulator toy_os (ts_login_cmd toy_slots) ''a'' (ts_owner toy_slots) (ts_home toy_slots)
     (ts_envs toy_slots) 80 24 (ts_cap toy_slots) = (Inr toy_shell, evs)" using toy_spawn by blast
  have h: "ts_heap toy_slots = []" "0 < ts_slots toy_slots" by (simp_all add: toy_slots_def terminals_new_def)
  have "slot_dead toy_slots ''a'' 0" by (simp add: slot_dead_def slot_of_def toy_slots_def terminals_new_def)
  from attach_cold [OF toy_slots_ok h(2) this sp, of None] show thesis
    using that h(1) by (simp add: Let_def toy_attached_def)
qed

theorem slots_private_witness:
  "slot_of toy_attached ''a'' 0 = Some 0 \<and>
   {(v, j). slot_of (terminal_reset ''a'' 1 toy_attached) v j = Some 0} \<subseteq> {(''a'', 0)}"
proof -
  obtain evs where at: "attach unit_emulator toy_os ''a'' 0 80 24 None toy_slots =
    (Inr (attach_cut None 0 (join_resized 80 24 toy_shell)), evs, toy_attached)" by (rule toy_attach)
  have zero: "at_term (attach_cut None 0 t) = 0" for t :: "unit terminal"
    by (simp add: attach_cut_def split_def Let_def)
  have "(slots_step unit_emulator)\<^sup>*\<^sup>* toy_attached (terminal_reset ''a'' 1 toy_attached)"
    by (rule r_into_rtranclp) (rule p_reset)
  from slots_private [OF rtranclp.rtrancl_refl at [unfolded toy_slots_def] this] show ?thesis
    unfolding zero by simp
qed

subsection \<open>What each operation promises\<close>

definition resume_offset :: "(u64 \<times> u64) option \<Rightarrow> u64 \<Rightarrow> u64 option" where
  "resume_offset resume epoch = (case resume of Some (e, off) \<Rightarrow> if e = epoch then Some off else None | None \<Rightarrow> None)"

lemma attach_cut_fields [simp]:
  "at_term (attach_cut resume a t) = a" "at_epoch (attach_cut resume a t) = tm_epoch t"
  "at_pos (attach_cut resume a t) = length (tm_log t)"
  by (simp_all add: attach_cut_def split_def Let_def)

lemma attach_cut_cut:
  "(at_mode (attach_cut resume a t), at_base (attach_cut resume a t), at_replay (attach_cut resume a t)) =
     cut (tm_sb t) (resume_offset resume (tm_epoch t))"
  by (simp add: attach_cut_def resume_offset_def split_def Let_def)

lemma cut_empty: "buf s = [] \<Longrightarrow> snd (snd (cut s off)) = []"
  by (auto simp: cut_def snapshot_def Let_def split: option.splits)

lemma attach_cut_new: "at_replay (attach_cut resume a (join_resized c r (term_new em cp cols rows epoch))) = []"
proof -
  have "buf (tm_sb (term_new em cp cols rows epoch)) = []" by (simp add: term_new_def scrollback_new_def)
  from cut_empty [OF this] show ?thesis by (simp add: attach_cut_def split_def Let_def)
qed

lemma vacated_stopped:
  assumes "pools_ok ts" "slot_of ts u i = Some a"
  shows "ts_heap (vacated u i ts) ! a = term_stop (ts_heap ts ! a)"
  using assms pools_okD(1) [OF assms] by (simp add: vacated_def on_term_heap)

text \<open>C34: Attaching to a running slot never restarts or stops its shell: no process event, the terminal stays the one in the
  slot and only a resize is queued, and the client gets exactly what \<open>cut\<close> gives for its offset if its
  epoch is that of this shell, the whole ring otherwise. A slot that is empty or dead gets a fresh
  shell with the new epoch at an index no terminal had, the dead one is stopped first; when the spawn
  fails the slot is left empty and the error is reported.\<close>

theorem attach_spec:
  assumes "(slots_step em)\<^sup>*\<^sup>* (terminals_new slots login_cmd envs owner home cp) ts" and "i < ts_slots ts"
  shows "case attach em os u i cols rows resume ts of
      (Inr att, evs, ts') \<Rightarrow>
        slot_of ts' u i = Some (at_term att) \<and>
        (if slot_dead ts u i
         then at_term att = length (ts_heap ts) \<and> at_epoch att = so_epoch os \<and> at_replay att = [] \<and> length evs = 1 \<and>
           (case slot_of ts u i of None \<Rightarrow> True | Some a \<Rightarrow> ts_heap ts' ! a = term_stop (ts_heap ts ! a))
         else slot_of ts u i = Some (at_term att) \<and> evs = [] \<and> at_epoch att = tm_epoch (ts_heap ts ! at_term att) \<and>
           (at_mode att, at_base att, at_replay att) =
             cut (tm_sb (ts_heap ts ! at_term att)) (resume_offset resume (at_epoch att)) \<and>
           ts_heap ts' = (ts_heap ts)[at_term att := join_resized cols rows (ts_heap ts ! at_term att)])
    | (Inl (Spawn_error e), evs, ts') \<Rightarrow> slot_dead ts u i \<and> slot_of ts' u i = None
    | _ \<Rightarrow> False"
proof -
  have ok: "pools_ok ts" using slots_reach_ok [OF assms(1) terminals_new_ok] .
  obtain r evs ts' where at: "attach em os u i cols rows resume ts = (r, evs, ts')" by (rule prod_cases3)
  show ?thesis
  proof (cases r)
    case (Inl e)
    have dead: "slot_dead ts u i"
      using attach_live [OF ok assms(2), of u _ em os cols rows resume] at Inl
      by (fastforce simp: slot_dead_def split: option.splits)
    obtain r' evs' where sp: "spawn_terminal em os (ts_login_cmd ts) u (ts_owner ts) (ts_home ts) (ts_envs ts) cols rows (ts_cap ts)
        = (r', evs')" by (rule prod.exhaust)
    show ?thesis
      using attach_cold [OF ok assms(2) dead sp, of resume] at Inl dead vacated_fields(4) [OF ok assms(2), of u u i]
      by (cases r') (auto simp: Let_def)
  next
    case (Inr att)
    show ?thesis
      using ok assms(2) at [unfolded Inr]
    proof (cases rule: attach_result)
      case live
      then show ?thesis unfolding at Inr
        using attach_cut_cut [of resume "at_term att" "join_resized cols rows (ts_heap ts ! at_term att)"]
        by (auto simp: on_term_heap dest: arg_cong [where f = at_epoch])
    next
      case (cold t)
      have t: "t = term_new em (ts_cap ts) cols rows (so_epoch os)" "length evs = 1"
        using cold(3) by (auto simp: spawn_terminal_def split: option.splits)
      then have "term_ok t" by (simp add: term_ok_new)
      note w = spawned_placed [OF ok assms(2) this, of u]
      have len: "length (ts_heap (vacated u i ts)) = length (ts_heap ts)" by (rule vacated_fields(3) [OF ok assms(2)])
      have "ts_heap ts' ! a = term_stop (ts_heap ts ! a)" if "slot_of ts u i = Some a" for a
        using pools_okD(1) [OF ok that] vacated_stopped [OF ok that] len
        unfolding cold(5) by (simp add: on_term_heap w(3) nth_append)
      moreover have "slot_of ts' u i = Some (at_term att)" unfolding cold(2,5) on_term_fields w(2) by simp
      moreover have "at_epoch att = so_epoch os" "at_replay att = []"
        unfolding cold(4) t(1) attach_cut_new by (simp_all add: term_new_def)
      ultimately show ?thesis unfolding at Inr using cold(1,2) t(2) by (simp split: option.splits)
    qed
  qed
qed

theorem attach_spec_witness:
  "at_epoch (attach_cut None 0 (join_resized 80 24 toy_shell)) = 7 \<and> slot_of toy_attached ''a'' 0 = Some 0"
proof -
  obtain evs where at: "attach unit_emulator toy_os ''a'' 0 80 24 None toy_slots =
    (Inr (attach_cut None 0 (join_resized 80 24 toy_shell)), evs, toy_attached)" by (rule toy_attach)
  have "slot_dead toy_slots ''a'' 0" by (simp add: slot_dead_def slot_of_def toy_slots_def terminals_new_def)
  moreover have "0 < ts_slots toy_slots" by (simp add: toy_slots_def terminals_new_def)
  ultimately show ?thesis
    using attach_spec [OF toy_reach, where os = toy_os and u = "''a''" and i = 0 and cols = 80 and rows = 24
        and resume = None]
    unfolding at by (simp add: toy_os_def)
qed

text \<open>A viewer cannot affect the session: attaching a view changes no slot, and of the terminals only the number of
  watchers of the one it views (no command is queued, nothing is resized or spawned); it succeeds exactly when
  the slot is running, with what \<open>cut\<close> gives for its offset.\<close>

theorem attach_view_inert:
  assumes "(slots_step em)\<^sup>*\<^sup>* (terminals_new slots login_cmd envs owner home cp) ts"
  shows "let (r, ts') = attach_view u i resume ts in
    map (tm_watchers_update (\<lambda>_. 0)) (ts_heap ts') = map (tm_watchers_update (\<lambda>_. 0)) (ts_heap ts) \<and>
    slot_of ts' v j = slot_of ts v j \<and>
    (case r of
       Inl Out_of_range \<Rightarrow> ts_slots ts \<le> i
     | Inl Not_running \<Rightarrow> i < ts_slots ts \<and> slot_dead ts u i
     | Inl (Spawn_error e) \<Rightarrow> False
     | Inr att \<Rightarrow> i < ts_slots ts \<and> \<not> slot_dead ts u i \<and> slot_of ts u i = Some (at_term att) \<and>
         at_epoch att = tm_epoch (ts_heap ts ! at_term att) \<and>
         (at_mode att, at_base att, at_replay att) =
           cut (tm_sb (ts_heap ts ! at_term att)) (resume_offset resume (at_epoch att)))"
proof (cases "ts_slots ts \<le> i")
  case True
  then show ?thesis by (simp add: attach_view_def)
next
  case False
  have ok: "pools_ok ts" using slots_reach_ok [OF assms terminals_new_ok] .
  have watch: "map (tm_watchers_update (\<lambda>_. 0)) (ts[a := join_view (ts ! a)]) = map (tm_watchers_update (\<lambda>_. 0)) ts"
    for ts :: "'a terminal list" and a
    by (cases "a < length ts") (simp_all add: map_update join_view_def watch_subscribe_def list_update_same_conv list_update_beyond)
  show ?thesis
    using False live_slot_eq [OF ok, of i u] attach_cut_cut [of resume _ "ts_heap ts ! the (slot_of ts u i)"]
    by (auto simp: attach_view_def Let_def slot_dead_def on_term_heap watch split: option.splits)
qed

theorem attach_view_inert_witness:
  "slot_of (snd (attach_view ''a'' 0 None toy_slots)) ''a'' 0 = slot_of toy_slots ''a'' 0"
  using attach_view_inert [OF toy_reach, where u = "''a''" and i = 0 and resume = None and v = "''a''" and j = 0]
  by (simp add: split_def Let_def)

text \<open>A reset empties exactly the slot it names; the terminal that was there has told its watchers to leave, its
  shell was hung up unless already reaped, and every other terminal and slot is as before.\<close>

theorem reset_spec:
  assumes "(slots_step em)\<^sup>*\<^sup>* (terminals_new slots login_cmd envs owner home cp) ts" and "i < ts_slots ts"
  shows "slot_of (terminal_reset u i ts) v j = (if v = u \<and> j = i then None else slot_of ts v j) \<and>
    (case slot_of ts u i of
       None \<Rightarrow> ts_heap (terminal_reset u i ts) = ts_heap ts
     | Some a \<Rightarrow> ts_heap (terminal_reset u i ts) = (ts_heap ts)[a := term_stop (ts_heap ts ! a)] \<and>
         (if tm_watchers (ts_heap ts ! a) = 0 then True
          else told (tm_version (ts_heap ts ! a)) (term_stop (ts_heap ts ! a))) \<and>
         tm_signals (term_stop (ts_heap ts ! a)) = tm_signals (ts_heap ts ! a) @
           (if tm_cmd (ts_heap ts ! a) \<in> {Retired, Reaped} then [] else [(Hup, tm_cmd (ts_heap ts ! a))]))"
proof -
  have ok: "pools_ok ts" using slots_reach_ok [OF assms(1) terminals_new_ok] .
  have "tm_signals (term_stop t) = tm_signals t @ (if tm_cmd t \<in> {Retired, Reaped} then [] else [(Hup, tm_cmd t)])"
    if "term_ok t" for t :: "'a terminal"
    using that by (auto simp: term_ok_def term_stop_def signal_child_def try_send_def watch_send_def Let_def)
  moreover have "if tm_watchers t = 0 then True else told (tm_version t) (term_stop t)" for t :: "'a terminal"
    using notify_fields(2) [of t] by (simp add: told_def)
  ultimately show ?thesis
    using assms(2) vacated_fields(4) [OF ok assms(2)] pools_okD(1,3) [OF ok]
    by (auto simp: reset_eq [OF ok] vacated_def on_term_heap split: option.splits)
qed

theorem reset_spec_witness:
  "slot_of (terminal_reset ''a'' 0 toy_attached) ''a'' 0 = None"
proof -
  have "slots_step unit_emulator toy_slots toy_attached" unfolding toy_attached_def by (rule p_attach)
  with toy_reach have reach: "(slots_step unit_emulator)\<^sup>*\<^sup>* (terminals_new 2 [''/bin/sh''] [] ''o'' ''/'' 10) toy_attached"
    by (rule rtranclp.rtrancl_into_rtrancl)
  have "0 < ts_slots toy_attached"
    by (simp add: toy_attached_def attach_slots) (simp add: toy_slots_def terminals_new_def)
  from reset_spec [OF reach this] show ?thesis by auto
qed

subsection \<open>Terminals only grow\<close>

text \<open>Between two states of the terminals, every terminal keeps its epoch and only adds to its output.\<close>

definition grows :: "'s terminals \<Rightarrow> 's terminals \<Rightarrow> bool" where
  "grows ts ts' \<longleftrightarrow> length (ts_heap ts) \<le> length (ts_heap ts') \<and>
     (\<forall>a < length (ts_heap ts). tm_epoch (ts_heap ts' ! a) = tm_epoch (ts_heap ts ! a) \<and>
        (\<exists>ds. tm_log (ts_heap ts' ! a) = tm_log (ts_heap ts ! a) @ ds))"

lemma grows_refl [simp]: "grows ts ts"
  by (simp add: grows_def)

lemma grows_trans: "grows ts ts' \<Longrightarrow> grows ts' ts'' \<Longrightarrow> grows ts ts''"
  unfolding grows_def by (elim conjE, intro conjI allI impI) (auto, metis append_assoc less_le_trans)

lemma grows_same_heap: "ts_heap ts' = ts_heap ts \<Longrightarrow> grows ts ts'"
  by (simp add: grows_def)

lemma grows_on_term:
  assumes "\<And>t. t = ts_heap ts ! a \<Longrightarrow> tm_epoch (f t) = tm_epoch t \<and> (\<exists>ds. tm_log (f t) = tm_log t @ ds)"
  shows "grows ts (on_term a f ts)"
  unfolding grows_def
proof (intro conjI allI impI)
  fix b assume "b < length (ts_heap ts)"
  then have "ts_heap (on_term a f ts) ! b = (if b = a then f (ts_heap ts ! a) else ts_heap ts ! b)"
    by (simp add: on_term_heap nth_list_update)
  then show "tm_epoch (ts_heap (on_term a f ts) ! b) = tm_epoch (ts_heap ts ! b)"
    "\<exists>ds. tm_log (ts_heap (on_term a f ts) ! b) = tm_log (ts_heap ts ! b) @ ds"
    using assms [OF refl] by auto
qed simp

lemma term_step_grows:
  "term_step em t t' \<Longrightarrow> tm_epoch t' = tm_epoch t \<and> (\<exists>ds. tm_log t' = tm_log t @ ds)"
  by (induction rule: term_step.induct; (erule thread_step.cases)?)
    (auto simp: term_ops split: list.splits pty_cmd.splits)

lemma stop_same [simp]: "tm_epoch (term_stop t) = tm_epoch t" "tm_log (term_stop t) = tm_log t"
  by (simp_all add: term_stop_def signal_child_def watch_send_def Let_def)

lemma drop_same [simp]: "tm_epoch (watch_drop t) = tm_epoch t" "tm_log (watch_drop t) = tm_log t"
  by (simp_all add: watch_drop_def)

lemma join_view_same [simp]: "tm_epoch (join_view t) = tm_epoch t" "tm_log (join_view t) = tm_log t"
  by (simp_all add: join_view_def watch_subscribe_def)

lemma set_slot_grows [simp]: "grows ts (set_slot u i v ts)"
  by (simp add: grows_same_heap)

lemma vacated_grows: "grows ts (vacated u i ts)"
proof -
  have "grows ts (on_term a term_stop (set_slot u i None (snd (pool_of u ts))))" for a
    by (rule grows_trans [OF grows_same_heap grows_on_term]) simp_all
  then show ?thesis by (auto simp: vacated_def intro: grows_same_heap split: option.splits)
qed

lemma append_grows: "grows ts (ts\<lparr>ts_heap := ts_heap ts @ xs\<rparr>)"
  by (simp add: grows_def nth_append)

lemma attach_grows:
  assumes "pools_ok ts"
  shows "grows ts (snd (snd (attach em os u i cols rows resume ts)))"
proof (cases "ts_slots ts \<le> i \<or> \<not> slot_dead ts u i")
  case True
  have view: "grows ts (on_term a (join_resized cols rows) (snd (pool_of u ts)))" for a
    by (rule grows_trans [OF grows_same_heap grows_on_term]) simp_all
  show ?thesis
  proof (cases "ts_slots ts \<le> i")
    case True
    then show ?thesis by (simp add: attach_def)
  next
    case False
    with True obtain a where "slot_of ts u i = Some a" "tm_alive (ts_heap ts ! a)"
      by (auto simp: slot_dead_def split: option.splits)
    with False show ?thesis using attach_live [OF assms, of i u a] view by simp
  qed
next
  case False
  then have i: "i < ts_slots ts" and dead: "slot_dead ts u i" by auto
  obtain r evs where sp: "spawn_terminal em os (ts_login_cmd ts) u (ts_owner ts) (ts_home ts) (ts_envs ts) cols rows (ts_cap ts)
      = (r, evs)" by (rule prod.exhaust)
  have "grows ts (on_term n (join_resized cols rows)
      (set_slot u i s ((vacated u i ts)\<lparr>ts_heap := ts_heap (vacated u i ts) @ [t]\<rparr>)))" for n s t
    by (rule grows_trans [OF vacated_grows], rule grows_trans [OF append_grows],
        rule grows_trans [OF set_slot_grows], rule grows_on_term) simp
  then show ?thesis
    using attach_cold [OF assms i dead sp, of resume] vacated_grows by (cases r) (simp_all add: Let_def)
qed

lemma slots_step_grows: "slots_step em ts ts' \<Longrightarrow> pools_ok ts \<Longrightarrow> grows ts ts'"
proof (induction rule: slots_step.induct)
  case (p_attach ts os u i cols rows resume)
  then show ?case by (rule attach_grows)
next
  case (p_view ts u i resume)
  have "grows ts (on_term a join_view (snd (pool_of u ts)))" for a
    by (rule grows_trans [OF grows_same_heap grows_on_term]) simp_all
  then show ?case by (auto simp: attach_view_def Let_def grows_same_heap split: option.splits)
next
  case (p_reset ts u i)
  then show ?case by (simp add: reset_eq vacated_grows)
next
  case (p_term a ts t')
  then show ?case by (intro grows_on_term) (use term_step_grows in blast)
qed (auto simp: current_size_def terminal_list_def split_def Let_def intro: grows_same_heap)

subsection \<open>What the rest of the program may do\<close>

text \<open>What the rest of the program may do to the terminals while one part looks away.\<close>

definition extends :: "'s terminals \<Rightarrow> 's terminals \<Rightarrow> bool" where
  "extends ts ts' \<longleftrightarrow> grows ts ts' \<and> pools_ok ts' \<and> ts_slots ts' = ts_slots ts \<and>
     (\<forall>v j a. slot_of ts' v j = Some a \<longrightarrow> a < length (ts_heap ts) \<longrightarrow> slot_of ts v j = Some a)"

lemma extends_refl [simp]: "pools_ok ts \<Longrightarrow> extends ts ts"
  by (simp add: extends_def)

lemma extends_trans: "extends ts ts' \<Longrightarrow> extends ts' ts'' \<Longrightarrow> extends ts ts''"
  unfolding extends_def using grows_trans [of ts ts' ts'']
  by (auto simp: grows_def)

lemma extends_on_term:
  assumes "pools_ok ts" "a < length (ts_heap ts)" "term_ok (f (ts_heap ts ! a))"
    and "tm_epoch (f (ts_heap ts ! a)) = tm_epoch (ts_heap ts ! a)"
    and "\<exists>ds. tm_log (f (ts_heap ts ! a)) = tm_log (ts_heap ts ! a) @ ds"
  shows "extends ts (on_term a f ts)"
  using assms on_term_ok [of ts a f] grows_on_term [of ts a f] by (simp add: extends_def)

lemma slots_step_slots: "slots_step em ts ts' \<Longrightarrow> pools_ok ts \<Longrightarrow> ts_slots ts' = ts_slots ts"
  by (induction rule: slots_step.induct)
    (auto simp: attach_view_def current_size_def terminal_list_def reset_eq vacated_fields(2) split_def Let_def
      split: option.splits)

lemma slots_step_extends: "slots_step em ts ts' \<Longrightarrow> pools_ok ts \<Longrightarrow> extends ts ts'"
  using slots_step_slot [of em ts ts'] slots_step_grows [of em ts ts'] slots_step_ok [of em ts ts']
    slots_step_slots [of em ts ts'] unfolding extends_def by blast

subsection \<open>Nothing is typed\<close>

definition all_quiet :: "'s terminals \<Rightarrow> 's terminals \<Rightarrow> bool" where
  "all_quiet ts ts' \<longleftrightarrow> length (ts_heap ts) \<le> length (ts_heap ts') \<and>
     (\<forall>a < length (ts_heap ts). quiet (ts_heap ts ! a) (ts_heap ts' ! a))"

lemma all_quiet_refl [simp]: "all_quiet ts ts"
  by (simp add: all_quiet_def)

lemma all_quiet_trans: "all_quiet ts ts' \<Longrightarrow> all_quiet ts' ts'' \<Longrightarrow> all_quiet ts ts''"
  unfolding all_quiet_def by (meson less_le_trans order_trans quiet_trans)

lemma all_quiet_same_heap: "ts_heap ts' = ts_heap ts \<Longrightarrow> all_quiet ts ts'"
  by (simp add: all_quiet_def)

lemma all_quiet_on_term: "quiet (ts_heap ts ! a) (f (ts_heap ts ! a)) \<Longrightarrow> all_quiet ts (on_term a f ts)"
  unfolding all_quiet_def on_term_heap by (metis length_list_update le_refl nth_list_update_eq nth_list_update_neq quiet_refl)

lemma quiet_join [simp]: "quiet t (join_resized cols rows t)" "quiet t (join_view t)"
  using quiet_trans [OF quiet_ops(1) quiet_ops(5)] by (simp_all add: join_resized_def join_view_def)

lemma all_quiet_set_slot: "all_quiet ts (set_slot u i v ts)"
  by (rule all_quiet_same_heap) simp

lemma all_quiet_vacated: "all_quiet ts (vacated u i ts)"
proof (cases "slot_of ts u i")
  case (Some a)
  have "all_quiet ts (on_term a term_stop (set_slot u i None (snd (pool_of u ts))))"
    by (rule all_quiet_trans [OF all_quiet_same_heap all_quiet_on_term]) simp_all
  then show ?thesis using Some by (simp add: vacated_def)
qed (simp add: vacated_def all_quiet_same_heap)

lemma all_quiet_append: "all_quiet ts (ts\<lparr>ts_heap := ts_heap ts @ [t]\<rparr>)"
  by (simp add: all_quiet_def nth_append)

lemma all_quiet_attach:
  assumes "pools_ok ts"
  shows "all_quiet ts (snd (snd (attach em os u i cols rows resume ts)))"
proof (cases "i < ts_slots ts \<and> slot_dead ts u i")
  case True
  obtain r evs where sp: "spawn_terminal em os (ts_login_cmd ts) u (ts_owner ts) (ts_home ts) (ts_envs ts) cols rows (ts_cap ts)
      = (r, evs)" by (rule prod.exhaust)
  have "all_quiet ts (on_term n (join_resized cols rows)
      (set_slot u i s ((vacated u i ts)\<lparr>ts_heap := ts_heap (vacated u i ts) @ [t]\<rparr>)))" for n s t
    by (rule all_quiet_trans [OF all_quiet_vacated], rule all_quiet_trans [OF all_quiet_append],
        rule all_quiet_trans [OF all_quiet_set_slot], rule all_quiet_on_term) simp
  then show ?thesis
    using attach_cold [OF assms _ _ sp, of i resume] True all_quiet_vacated by (cases r) (simp_all add: Let_def)
next
  case False
  show ?thesis
  proof (cases "i < ts_slots ts")
    case True
    with False obtain a where "slot_of ts u i = Some a" "tm_alive (ts_heap ts ! a)"
      by (auto simp: slot_dead_def split: option.splits)
    moreover have "all_quiet ts (on_term a (join_resized cols rows) (snd (pool_of u ts)))"
      by (rule all_quiet_trans [OF all_quiet_same_heap all_quiet_on_term]) simp_all
    ultimately show ?thesis using attach_live [OF assms True, of u a] by simp
  qed (simp add: attach_def)
qed

lemma all_quiet_view: "all_quiet ts (snd (attach_view u i resume ts))"
proof -
  have "all_quiet ts (on_term a join_view (snd (pool_of u ts)))" for a
    by (rule all_quiet_trans [OF all_quiet_same_heap all_quiet_on_term]) simp_all
  then show ?thesis by (auto simp: attach_view_def Let_def all_quiet_same_heap split: option.splits)
qed

lemma all_quiet_read: "all_quiet ts (snd (current_size u i ts))" "all_quiet ts (snd (terminal_list u ts))"
  by (auto simp: current_size_def terminal_list_def split_def Let_def intro: all_quiet_same_heap)

lemma all_quiet_reset: "pools_ok ts \<Longrightarrow> all_quiet ts (terminal_reset u i ts)"
  by (simp add: reset_eq all_quiet_vacated)

end
