(* ===== verification/Pty.thy ===== *)
theory Pty
  imports Slots
begin

text \<open>
  The multiplexed WebSocket of the owner's page (\<open>src/src/pty.rs\<close>): its JSON control frames and tagged data
  frames, opening, closing and re-opening channels, input, resizing, and the forward task of each channel.

  The tasks of a connection interleave: its loop, one forward task for each channel, and the writer that takes frames
  from a queue of 512. Each step has a name. An arm of a select is one step, and so is each frame that is queued: the
  loop and the forward tasks await room in the queue, and meanwhile look at nothing else. A task that is aborted and
  awaited is gone in the same step; one that is only aborted goes on as a stray until it is. Where the loop awaits an
  abort or the blocking task of a spawn, the step is taken to be atomic: nothing it has at hand changes meanwhile.
  Parameters: the JSON parser of control frames, base64, the operating system's side of a spawn.
\<close>

subsection \<open>Frames\<close>

datatype frame = Text_frame string | Binary_frame "u8 list" | Close_frame

definition mode_str :: "attach_mode \<Rightarrow> string" where
  "mode_str m = (case m of Resume \<Rightarrow> ''resume'' | Replay \<Rightarrow> ''replay'')"

definition latin_char :: "u8 \<Rightarrow> char" where
  "latin_char b = char_of (unat b)"

abbreviation esc_str :: string where "esc_str \<equiv> [char_of (27 :: nat)]"
abbreviation backslash :: char where "backslash \<equiv> char_of (92 :: nat)"

definition init_json :: "u8 list \<Rightarrow> string" where
  "init_json init =
    (if init = [] then []
     else '',\"init\":\"'' @ str_replace esc_str (backslash # ''u001b'') (map latin_char init) @ ''\"'')"

definition term_member :: "nat option \<Rightarrow> string" where
  "term_member t = (case t of Some n \<Rightarrow> ''\"term\":'' @ show_nat n @ '','' | None \<Rightarrow> [])"

definition hello_json :: "nat option \<Rightarrow> attachment \<Rightarrow> string" where
  "hello_json t a =
     ''{\"type\":\"hello\",'' @ term_member t @ ''\"mode\":\"'' @ mode_str (at_mode a) @ ''\",\"epoch\":'' @
     show_nat (unat (at_epoch a)) @ '',\"offset\":'' @ show_nat (unat (at_base a)) @ init_json (at_init a) @ ''}''"

definition redraw_json :: "(u8 list \<Rightarrow> string) \<Rightarrow> nat option \<Rightarrow> redraw \<Rightarrow> string" where
  "redraw_json b64 t r =
     ''{\"type\":\"redraw\",'' @ term_member t @ ''\"cols\":'' @ show_nat (rd_cols r) @ '',\"rows\":'' @
     show_nat (rd_rows r) @ '',\"screen\":\"'' @ b64 (rd_screen r) @ ''\"}''"

definition closed_json :: "nat \<Rightarrow> string \<Rightarrow> string" where
  "closed_json t reason = ''{\"type\":\"closed\",\"term\":'' @ show_nat t @ '',\"reason\":\"'' @ reason @ ''\"}''"

text \<open>The slot index is cast to a byte.\<close>

definition tagged :: "nat \<Rightarrow> u8 list \<Rightarrow> u8 list" where
  "tagged t bytes = word_of_nat t # bytes"

definition valid_size :: "nat \<Rightarrow> nat \<Rightarrow> nat \<times> nat" where
  "valid_size cols rows = (clamp 2 500 cols, clamp 2 300 rows)"

subsection \<open>State\<close>

datatype control_frame =
    Open_ctl nat nat nat "u64 option" "u64 option" bool
  | Resize_ctl nat nat nat
  | Mode_ctl nat bool
  | Close_ctl nat

text \<open>What \<open>stream.next()\<close> may give.\<close>

datatype client_msg = Bin "u8 list" | Txt string | Closing | Read_error | Ended | Other_msg

text \<open>A channel holds a terminal of the heap; its forward task has a receiver, what its shutdown receiver has
  seen, whether it still runs, the frames it is about to queue, and whether it ends after the last of them.\<close>

record channel =
  ch_term :: nat
  ch_ro :: bool
  ch_pos :: nat
  ch_seen :: nat
  ch_run :: bool
  ch_hold :: "frame list"
  ch_last :: bool

definition channel_new :: "attachment \<Rightarrow> bool \<Rightarrow> channel" where
  "channel_new att ro =
    \<lparr>ch_term = at_term att, ch_ro = ro, ch_pos = at_pos att, ch_seen = at_seen att, ch_run = True, ch_hold = [], ch_last = False\<rparr>"

text \<open>What the connection's loop is at: its select, or waiting for room in the writer's queue for the frames that answer
  an open, after which the channel (if the open succeeded) is entered; or it has ended.\<close>

datatype main_phase = Serving | Queueing "frame list" "(nat \<times> channel) option" | Stopped

text \<open>\<open>mx_out\<close> are the frames queued so far, in order, of which the writer has taken the first \<open>mx_sent\<close>; \<open>mx_writer\<close>:
  the writer task still takes frames; \<open>mx_strays\<close>: forward tasks that were aborted and not awaited, which may go on
  until they next yield. \<open>mx_mixed\<close> is a ghost, read by nothing: the slots for which such a task has queued a frame
  since the last hello of the slot.\<close>

record mux =
  mx_user :: string
  mx_channels :: "(nat, channel) hmap"
  mx_strays :: "(nat \<times> channel) list"
  mx_out :: "frame list"
  mx_sent :: nat
  mx_writer :: bool
  mx_main :: main_phase
  mx_mixed :: "nat list"

definition mux_new :: "string \<Rightarrow> mux" where
  "mux_new user = \<lparr>mx_user = user, mx_channels = [], mx_strays = [], mx_out = [], mx_sent = 0, mx_writer = True,
     mx_main = Serving, mx_mixed = []\<rparr>"

definition mx_open :: "mux \<Rightarrow> bool" where
  "mx_open mx \<longleftrightarrow> mx_main mx \<noteq> Stopped"

text \<open>Queueing a frame fails when the writer is gone and waits (\<open>None\<close>) while the queue is full.\<close>

definition out_cap :: nat where "out_cap = 512"

definition out_send :: "frame \<Rightarrow> mux \<Rightarrow> (bool \<times> mux) option" where
  "out_send f mx =
    (if \<not> mx_writer mx then Some (False, mx)
     else if length (mx_out mx) - mx_sent mx < out_cap then Some (True, mx\<lparr>mx_out := mx_out mx @ [f]\<rparr>)
     else None)"

text \<open>A forward task that is gone has dropped its receivers.\<close>

definition stop_forward :: "channel \<Rightarrow> 's terminals \<Rightarrow> 's terminals" where
  "stop_forward ch ts = (if ch_run ch then on_term (ch_term ch) watch_drop ts else ts)"

text \<open>A channel that is opened again is aborted and awaited; one that is closed is aborted only.\<close>

definition replace_channel :: "nat \<Rightarrow> mux \<Rightarrow> 's terminals \<Rightarrow> mux \<times> 's terminals" where
  "replace_channel t mx ts =
    (case hm_get (mx_channels mx) t of
      None \<Rightarrow> (mx, ts)
    | Some ch \<Rightarrow> (mx\<lparr>mx_channels := hm_remove t (mx_channels mx)\<rparr>, stop_forward ch ts))"

definition close_channel :: "nat \<Rightarrow> mux \<Rightarrow> mux" where
  "close_channel t mx =
    (case hm_get (mx_channels mx) t of
      None \<Rightarrow> mx
    | Some ch \<Rightarrow> mx\<lparr>mx_channels := hm_remove t (mx_channels mx), mx_strays := mx_strays mx @ [(t, ch)]\<rparr>)"

text \<open>The loop ends: every channel is aborted. (The writer is aborted too; it is gone when it next yields.)\<close>

definition mux_end :: "mux \<Rightarrow> mux" where
  "mux_end mx = mx\<lparr>mx_channels := [], mx_strays := mx_strays mx @ mx_channels mx, mx_main := Stopped\<rparr>"

definition mux_input :: "u8 list \<Rightarrow> mux \<Rightarrow> 's terminals \<Rightarrow> mux \<times> 's terminals" where
  "mux_input b mx ts =
    (case b of
      [] \<Rightarrow> (mx, ts)
    | tag # payload \<Rightarrow>
       (case hm_get (mx_channels mx) (unat tag) of
         None \<Rightarrow> (mx, ts)
       | Some ch \<Rightarrow>
          if ch_ro ch then (mx, ts)
          else
            let a = ch_term ch; (ok, t') = try_send (Input payload) (ts_heap ts ! a)
            in if ok then (mx, on_term a (\<lambda>_. t') ts) else (mux_end mx, ts)))"

text \<open>An open, up to where the loop awaits the writer's queue. The operating system's side is \<open>None\<close> when the
  blocking task panicked.\<close>

definition mux_open_slot ::
  "'s emulator \<Rightarrow> spawn_os option \<Rightarrow> nat \<Rightarrow> nat \<Rightarrow> nat \<Rightarrow> u64 option \<Rightarrow> u64 option \<Rightarrow> bool \<Rightarrow> mux \<Rightarrow> 's terminals
    \<Rightarrow> mux \<times> 's terminals" where
  "mux_open_slot em os t cols rows epoch offset ro mx0 ts0 =
    (let (mx, ts) = replace_channel t mx0 ts0;
         resume = (case (epoch, offset) of (Some e, Some off) \<Rightarrow> Some (e, off) | _ \<Rightarrow> None);
         (c, r) = valid_size cols rows;
         (result, ts1) = (case os of
             None \<Rightarrow> (None, ts)
           | Some os' \<Rightarrow> (case attach em os' (mx_user mx) t c r resume ts of
               (Inr att, _, ts') \<Rightarrow> (Some att, ts')
             | (Inl e, _, ts') \<Rightarrow> (None, ts')))
     in (mx\<lparr>mx_main :=
           (case result of
             Some att \<Rightarrow> Queueing [Text_frame (hello_json (Some t) att), Binary_frame (tagged t (at_replay att))]
               (Some (t, channel_new att ro))
           | None \<Rightarrow> Queueing [Text_frame (closed_json t ''error'')] None)\<rparr>, ts1))"

text \<open>One awaited frame of the loop. When the writer is gone the loop ends and drops the new attachment.\<close>

definition main_send :: "mux \<Rightarrow> 's terminals \<Rightarrow> mux \<times> 's terminals" where
  "main_send mx ts =
    (case mx_main mx of
      Queueing (f # fs) opened \<Rightarrow>
       (case out_send f mx of
         None \<Rightarrow> (mx, ts)
       | Some (False, _) \<Rightarrow>
           (mux_end mx, case opened of None \<Rightarrow> ts | Some (_, ch) \<Rightarrow> on_term (ch_term ch) watch_drop ts)
       | Some (True, mx1) \<Rightarrow>
           let mixed = (case (opened, f) of (Some (t, _), Text_frame _) \<Rightarrow> filter (\<lambda>u. u \<noteq> t) (mx_mixed mx) | _ \<Rightarrow> mx_mixed mx);
               mx2 = mx1\<lparr>mx_mixed := mixed\<rparr>
           in if fs \<noteq> [] then (mx2\<lparr>mx_main := Queueing fs opened\<rparr>, ts)
              else (mx2\<lparr>mx_channels := (case opened of None \<Rightarrow> mx_channels mx | Some (t, ch) \<Rightarrow> hm_insert t ch (mx_channels mx)),
                 mx_main := Serving\<rparr>, ts))
    | _ \<Rightarrow> (mx, ts))"

definition mux_control ::
  "'s emulator \<Rightarrow> spawn_os option \<Rightarrow> control_frame \<Rightarrow> mux \<Rightarrow> 's terminals \<Rightarrow> mux \<times> 's terminals" where
  "mux_control em os ctl mx ts =
    (case ctl of
      Open_ctl t cols rows epoch offset ro \<Rightarrow> mux_open_slot em os t cols rows epoch offset ro mx ts
    | Resize_ctl t cols rows \<Rightarrow>
       (case hm_get (mx_channels mx) t of
         None \<Rightarrow> (mx, ts)
       | Some ch \<Rightarrow>
          if ch_ro ch then (mx, ts)
          else let (c, r) = valid_size cols rows
               in (mx, on_term (ch_term ch) (\<lambda>tm. snd (try_send (Resize_to c r) tm)) ts))
    | Mode_ctl t ro \<Rightarrow>
       (case hm_get (mx_channels mx) t of
         None \<Rightarrow> (mx, ts)
       | Some ch \<Rightarrow> (mx\<lparr>mx_channels := hm_insert t (ch\<lparr>ch_ro := ro\<rparr>) (mx_channels mx)\<rparr>, ts))
    | Close_ctl t \<Rightarrow> (close_channel t mx, ts))"

definition mux_message ::
  "(string \<Rightarrow> control_frame option) \<Rightarrow> 's emulator \<Rightarrow> spawn_os option \<Rightarrow> client_msg \<Rightarrow> mux \<Rightarrow> 's terminals
    \<Rightarrow> mux \<times> 's terminals" where
  "mux_message parse em os msg mx ts =
    (case msg of
      Bin b \<Rightarrow> mux_input b mx ts
    | Txt s \<Rightarrow> (case parse s of None \<Rightarrow> (mx, ts) | Some ctl \<Rightarrow> mux_control em os ctl mx ts)
    | Other_msg \<Rightarrow> (mx, ts)
    | _ \<Rightarrow> (mux_end mx, ts))"

subsection \<open>The forward task\<close>

text \<open>Each arm of its select says what it will queue; queueing is a step per frame, since every frame is awaited. A
  frame that cannot be queued because the writer is gone ends the task.\<close>

definition forward_end :: "channel \<Rightarrow> 's terminals \<Rightarrow> channel \<times> 's terminals" where
  "forward_end ch ts = (ch\<lparr>ch_run := False, ch_hold := []\<rparr>, on_term (ch_term ch) watch_drop ts)"

definition forward_redraw ::
  "(u8 list \<Rightarrow> string) \<Rightarrow> 's emulator \<Rightarrow> nat \<Rightarrow> nat \<Rightarrow> channel \<Rightarrow> 's terminals \<Rightarrow> channel \<times> 's terminals" where
  "forward_redraw b64 em k t ch ts =
    (let (r, pos', tm) = redraw_at em k (ch_pos ch) (ts_heap ts ! ch_term ch)
     in (ch\<lparr>ch_pos := pos', ch_last := rd_lagged r,
           ch_hold := map (\<lambda>b. Binary_frame (tagged t b)) (rd_pending r) @
             [Text_frame (if rd_lagged r then closed_json t ''error'' else redraw_json b64 (Some t) r)]\<rparr>,
         on_term (ch_term ch) (\<lambda>_. tm) ts))"

definition forward_shutdown :: "nat \<Rightarrow> channel \<Rightarrow> 's terminals \<Rightarrow> channel \<times> 's terminals" where
  "forward_shutdown t ch ts =
    (let tm = ts_heap ts ! ch_term ch
     in if tm_version tm = ch_seen ch then (ch, ts)
        else if tm_shutdown tm
        then (ch\<lparr>ch_seen := tm_version tm, ch_hold := [Text_frame (closed_json t ''exit'')], ch_last := True\<rparr>, ts)
        else (ch\<lparr>ch_seen := tm_version tm\<rparr>, ts))"

text \<open>The output channel is closed once both its senders are gone: the one of the reader thread, and the one of the
  terminal itself, dropped when it leaves its slot.\<close>

definition output_closed :: "nat \<Rightarrow> 's terminals \<Rightarrow> bool" where
  "output_closed a ts \<longleftrightarrow>
     tm_read (ts_heap ts ! a) = Gone \<and> list_all (\<lambda>p. Some a \<notin> set p) (hm_values (ts_pools ts))"

definition forward_output :: "nat \<Rightarrow> channel \<Rightarrow> 's terminals \<Rightarrow> channel \<times> 's terminals" where
  "forward_output t ch ts =
    (case try_recv (tm_log (ts_heap ts ! ch_term ch)) (ch_pos ch) of
      (Chunk b, pos') \<Rightarrow> (ch\<lparr>ch_pos := pos', ch_hold := [Binary_frame (tagged t b)]\<rparr>, ts)
    | (Lagged, pos') \<Rightarrow> (ch\<lparr>ch_pos := pos', ch_hold := [Text_frame (closed_json t ''error'')], ch_last := True\<rparr>, ts)
    | (Empty, _) \<Rightarrow> if output_closed (ch_term ch) ts then forward_end ch ts else (ch, ts))"

definition forward_send :: "channel \<Rightarrow> mux \<Rightarrow> 's terminals \<Rightarrow> channel \<times> mux \<times> 's terminals" where
  "forward_send ch mx ts =
    (case ch_hold ch of
      [] \<Rightarrow> (ch, mx, ts)
    | f # fs \<Rightarrow>
       (case out_send f mx of
         None \<Rightarrow> (ch, mx, ts)
       | Some (ok, mx1) \<Rightarrow>
           if ok \<and> \<not> (fs = [] \<and> ch_last ch) then (ch\<lparr>ch_hold := fs\<rparr>, mx1, ts)
           else let (ch1, ts1) = forward_end ch ts in (ch1, mx1, ts1)))"

inductive task_act ::
  "(u8 list \<Rightarrow> string) \<Rightarrow> 's emulator \<Rightarrow> nat \<Rightarrow> channel \<times> mux \<times> 's terminals \<Rightarrow> channel \<times> mux \<times> 's terminals \<Rightarrow> bool"
  for b64 em t where
  a_redraw: "ch_hold ch = [] \<Longrightarrow> forward_redraw b64 em k t ch ts = (ch', ts') \<Longrightarrow> task_act b64 em t (ch, mx, ts) (ch', mx, ts')"
| a_shutdown: "ch_hold ch = [] \<Longrightarrow> forward_shutdown t ch ts = (ch', ts') \<Longrightarrow> task_act b64 em t (ch, mx, ts) (ch', mx, ts')"
| a_output: "ch_hold ch = [] \<Longrightarrow> forward_output t ch ts = (ch', ts') \<Longrightarrow> task_act b64 em t (ch, mx, ts) (ch', mx, ts')"
| a_send: "ch_hold ch \<noteq> [] \<Longrightarrow> forward_send ch mx ts = (ch', mx', ts') \<Longrightarrow> task_act b64 em t (ch, mx, ts) (ch', mx', ts')"

subsection \<open>Steps of a connection\<close>

text \<open>What the tasks of one connection do, each step with its name: a message is handled, the deadline or the revocation
  is seen (\<open>due\<close> says whether one of them is there), the loop queues a frame, the writer takes one or goes away, a forward
  task acts, an aborted one acts or is gone. The loop looks at messages, deadline and revocation only in its select.\<close>

datatype mux_event = Got client_msg | Saw_due | Queues | Writes | Writer_gone | Forwards nat | Strays

inductive mux_act ::
  "(string \<Rightarrow> control_frame option) \<Rightarrow> (u8 list \<Rightarrow> string) \<Rightarrow> 's emulator \<Rightarrow> bool \<Rightarrow> mux_event
    \<Rightarrow> mux \<times> 's terminals \<Rightarrow> mux \<times> 's terminals \<Rightarrow> bool"
  for parse b64 em due where
  m_message: "mx_main mx = Serving \<Longrightarrow> mux_act parse b64 em due (Got msg) (mx, ts) (mux_message parse em os msg mx ts)"
| m_due: "mx_main mx = Serving \<Longrightarrow> due \<Longrightarrow> mux_act parse b64 em due Saw_due (mx, ts) (mux_end mx, ts)"
| m_queue: "mx_main mx = Queueing fs opened \<Longrightarrow> mux_act parse b64 em due Queues (mx, ts) (main_send mx ts)"
| m_write: "mx_writer mx \<Longrightarrow> mx_sent mx < length (mx_out mx) \<Longrightarrow>
    mux_act parse b64 em due Writes (mx, ts) (mx\<lparr>mx_sent := Suc (mx_sent mx)\<rparr>, ts)"
| m_writer_gone: "mux_act parse b64 em due Writer_gone (mx, ts) (mx\<lparr>mx_writer := False\<rparr>, ts)"
| m_task: "hm_get (mx_channels mx) t = Some ch \<Longrightarrow> ch_run ch \<Longrightarrow> task_act b64 em t (ch, mx, ts) (ch', mx', ts') \<Longrightarrow>
    mux_act parse b64 em due (Forwards t) (mx, ts) (mx'\<lparr>mx_channels := hm_insert t ch' (mx_channels mx)\<rparr>, ts')"
| m_stray: "i < length (mx_strays mx) \<Longrightarrow> mx_strays mx ! i = (t, ch) \<Longrightarrow> ch_run ch \<Longrightarrow>
    task_act b64 em t (ch, mx, ts) (ch', mx', ts') \<Longrightarrow>
    mux_act parse b64 em due Strays (mx, ts) (mx'\<lparr>mx_strays := (mx_strays mx)[i := (t, ch')],
      mx_mixed := (if mx_out mx' = mx_out mx then mx_mixed mx else t # mx_mixed mx)\<rparr>, ts')"
| m_gone: "i < length (mx_strays mx) \<Longrightarrow> mx_strays mx ! i = (t, ch) \<Longrightarrow>
    mux_act parse b64 em due Strays (mx, ts)
      (mx\<lparr>mx_strays := take i (mx_strays mx) @ drop (Suc i) (mx_strays mx)\<rparr>, stop_forward ch ts)"

inductive_cases mux_actE: "mux_act parse b64 em due e s s'"

text \<open>A connection and the rest of the program taking turns.\<close>

inductive mux_step ::
  "(string \<Rightarrow> control_frame option) \<Rightarrow> (u8 list \<Rightarrow> string) \<Rightarrow> 's emulator \<Rightarrow> mux \<times> 's terminals \<Rightarrow> mux \<times> 's terminals \<Rightarrow> bool"
  for parse b64 em where
  m_act: "mux_act parse b64 em due e s s' \<Longrightarrow> mux_step parse b64 em s s'"
| m_world: "slots_step em ts ts' \<Longrightarrow> mux_step parse b64 em (mx, ts) (mx, ts')"

inductive_cases mux_stepE: "mux_step parse b64 em s s'"

subsection \<open>What the client of a slot has seen\<close>

definition is_hello :: "nat \<Rightarrow> string \<Rightarrow> bool" where
  "is_hello t s \<longleftrightarrow> starts_with (''{\"type\":\"hello\",'' @ term_member (Some t)) s"

text \<open>A client resets at a hello for its slot and then collects the payloads of the slot's frames.\<close>

fun view_frame :: "nat \<Rightarrow> string option \<times> u8 list \<Rightarrow> frame \<Rightarrow> string option \<times> u8 list" where
  "view_frame t (h, acc) (Text_frame s) = (if is_hello t s then (Some s, []) else (h, acc))"
| "view_frame t (h, acc) (Binary_frame (tag # payload)) = (h, if unat tag = t then acc @ payload else acc)"
| "view_frame t (h, acc) (Binary_frame []) = (h, acc)"
| "view_frame t (h, acc) Close_frame = (h, acc)"

definition client_view :: "nat \<Rightarrow> frame list \<Rightarrow> string option \<times> u8 list" where
  "client_view t out = foldl (view_frame t) (None, []) out"

lemma client_view_snoc [simp]: "client_view t (out @ [f]) = view_frame t (client_view t out) f"
  by (simp add: client_view_def)

lemma digits_comma:
  assumes "show_nat t @ CHR '','' # r = show_nat u @ CHR '','' # r'"
  shows "t = u"
proof -
  have free: "CHR '','' \<notin> set (show_nat n)" for n
    by (rule show_nat_free) (simp add: is_ascii_digit_def code_def)
  have "split_once CHR '','' (show_nat t @ CHR '','' # r) = split_once CHR '','' (show_nat u @ CHR '','' # r')"
    using assms by simp
  then show ?thesis using free show_nat_inj by (simp add: split_once_append)
qed

lemma is_hello_hello [simp]: "is_hello t (hello_json (Some u) a) \<longleftrightarrow> t = u"
  by (auto simp: is_hello_def hello_json_def term_member_def starts_with_iff dest: digits_comma)

lemma not_hello [simp]: "\<not> is_hello t (closed_json u reason)" "\<not> is_hello t (redraw_json b64 v r)"
  by (simp_all add: is_hello_def closed_json_def redraw_json_def starts_with_iff term_member_def)

lemma view_tagged:
  "t < 256 \<Longrightarrow> u < 256 \<Longrightarrow> view_frame t v (Binary_frame (tagged u b)) = (fst v, if u = t then snd v @ b else snd v)"
  by (cases v) (simp add: tagged_def unat_of_nat take_bit_eq_mod)

lemma view_tagged_list:
  "t < 256 \<Longrightarrow> u < 256 \<Longrightarrow> client_view t (out @ map (\<lambda>b. Binary_frame (tagged u b)) bs) =
    (fst (client_view t out), if u = t then snd (client_view t out) @ concat bs else snd (client_view t out))"
proof (induction bs arbitrary: out)
  case Nil
  then show ?case by simp
next
  case (Cons b bs)
  from Cons.IH [of "out @ [Binary_frame (tagged u b)]"] Cons.prems show ?case
    by (simp add: view_tagged)
qed

lemma view_text [simp]:
  "\<not> is_hello t s \<Longrightarrow> view_frame t v (Text_frame s) = v"
  by (cases v) simp

text \<open>What a task of the slot \<open>t\<close> queues changes nothing for the client of another slot.\<close>

definition task_frame :: "nat \<Rightarrow> frame \<Rightarrow> bool" where
  "task_frame t f \<longleftrightarrow> (\<exists>b. f = Binary_frame (tagged t b)) \<or> (\<exists>s. f = Text_frame s \<and> (\<forall>u. \<not> is_hello u s))"

lemma task_frames [simp]:
  "task_frame t (Binary_frame (tagged t b))" "task_frame t (Text_frame (closed_json u reason))"
  "task_frame t (Text_frame (redraw_json b64 v r))"
  by (auto simp: task_frame_def)

lemma client_view_append: "client_view t (out @ fs) = foldl (view_frame t) (client_view t out) fs"
  by (simp add: client_view_def)

lemma view_other: "task_frame u f \<Longrightarrow> t < 256 \<Longrightarrow> u < 256 \<Longrightarrow> t \<noteq> u \<Longrightarrow> view_frame t v f = v"
  by (auto simp: task_frame_def view_tagged)

lemma view_hello: "client_view t (out @ Text_frame (hello_json (Some t) a) # fs) = foldl (view_frame t) (Some (hello_json (Some t) a), []) fs"
  by (cases "client_view t out") (simp add: client_view_append)

text \<open>The channel of slot \<open>t\<close> is in step with its terminal.\<close>

definition in_stream :: "nat \<Rightarrow> frame list \<Rightarrow> channel \<Rightarrow> 's terminals \<Rightarrow> bool" where
  "in_stream t out ch ts \<longleftrightarrow>
     (let tm = ts_heap ts ! ch_term ch in
      ch_pos ch \<le> length (tm_log tm) \<and>
      (length (concat (tm_log tm)) < 2 ^ 64 \<longrightarrow>
        (\<exists>att. fst (client_view t out) = Some (hello_json (Some t) att) \<and> at_epoch att = tm_epoch tm \<and>
          snd (client_view t out) = drop (unat (at_base att)) (concat (take (ch_pos ch) (tm_log tm))) \<and>
          unat (at_base att) \<le> length (concat (take (ch_pos ch) (tm_log tm))))))"

text \<open>What holds of every forward task; and what holds of one that is not about to end, if no stray task has mixed frames
  into its slot.\<close>

definition task_ok :: "string \<Rightarrow> nat \<Rightarrow> channel \<Rightarrow> 's terminals \<Rightarrow> bool" where
  "task_ok user t ch ts \<longleftrightarrow> t < 256 \<and> ch_term ch < length (ts_heap ts) \<and>
     (\<forall>v j. slot_of ts v j = Some (ch_term ch) \<longrightarrow> v = user \<and> j = t) \<and> list_all (task_frame t) (ch_hold ch) \<and>
     (ch_run ch \<longrightarrow> ch_pos ch \<le> length (tm_log (ts_heap ts ! ch_term ch)) \<and> (ch_last ch \<longrightarrow> ch_hold ch \<noteq> []))"

definition channel_ok :: "string \<Rightarrow> nat list \<Rightarrow> nat \<Rightarrow> frame list \<Rightarrow> channel \<Rightarrow> 's terminals \<Rightarrow> bool" where
  "channel_ok user mixed t out ch ts \<longleftrightarrow> task_ok user t ch ts \<and>
     (ch_run ch \<and> \<not> ch_last ch \<and> t \<notin> set mixed \<longrightarrow> in_stream t (out @ ch_hold ch) ch ts)"

text \<open>The frames of an open that waits: hello and replay, or what is left of them; or the answer to a failed one.\<close>

definition opening_ok :: "mux \<Rightarrow> 's terminals \<Rightarrow> bool" where
  "opening_ok mx ts \<longleftrightarrow>
     (case mx_main mx of
       Queueing fs None \<Rightarrow> \<exists>t reason. fs = [Text_frame (closed_json t reason)]
     | Queueing fs (Some (t, ch)) \<Rightarrow> task_ok (mx_user mx) t ch ts \<and> ch_hold ch = [] \<and> hm_get (mx_channels mx) t = None \<and>
         (\<exists>a b. (fs = [Text_frame (hello_json (Some t) a), Binary_frame (tagged t b)] \<and> in_stream t (mx_out mx @ fs) ch ts) \<or>
            (fs = [Binary_frame (tagged t b)] \<and> (t \<notin> set (mx_mixed mx) \<longrightarrow> in_stream t (mx_out mx @ fs) ch ts)))
     | _ \<Rightarrow> True)"

definition mux_ok :: "mux \<Rightarrow> 's terminals \<Rightarrow> bool" where
  "mux_ok mx ts \<longleftrightarrow> pools_ok ts \<and> ts_slots ts \<le> 256 \<and> hm_ok (mx_channels mx) \<and>
     (\<forall>t ch. hm_get (mx_channels mx) t = Some ch \<longrightarrow> channel_ok (mx_user mx) (mx_mixed mx) t (mx_out mx) ch ts) \<and>
     (\<forall>(t, ch) \<in> set (mx_strays mx). task_ok (mx_user mx) t ch ts) \<and> opening_ok mx ts \<and>
     mx_sent mx \<le> length (mx_out mx) \<and> length (mx_out mx) \<le> mx_sent mx + out_cap"

lemma in_stream_grows:
  assumes "in_stream t out ch ts" "grows ts ts'" "ch_term ch < length (ts_heap ts)"
  shows "in_stream t out ch ts'"
proof -
  obtain ds where "tm_log (ts_heap ts' ! ch_term ch) = tm_log (ts_heap ts ! ch_term ch) @ ds"
    "tm_epoch (ts_heap ts' ! ch_term ch) = tm_epoch (ts_heap ts ! ch_term ch)"
    using assms(2,3) by (auto simp: grows_def)
  then show ?thesis using assms(1) by (auto simp: in_stream_def Let_def)
qed

lemma in_stream_output:
  assumes "in_stream t out ch ts" "t < 256" "pos' \<le> length (tm_log (ts_heap ts ! ch_term ch))"
    and "take pos' (tm_log (ts_heap ts ! ch_term ch)) = take (ch_pos ch) (tm_log (ts_heap ts ! ch_term ch)) @ bs"
    and "ch_term ch' = ch_term ch" "ch_pos ch' = pos'"
  shows "in_stream t (out @ map (\<lambda>b. Binary_frame (tagged t b)) bs) ch' ts"
  using assms by (auto simp: in_stream_def Let_def view_tagged_list)

lemma in_stream_cong:
  "client_view t out' = client_view t out \<Longrightarrow> ch_term ch' = ch_term ch \<Longrightarrow> ch_pos ch' = ch_pos ch \<Longrightarrow>
   in_stream t out' ch' ts = in_stream t out ch ts"
  by (simp add: in_stream_def)

subsection \<open>The connection stays in step\<close>

lemma task_ok_extends: "task_ok u t ch ts \<Longrightarrow> extends ts ts' \<Longrightarrow> task_ok u t ch ts'"
  unfolding task_ok_def extends_def grows_def
  by (auto intro: less_le_trans) (metis le_add1 length_append order_trans | blast)+

lemma channel_ok_extends: "channel_ok u mixed t out ch ts \<Longrightarrow> extends ts ts' \<Longrightarrow> channel_ok u mixed t out ch ts'"
  using task_ok_extends [of u t ch ts ts'] in_stream_grows [of t "out @ ch_hold ch" ch ts ts']
  by (auto simp: channel_ok_def extends_def task_ok_def)

lemma opening_ok_extends: "opening_ok mx ts \<Longrightarrow> extends ts ts' \<Longrightarrow> opening_ok mx ts'"
proof -
  assume o: "opening_ok mx ts" and e: "extends ts ts'"
  have "in_stream t out ch ts'" if "in_stream t out ch ts" "task_ok (mx_user mx) t ch ts" for t out ch
    using in_stream_grows [OF that(1)] that(2) e by (auto simp: extends_def task_ok_def)
  then show ?thesis using o task_ok_extends [OF _ e]
    by (auto simp: opening_ok_def split: main_phase.splits option.splits)
qed

lemma channel_ok_view:
  "client_view t out' = client_view t out \<Longrightarrow> set mixed \<subseteq> insert u (set mixed') \<Longrightarrow> u \<noteq> t \<Longrightarrow>
   channel_ok v mixed t out ch ts \<Longrightarrow> channel_ok v mixed' t out' ch ts"
  using in_stream_cong [of t "out' @ ch_hold ch" "out @ ch_hold ch" ch ch ts]
  by (auto simp: channel_ok_def client_view_append)

lemma channel_ok_ro: "channel_ok u mixed t out ch ts \<Longrightarrow> channel_ok u mixed t out (ch\<lparr>ch_ro := b\<rparr>) ts"
  by (simp add: channel_ok_def task_ok_def in_stream_def)

lemma mux_okD:
  "mux_ok mx ts \<Longrightarrow> pools_ok ts"
  "mux_ok mx ts \<Longrightarrow> hm_get (mx_channels mx) t = Some ch \<Longrightarrow> channel_ok (mx_user mx) (mx_mixed mx) t (mx_out mx) ch ts"
  "mux_ok mx ts \<Longrightarrow> hm_get (mx_channels mx) t = Some ch \<Longrightarrow> task_ok (mx_user mx) t ch ts"
  "mux_ok mx ts \<Longrightarrow> (t, ch) \<in> set (mx_strays mx) \<Longrightarrow> task_ok (mx_user mx) t ch ts"
  "mux_ok mx ts \<Longrightarrow> opening_ok mx ts"
  by (auto simp: mux_ok_def channel_ok_def)

lemma task_okD: "task_ok u t ch ts \<Longrightarrow> t < 256 \<and> ch_term ch < length (ts_heap ts)"
  by (simp add: task_ok_def)

lemma mux_okI:
  "mux_ok mx ts \<Longrightarrow> mx_user mx' = mx_user mx \<Longrightarrow> hm_ok (mx_channels mx') \<Longrightarrow>
   (\<And>t ch. hm_get (mx_channels mx') t = Some ch \<Longrightarrow> channel_ok (mx_user mx) (mx_mixed mx') t (mx_out mx') ch ts) \<Longrightarrow>
   (\<And>t ch. (t, ch) \<in> set (mx_strays mx') \<Longrightarrow> (t, ch) \<in> set (mx_strays mx) \<or> task_ok (mx_user mx) t ch ts) \<Longrightarrow>
   opening_ok mx' ts \<Longrightarrow> mx_sent mx' \<le> length (mx_out mx') \<Longrightarrow> length (mx_out mx') \<le> mx_sent mx' + out_cap \<Longrightarrow> mux_ok mx' ts"
  by (fastforce simp: mux_ok_def)

lemma mux_ok_extends: "mux_ok mx ts \<Longrightarrow> extends ts ts' \<Longrightarrow> mux_ok mx ts'"
  using channel_ok_extends [of _ _ _ _ _ ts ts'] task_ok_extends [of _ _ _ ts ts'] opening_ok_extends [of mx ts ts']
  unfolding mux_ok_def by (auto simp: extends_def)

lemma opening_ok_cong:
  "mx_main mx' = mx_main mx \<Longrightarrow> mx_user mx' = mx_user mx \<Longrightarrow> mx_channels mx' = mx_channels mx \<Longrightarrow> mx_out mx' = mx_out mx \<Longrightarrow>
   mx_mixed mx' = mx_mixed mx \<Longrightarrow> opening_ok mx' ts = opening_ok mx ts"
  by (simp add: opening_ok_def split: main_phase.split option.split)

lemma mux_ok_writer [simp]: "mux_ok (mx\<lparr>mx_writer := b\<rparr>) ts = mux_ok mx ts"
  using opening_ok_cong [of "mx\<lparr>mx_writer := b\<rparr>" mx ts] by (simp add: mux_ok_def)

lemma opening_ok_idle [simp]: "mx_main mx = Serving \<Longrightarrow> opening_ok mx ts" "mx_main mx = Stopped \<Longrightarrow> opening_ok mx ts"
  by (simp_all add: opening_ok_def)

lemma stop_forward_extends:
  assumes "pools_ok ts" "ch_term ch < length (ts_heap ts)"
  shows "extends ts (stop_forward ch ts)"
  using assms pools_okD(3) [OF assms] by (auto simp: stop_forward_def intro!: extends_on_term extends_refl)

lemma replace_channel_ok:
  assumes "mux_ok mx ts" "mx_main mx = Serving"
  shows "case replace_channel t mx ts of (mx', ts') \<Rightarrow> mux_ok mx' ts' \<and> extends ts ts' \<and>
    hm_get (mx_channels mx') t = None \<and> mx_out mx' = mx_out mx \<and> mx_user mx' = mx_user mx \<and> mx_main mx' = mx_main mx"
proof (cases "hm_get (mx_channels mx) t")
  case None
  then show ?thesis using assms mux_okD(1) [OF assms(1)] by (simp add: replace_channel_def extends_refl)
next
  case (Some ch)
  have ext: "extends ts (stop_forward ch ts)"
    using mux_okD(1,3) [OF assms(1)] Some task_okD by (blast intro: stop_forward_extends)
  have "mux_ok (mx\<lparr>mx_channels := hm_remove t (mx_channels mx)\<rparr>) ts"
    using assms by (auto simp: mux_ok_def hm_laws split: if_splits)
  then show ?thesis using Some mux_ok_extends [OF _ ext] ext assms(2)
    by (simp add: replace_channel_def hm_laws)
qed

lemma close_channel_ok:
  assumes "mux_ok mx ts" "mx_main mx = Serving"
  shows "mux_ok (close_channel t mx) ts"
proof (cases "hm_get (mx_channels mx) t")
  case (Some ch)
  then show ?thesis
    using assms mux_okD(3) [OF assms(1) Some] by (auto simp: close_channel_def mux_ok_def hm_laws split: if_splits)
qed (use assms in \<open>simp add: close_channel_def\<close>)

lemma mux_end_ok: "mux_ok mx ts \<Longrightarrow> mux_ok (mux_end mx) ts"
  using mux_okD(3) by (fastforce simp: mux_end_def mux_ok_def hm_get_mem opening_ok_def channel_ok_def)

subsection \<open>A forward task\<close>

lemma out_sendD:
  "out_send f mx = Some (True, mx1) \<Longrightarrow> mx_writer mx \<and> length (mx_out mx) - mx_sent mx < out_cap \<and> mx1 = mx\<lparr>mx_out := mx_out mx @ [f]\<rparr>"
  "out_send f mx = Some (False, mx1) \<Longrightarrow> \<not> mx_writer mx \<and> mx1 = mx"
  by (auto simp: out_send_def split: if_splits)

lemma forward_end_ok:
  assumes "task_ok u t ch ts" "pools_ok ts" "forward_end ch ts = (ch', ts')"
  shows "extends ts ts' \<and> task_ok u t ch' ts' \<and> \<not> ch_run ch'"
proof -
  have "extends ts ts'"
    using assms task_okD [OF assms(1)] pools_okD(3) by (auto simp: forward_end_def intro!: extends_on_term)
  moreover have "task_ok u t ch' ts" using assms(1,3) by (auto simp: forward_end_def task_ok_def)
  ultimately show ?thesis using task_ok_extends assms(3) by (auto simp: forward_end_def)
qed

lemma try_recv_cases:
  "try_recv log pos = (Chunk b, pos') \<Longrightarrow> pos' = Suc pos \<and> pos < length log \<and> take pos' log = take pos log @ [b]"
  by (auto simp: try_recv_def take_Suc_conv_app_nth split: if_splits)

text \<open>One arm of the select: what the task is about to queue keeps it in step.\<close>

definition arm_ok :: "string \<Rightarrow> nat \<Rightarrow> frame list \<Rightarrow> channel \<Rightarrow> 's terminals \<Rightarrow> channel \<Rightarrow> 's terminals \<Rightarrow> bool" where
  "arm_ok u t out ch ts ch' ts' \<longleftrightarrow> extends ts ts' \<and> task_ok u t ch' ts' \<and> ch_term ch' = ch_term ch \<and> ch_ro ch' = ch_ro ch \<and>
     (ch_run ch' \<and> \<not> ch_last ch' \<longrightarrow> in_stream t (out @ ch_hold ch) ch ts \<longrightarrow> in_stream t (out @ ch_hold ch') ch' ts')"

lemma forward_output_ok:
  assumes "task_ok u t ch ts" "pools_ok ts" "ch_hold ch = []" "ch_run ch" "forward_output t ch ts = (ch', ts')"
  shows "arm_ok u t out ch ts ch' ts'"
proof -
  let ?log = "tm_log (ts_heap ts ! ch_term ch)"
  obtain r pos' where r: "try_recv ?log (ch_pos ch) = (r, pos')" by (rule prod.exhaust)
  show ?thesis
  proof (cases r)
    case (Chunk b)
    note rec = try_recv_cases [OF r [unfolded Chunk]]
    have new: "ch' = ch\<lparr>ch_pos := pos', ch_hold := [Binary_frame (tagged t b)]\<rparr>" "ts' = ts"
      using assms(5) r Chunk by (simp_all add: forward_output_def)
    have "in_stream t (out @ map (\<lambda>b. Binary_frame (tagged t b)) [b]) ch' ts" if "in_stream t out ch ts"
      using that rec task_okD [OF assms(1)] by (intro in_stream_output [where pos' = pos']) (auto simp: new)
    then show ?thesis using assms(1-3) rec by (simp add: arm_ok_def new task_ok_def)
  next
    case Lagged
    then have new: "ch' = ch\<lparr>ch_pos := pos', ch_hold := [Text_frame (closed_json t ''error'')], ch_last := True\<rparr>" "ts' = ts"
      and "pos' \<le> length ?log"
      using assms(5) r by (auto simp: forward_output_def try_recv_def split: if_splits)
    then show ?thesis using assms(1-3) by (simp add: arm_ok_def task_ok_def)
  next
    case Empty
    then show ?thesis
      using forward_end_ok [OF assms(1,2)] assms r by (auto simp: arm_ok_def forward_output_def forward_end_def split: if_splits)
  qed
qed

lemma forward_shutdown_ok:
  assumes "task_ok u t ch ts" "pools_ok ts" "ch_hold ch = []" "ch_run ch" "forward_shutdown t ch ts = (ch', ts')"
  shows "arm_ok u t out ch ts ch' ts'"
  using assms by (auto simp: arm_ok_def forward_shutdown_def Let_def task_ok_def in_stream_def split: if_splits)

lemma redraw_at_fields:
  assumes "redraw_at em k pos t = (r, pos', t')" "pos \<le> length (tm_log t)"
  shows "t' = t\<lparr>tm_sb := snd (screen_snapshot em k (tm_sb t))\<rparr>"
    and "rd_lagged r \<Longrightarrow> rd_pending r = []"
    and "\<not> rd_lagged r \<Longrightarrow> pos' = length (tm_log t) \<and> tm_log t = take pos (tm_log t) @ rd_pending r"
    and "pos' \<le> length (tm_log t)"
proof -
  have cases: "pos' \<le> length (tm_log t) \<and> (rd_lagged r \<longrightarrow> rd_pending r = []) \<and>
      (\<not> rd_lagged r \<longrightarrow> pos' = length (tm_log t) \<and> tm_log t = take pos (tm_log t) @ rd_pending r)"
    using assms drain_within [of "tm_log t" pos] drain_lagged [of "tm_log t" pos]
    by (cases "channel_cap < length (tm_log t) - pos")
      (auto simp: redraw_at_def split_def Let_def max_def)
  then show "pos' \<le> length (tm_log t)" "rd_lagged r \<Longrightarrow> rd_pending r = []"
    "\<not> rd_lagged r \<Longrightarrow> pos' = length (tm_log t) \<and> tm_log t = take pos (tm_log t) @ rd_pending r" by blast+
  show "t' = t\<lparr>tm_sb := snd (screen_snapshot em k (tm_sb t))\<rparr>"
    using assms(1) by (auto simp: redraw_at_def split_def Let_def)
qed

lemma snapshot_extends:
  assumes "pools_ok ts" "a < length (ts_heap ts)"
  shows "extends ts (on_term a (\<lambda>_. (ts_heap ts ! a)\<lparr>tm_sb := snd (screen_snapshot em k (tm_sb (ts_heap ts ! a)))\<rparr>) ts)"
proof (rule slots_step_extends [OF p_term [OF assms(2)] assms(1)])
  show "term_step em (ts_heap ts ! a) ((ts_heap ts ! a)\<lparr>tm_sb := snd (screen_snapshot em k (tm_sb (ts_heap ts ! a)))\<rparr>)"
    by (rule s_snapshot)
qed

lemma forward_redraw_ok:
  assumes "task_ok u t ch ts" "pools_ok ts" "ch_hold ch = []" "ch_run ch" "forward_redraw b64 em k t ch ts = (ch', ts')"
  shows "arm_ok u t out ch ts ch' ts'"
proof -
  let ?t = "ts_heap ts ! ch_term ch"
  have ch: "ch_pos ch \<le> length (tm_log ?t)" "ch_term ch < length (ts_heap ts)" "t < 256"
    using assms(1,4) by (simp_all add: task_ok_def)
  obtain r pos' tm where r: "redraw_at em k (ch_pos ch) ?t = (r, pos', tm)" by (rule prod_cases3)
  note rd = redraw_at_fields [OF r ch(1)]
  let ?last = "Text_frame (if rd_lagged r then closed_json t ''error'' else redraw_json b64 (Some t) r)"
  have new: "ch' = ch\<lparr>ch_pos := pos', ch_last := rd_lagged r,
      ch_hold := map (\<lambda>b. Binary_frame (tagged t b)) (rd_pending r) @ [?last]\<rparr>" "ts' = on_term (ch_term ch) (\<lambda>_. tm) ts"
    using assms(5) by (simp_all add: forward_redraw_def r)
  have ext: "extends ts ts'" unfolding new(2) rd(1) using assms(2) ch(2) by (rule snapshot_extends)
  have same: "tm_log (ts_heap ts' ! ch_term ch) = tm_log ?t" using ch(2) by (simp add: new(2) on_term_heap rd(1))
  have "task_ok u t ch' ts'"
    using task_ok_extends [OF assms(1) ext] rd(4) same by (auto simp: task_ok_def new(1) list_all_iff)
  moreover have "in_stream t (out @ ch_hold ch') ch' ts'" if "\<not> rd_lagged r" "in_stream t (out @ ch_hold ch) ch ts"
  proof -
    have "in_stream t out ch ts'" using that(2) in_stream_grows [OF _ _ ch(2)] ext assms(3) by (simp add: extends_def)
    from in_stream_output [OF this ch(3), of "length (tm_log ?t)" "rd_pending r" ch'] rd(3) [OF that(1)]
    have "in_stream t (out @ map (\<lambda>b. Binary_frame (tagged t b)) (rd_pending r)) ch' ts'" by (simp add: same) (simp add: new(1))
    then show ?thesis
      by (rule in_stream_cong [THEN iffD2, rotated -1]) (simp_all add: new(1) append_assoc [symmetric] del: append_assoc)
  qed
  ultimately show ?thesis using ext by (auto simp: arm_ok_def new(1))
qed

lemma forward_send_ok:
  assumes "task_ok u t ch ts" "pools_ok ts" "ch_hold ch \<noteq> []" "forward_send ch mx ts = (ch', mx', ts')"
  shows "extends ts ts' \<and> task_ok u t ch' ts' \<and> ch_term ch' = ch_term ch \<and> ch_ro ch' = ch_ro ch \<and>
    (mx' = mx \<or> (\<exists>f. task_frame t f \<and> length (mx_out mx) - mx_sent mx < out_cap \<and> mx' = mx\<lparr>mx_out := mx_out mx @ [f]\<rparr>)) \<and>
    (ch_run ch' \<longrightarrow> ch_last ch' = ch_last ch \<and> ch_pos ch' = ch_pos ch \<and> ts' = ts \<and> mx_out mx' @ ch_hold ch' = mx_out mx @ ch_hold ch)"
proof -
  obtain f fs where h: "ch_hold ch = f # fs" using assms(3) by (cases "ch_hold ch") auto
  then have f: "task_frame t f" "list_all (task_frame t) fs" using assms(1) by (simp_all add: task_ok_def)
  have e: "extends ts ts1 \<and> task_ok u t ch1 ts1 \<and> \<not> ch_run ch1 \<and> ch_term ch1 = ch_term ch \<and> ch_ro ch1 = ch_ro ch"
    if "forward_end ch ts = (ch1, ts1)" for ch1 ts1
    using forward_end_ok [OF assms(1,2) that] that by (auto simp: forward_end_def)
  show ?thesis
  proof (cases "out_send f mx")
    case None
    then show ?thesis using assms(1,2,4) h by (auto simp: forward_send_def)
  next
    case (Some a)
    obtain ok mx1 where a: "a = (ok, mx1)" by (rule prod.exhaust)
    have mx1: "mx1 = mx \<or> (\<exists>f. task_frame t f \<and> length (mx_out mx) - mx_sent mx < out_cap \<and> mx1 = mx\<lparr>mx_out := mx_out mx @ [f]\<rparr>)"
      using Some a f(1) out_sendD [of f mx mx1] by (cases ok) auto
    show ?thesis
    proof (cases "ok \<and> \<not> (fs = [] \<and> ch_last ch)")
      case True
      then have "ch' = ch\<lparr>ch_hold := fs\<rparr>" "mx' = mx1" "ts' = ts" "mx1 = mx\<lparr>mx_out := mx_out mx @ [f]\<rparr>"
        using assms(4) h Some a out_sendD(1) [of f mx mx1] by (auto simp: forward_send_def)
      then show ?thesis using assms(1,2) f mx1 h True by (auto simp: task_ok_def)
    next
      case False
      then have "forward_end ch ts = (ch', ts')" "mx' = mx1"
        using assms(4) h Some a by (auto simp: forward_send_def split: prod.splits)
      then show ?thesis using e mx1 by blast
    qed
  qed
qed

text \<open>What a step of a forward task, aborted or not, does to its own state and to the connection.\<close>

definition task_does :: "string \<Rightarrow> nat \<Rightarrow> channel \<Rightarrow> mux \<Rightarrow> 's terminals \<Rightarrow> channel \<Rightarrow> mux \<Rightarrow> 's terminals \<Rightarrow> bool" where
  "task_does u t ch mx ts ch' mx' ts' \<longleftrightarrow> extends ts ts' \<and> task_ok u t ch' ts' \<and> ch_term ch' = ch_term ch \<and> ch_ro ch' = ch_ro ch \<and>
    (mx' = mx \<or> (\<exists>f. task_frame t f \<and> length (mx_out mx) - mx_sent mx < out_cap \<and> mx' = mx\<lparr>mx_out := mx_out mx @ [f]\<rparr>)) \<and>
    (ch_run ch' \<and> \<not> ch_last ch' \<longrightarrow> \<not> ch_last ch \<and>
       (in_stream t (mx_out mx @ ch_hold ch) ch ts \<longrightarrow> in_stream t (mx_out mx' @ ch_hold ch') ch' ts'))"

lemma task_act_ok:
  assumes "task_act b64 em t (ch, mx, ts) (ch', mx', ts')" "task_ok u t ch ts" "pools_ok ts" "ch_run ch"
  shows "task_does u t ch mx ts ch' mx' ts'"
proof -
  have arm: ?thesis if "arm_ok u t (mx_out mx) ch ts ch' ts'" "mx' = mx" "ch_hold ch = []"
    using that assms(2,4) by (auto simp: task_does_def arm_ok_def task_ok_def)
  show ?thesis
    using assms(1)
  proof (cases rule: task_act.cases)
    case (a_redraw k)
    then show ?thesis using forward_redraw_ok [OF assms(2,3) _ assms(4)] by (intro arm) auto
  next
    case a_shutdown
    then show ?thesis using forward_shutdown_ok [OF assms(2,3) _ assms(4)] by (intro arm) auto
  next
    case a_output
    then show ?thesis using forward_output_ok [OF assms(2,3) _ assms(4)] by (intro arm) auto
  next
    case a_send
    then show ?thesis
      using forward_send_ok [OF assms(2,3)] in_stream_cong [OF refl, of ch' ch t "mx_out mx @ ch_hold ch" ts]
      by (fastforce simp: task_does_def)
  qed
qed

subsection \<open>Messages and opens\<close>

lemma mux_input_ok:
  assumes "mux_ok mx ts"
  shows "case mux_input b mx ts of (mx', ts') \<Rightarrow> mux_ok mx' ts' \<and> extends ts ts'"
proof -
  have refl: "extends ts ts" using mux_okD(1) [OF assms] by (rule extends_refl)
  have "extends ts (on_term a (\<lambda>_. snd (try_send c (ts_heap ts ! a))) ts)" if "a < length (ts_heap ts)" for a c
    using that mux_okD(1) [OF assms] pools_okD(3) by (intro extends_on_term) (auto intro: term_ok_send)
  then show ?thesis
    using mux_end_ok [OF assms] assms refl mux_ok_extends [OF assms] task_okD [OF mux_okD(3) [OF assms]]
    by (auto simp: mux_input_def split_def Let_def split: list.splits option.splits)
qed

lemma attach_cut_stream:
  assumes "term_ok t" "length (concat (tm_log t)) < 2 ^ 64"
  shows "at_replay (attach_cut resume a t) = drop (unat (at_base (attach_cut resume a t))) (concat (tm_log t)) \<and>
    unat (at_base (attach_cut resume a t)) \<le> length (concat (tm_log t))"
proof -
  have abs: "ring_abs (concat (tm_log t)) (tm_sb t)" using assms by (simp add: term_ok_def)
  note cut = attach_cut_cut [of resume a t, symmetric]
  show ?thesis
  proof (cases "at_mode (attach_cut resume a t)")
    case Resume
    then show ?thesis using cut_resumeD [OF abs] cut by fastforce
  next
    case Replay
    then show ?thesis using cut_replayD [OF abs] cut by fastforce
  qed
qed

lemma attach_extends:
  assumes "pools_ok ts"
  shows "extends ts (snd (snd (attach em os u i cols rows resume ts)))"
  using slots_step_extends [OF p_attach assms] .

lemma channel_fresh:
  assumes "pools_ok ts" "ts_slots ts \<le> 256" "attach em os u t cols rows resume ts = (Inr att, evs, ts')"
  shows "task_ok u t (channel_new att ro) ts' \<and>
    in_stream t (out @ [Text_frame (hello_json (Some t) att), Binary_frame (tagged t (at_replay att))]) (channel_new att ro) ts'"
proof -
  have ok': "pools_ok ts'" using attach_ok [OF assms(1), of em os u t cols rows resume] assms(3) by simp
  note att = attach_att [OF assms(1,3)]
  let ?tm = "ts_heap ts' ! at_term att"
  have len: "at_term att < length (ts_heap ts')" using pools_okD(1) [OF ok'] att by blast
  have tm: "at_epoch att = tm_epoch ?tm" "at_pos att = length (tm_log ?tm)"
    using att attach_cut_fields [of resume "at_term att" ?tm] by metis+
  have stream: "length (concat (tm_log ?tm)) < 2 ^ 64 \<Longrightarrow> at_replay att = drop (unat (at_base att)) (concat (tm_log ?tm)) \<and>
      unat (at_base att) \<le> length (concat (tm_log ?tm))"
    using attach_cut_stream [OF pools_okD(3) [OF ok' len], of resume "at_term att"] att by metis
  have "t < 256" using att assms(2) by simp
  then have view: "client_view t (out @ [Text_frame (hello_json (Some t) att), Binary_frame (tagged t (at_replay att))])
      = (Some (hello_json (Some t) att), at_replay att)"
    by (simp add: view_hello view_tagged)
  have "in_stream t (out @ [Text_frame (hello_json (Some t) att), Binary_frame (tagged t (at_replay att))]) (channel_new att ro) ts'"
    unfolding in_stream_def view using stream tm by (auto simp: Let_def channel_new_def intro!: exI [of _ att])
  then show ?thesis
    using \<open>t < 256\<close> len pools_okD(2) [OF ok'] att tm by (auto simp: task_ok_def channel_new_def)
qed

lemma replace_channel_main [simp]: "mx_main (fst (replace_channel t mx ts)) = mx_main mx"
  by (simp add: replace_channel_def split: option.split)

text \<open>The loop enters an open: what it will queue is right.\<close>

lemma mux_ok_opening:
  assumes "mux_ok mx ts" "opening_ok (mx\<lparr>mx_main := m\<rparr>) ts"
  shows "mux_ok (mx\<lparr>mx_main := m\<rparr>) ts"
  using assms by (simp add: mux_ok_def)

lemma mux_open_slot_ok:
  assumes "mux_ok mx0 ts0" "mx_main mx0 = Serving"
  shows "case mux_open_slot em os t cols rows epoch offset ro mx0 ts0 of (mx', ts') \<Rightarrow> mux_ok mx' ts' \<and> extends ts0 ts'"
proof -
  obtain mx ts where cl: "replace_channel t mx0 ts0 = (mx, ts)" by (rule prod.exhaust)
  have ok: "mux_ok mx ts" and ext: "extends ts0 ts" and none: "hm_get (mx_channels mx) t = None"
    using replace_channel_ok [OF assms, of t] cl by auto
  note pok = mux_okD(1) [OF ok]
  define resume where "resume = (case (epoch, offset) of (Some e, Some off) \<Rightarrow> Some (e, off) | _ \<Rightarrow> None)"
  obtain c r where sz: "valid_size cols rows = (c, r)" by (rule prod.exhaust)
  have failed: "mux_ok (mx\<lparr>mx_main := Queueing [Text_frame (closed_json t ''error'')] None\<rparr>) ts1 \<and> extends ts0 ts1"
    if "extends ts ts1" for ts1
    using mux_ok_opening [OF mux_ok_extends [OF ok that], of "Queueing [Text_frame (closed_json t ''error'')] None"]
      extends_trans [OF ext that] by (auto simp: opening_ok_def)
  show ?thesis
  proof (cases os)
    case None
    then show ?thesis using failed [OF extends_refl [OF pok]] cl sz by (simp add: mux_open_slot_def)
  next
    case (Some os')
    obtain res evs ts1 where at: "attach em os' (mx_user mx) t c r resume ts = (res, evs, ts1)" by (rule prod_cases3)
    have ext1: "extends ts ts1" using attach_extends [OF pok, of em os' "mx_user mx" t c r resume] at by simp
    show ?thesis
    proof (cases res)
      case (Inl e)
      then show ?thesis using failed [OF ext1] cl sz Some at by (simp add: mux_open_slot_def resume_def)
    next
      case (Inr att)
      have slots: "ts_slots ts \<le> 256" using ok by (simp add: mux_ok_def)
      let ?m = "Queueing [Text_frame (hello_json (Some t) att), Binary_frame (tagged t (at_replay att))] (Some (t, channel_new att ro))"
      have "opening_ok (mx\<lparr>mx_main := ?m\<rparr>) ts1"
        using channel_fresh [OF pok slots at [unfolded Inr], of ro] none by (auto simp: opening_ok_def) (simp add: channel_new_def)
      from mux_ok_opening [OF mux_ok_extends [OF ok ext1] this] show ?thesis
        using extends_trans [OF ext ext1] cl sz Some at Inr by (simp add: mux_open_slot_def resume_def)
    qed
  qed
qed

lemma mux_control_ok:
  assumes "mux_ok mx ts" "mx_main mx = Serving"
  shows "case mux_control em os ctl mx ts of (mx', ts') \<Rightarrow> mux_ok mx' ts' \<and> extends ts ts'"
proof -
  have refl: "extends ts ts" using mux_okD(1) [OF assms(1)] by (rule extends_refl)
  have resize: "extends ts (on_term a (\<lambda>t. snd (try_send c t)) ts)" if "a < length (ts_heap ts)" for a c
    using that mux_okD(1) [OF assms(1)] pools_okD(3) by (intro extends_on_term) (auto intro: term_ok_send)
  show ?thesis
  proof (cases ctl)
    case (Open_ctl t cols rows epoch offset ro)
    then show ?thesis using mux_open_slot_ok [OF assms] by (simp add: mux_control_def)
  next
    case (Resize_ctl t cols rows)
    then show ?thesis
      using assms(1) refl resize mux_ok_extends [OF assms(1) resize] task_okD [OF mux_okD(3) [OF assms(1)]]
      by (auto simp: mux_control_def split_def Let_def split: option.splits)
  next
    case (Mode_ctl t ro)
    have "mux_ok (mx\<lparr>mx_channels := hm_insert t (ch\<lparr>ch_ro := ro\<rparr>) (mx_channels mx)\<rparr>) ts"
      if "hm_get (mx_channels mx) t = Some ch" for ch
      using assms channel_ok_ro [OF mux_okD(2) [OF assms(1) that], of ro] by (auto simp: mux_ok_def hm_laws split: if_splits)
    then show ?thesis using Mode_ctl assms refl by (simp add: mux_control_def split: option.splits)
  next
    case (Close_ctl t)
    then show ?thesis using close_channel_ok [OF assms, of t] refl by (simp add: mux_control_def)
  qed
qed

lemma mux_message_ok:
  assumes "mux_ok mx ts" "mx_main mx = Serving"
  shows "case mux_message parse em os msg mx ts of (mx', ts') \<Rightarrow> mux_ok mx' ts' \<and> extends ts ts'"
  using mux_input_ok [OF assms(1)] mux_end_ok [OF assms(1)] assms(1) extends_refl [OF mux_okD(1) [OF assms(1)]] mux_control_ok [OF assms]
  by (simp add: mux_message_def split: client_msg.splits option.splits)

text \<open>A frame enters the queue. Only the hello of an open changes what the clients of other slots see.\<close>

lemma mux_ok_frame:
  assumes "mux_ok mx ts" "length (mx_out mx) - mx_sent mx < out_cap"
    and "hm_ok m" "\<And>t ch. hm_get m t = Some ch \<Longrightarrow> channel_ok (mx_user mx) mixed t (mx_out mx @ [f]) ch ts"
    and "opening_ok (mx\<lparr>mx_out := mx_out mx @ [f], mx_channels := m, mx_mixed := mixed, mx_main := ph\<rparr>) ts"
  shows "mux_ok (mx\<lparr>mx_out := mx_out mx @ [f], mx_channels := m, mx_mixed := mixed, mx_main := ph\<rparr>) ts"
  using assms by (auto simp: mux_ok_def)

lemma mux_ok_kept_frame:
  assumes "mux_ok mx ts" "hm_get (mx_channels mx) t = Some ch" "t \<noteq> u" "task_frame u f" "u < 256"
    and "set (mx_mixed mx) \<subseteq> insert u (set mixed)"
  shows "channel_ok (mx_user mx) mixed t (mx_out mx @ [f]) ch ts"
proof (rule channel_ok_view [OF _ assms(6) _ mux_okD(2) [OF assms(1,2)]])
  show "client_view t (mx_out mx @ [f]) = client_view t (mx_out mx)"
    using task_okD [OF mux_okD(3) [OF assms(1,2)]] assms(3-5) by (simp add: view_other)
qed (use assms(3) in simp)

lemma opening_ok_frame:
  assumes "opening_ok mx ts" "task_frame u f" "u < 256" "hm_get m u = None \<longleftrightarrow> hm_get (mx_channels mx) u = None"
    and "\<And>t. t \<noteq> u \<Longrightarrow> hm_get m t = hm_get (mx_channels mx) t"
    and "hm_get m u = None \<Longrightarrow> u \<in> set mixed" "set (mx_mixed mx) \<subseteq> set mixed"
  shows "opening_ok (mx\<lparr>mx_out := mx_out mx @ [f], mx_channels := m, mx_mixed := mixed\<rparr>) ts"
proof (cases "\<exists>fs t ch. mx_main mx = Queueing fs (Some (t, ch))")
  case False
  then show ?thesis using assms(1) by (auto simp: opening_ok_def split: main_phase.splits option.splits)
next
  case True
  then obtain fs t ch where ph: "mx_main mx = Queueing fs (Some (t, ch))" by blast
  then have o: "task_ok (mx_user mx) t ch ts" "hm_get (mx_channels mx) t = None"
    using assms(1) by (auto simp: opening_ok_def)
  have "client_view t (mx_out mx @ [f]) = client_view t (mx_out mx)" if "t \<noteq> u"
    using that task_okD [OF o(1)] assms(2,3) by (simp add: view_other)
  then have 1: "in_stream t ((mx_out mx @ [f]) @ fs) ch ts = in_stream t (mx_out mx @ fs) ch ts" if "t \<noteq> u"
    using that client_view_append [of t "mx_out mx @ [f]" fs] client_view_append [of t "mx_out mx" fs]
    by (intro in_stream_cong) simp_all
  have 2: "in_stream t ((mx_out mx @ [f]) @ fs) ch ts = in_stream t (mx_out mx @ fs) ch ts"
    if "fs = [Text_frame (hello_json (Some t) a), Binary_frame (tagged t b)]" for a b
    by (intro in_stream_cong) (simp_all only: that view_hello)
  have 3: "t \<in> set mixed" if "t = u" using that assms(4,6) o(2) by simp
  have 4: "hm_get m t = None" using assms(4,5) o(2) by (cases "t = u") auto
  show ?thesis
  proof (cases "\<exists>a b. fs = [Text_frame (hello_json (Some t) a), Binary_frame (tagged t b)]")
    case True
    then show ?thesis using assms(1) o(1) 4 2 by (auto simp: opening_ok_def ph)
  next
    case False
    then obtain b where b: "fs = [Binary_frame (tagged t b)]" "t \<notin> set (mx_mixed mx) \<longrightarrow> in_stream t (mx_out mx @ fs) ch ts"
      "ch_hold ch = []" using assms(1) by (auto simp: opening_ok_def ph)
    have "in_stream t ((mx_out mx @ [f]) @ fs) ch ts" if "t \<notin> set mixed" using that 1 3 b(2) assms(7) by blast
    then show ?thesis using o(1) 4 b(1,3) by (auto simp: opening_ok_def ph)
  qed
qed

lemma mux_ok_task:
  assumes "mux_ok mx ts" "hm_get (mx_channels mx) t = Some ch" "ch_run ch" "task_act b64 em t (ch, mx, ts) (ch', mx', ts')"
  shows "mux_ok (mx'\<lparr>mx_channels := hm_insert t ch' (mx_channels mx)\<rparr>) ts' \<and> extends ts ts'"
proof -
  let ?m = "hm_insert t ch' (mx_channels mx)"
  note ch = mux_okD(2,3) [OF assms(1,2)]
  have d: "extends ts ts'" "task_ok (mx_user mx) t ch' ts'"
    "mx' = mx \<or> (\<exists>f. task_frame t f \<and> length (mx_out mx) - mx_sent mx < out_cap \<and> mx' = mx\<lparr>mx_out := mx_out mx @ [f]\<rparr>)"
    and new: "channel_ok (mx_user mx) (mx_mixed mx) t (mx_out mx') ch' ts'"
    using task_act_ok [OF assms(4) ch(2) mux_okD(1) [OF assms(1)] assms(3)] ch(1) assms(3)
    by (auto simp: task_does_def channel_ok_def)
  note ok1 = mux_ok_extends [OF assms(1) d(1)]
  from d(3) show ?thesis
  proof (elim disjE exE conjE)
    assume "mx' = mx"
    then show ?thesis
      using ok1 new d(1) assms(2) opening_ok_frame
      by (auto simp: mux_ok_def hm_laws opening_ok_def split: main_phase.splits option.splits if_splits)
  next
    fix f
    assume f: "task_frame t f" "length (mx_out mx) - mx_sent mx < out_cap" "mx' = mx\<lparr>mx_out := mx_out mx @ [f]\<rparr>"
    have t: "t < 256" using task_okD [OF ch(2)] by simp
    have "opening_ok (mx\<lparr>mx_out := mx_out mx @ [f], mx_channels := ?m, mx_mixed := mx_mixed mx\<rparr>) ts'"
      using assms(2) by (intro opening_ok_frame [OF mux_okD(5) [OF ok1] f(1) t]) (auto simp: hm_laws)
    then have o: "opening_ok (mx\<lparr>mx_out := mx_out mx @ [f], mx_channels := ?m, mx_mixed := mx_mixed mx, mx_main := mx_main mx\<rparr>) ts'"
      by simp
    have "channel_ok (mx_user mx) (mx_mixed mx) v (mx_out mx @ [f]) ch1 ts'" if "hm_get ?m v = Some ch1" for v ch1
      using that new mux_ok_kept_frame [OF ok1 _ _ f(1) t] f(3) by (cases "v = t") (auto simp: hm_laws)
    from mux_ok_frame [OF ok1 f(2) _ this o] show ?thesis using assms(1) d(1) f(3) by (simp add: mux_ok_def hm_laws)
  qed
qed

lemma mux_ok_stray:
  assumes "mux_ok mx ts" "i < length (mx_strays mx)" "mx_strays mx ! i = (t, ch)" "ch_run ch"
    and "task_act b64 em t (ch, mx, ts) (ch', mx', ts')"
  shows "mux_ok (mx'\<lparr>mx_strays := (mx_strays mx)[i := (t, ch')],
      mx_mixed := (if mx_out mx' = mx_out mx then mx_mixed mx else t # mx_mixed mx)\<rparr>) ts' \<and> extends ts ts'"
proof -
  have "(t, ch) \<in> set (mx_strays mx)" using assms(2,3) by (metis nth_mem)
  note ch = mux_okD(4) [OF assms(1) this]
  have d: "extends ts ts'" "task_ok (mx_user mx) t ch' ts'"
    "mx' = mx \<or> (\<exists>f. task_frame t f \<and> length (mx_out mx) - mx_sent mx < out_cap \<and> mx' = mx\<lparr>mx_out := mx_out mx @ [f]\<rparr>)"
    using task_act_ok [OF assms(5) ch mux_okD(1) [OF assms(1)] assms(4)] by (auto simp: task_does_def)
  note ok1 = mux_ok_extends [OF assms(1) d(1)]
  have st: "mux_ok (mx1\<lparr>mx_strays := (mx_strays mx)[i := (t, ch')]\<rparr>) ts'" if "mux_ok mx1 ts'" "mx_user mx1 = mx_user mx" "mx_strays mx1 = mx_strays mx" for mx1
  proof -
    have "opening_ok (mx1\<lparr>mx_strays := (mx_strays mx)[i := (t, ch')]\<rparr>) ts'"
      using opening_ok_cong [of "mx1\<lparr>mx_strays := (mx_strays mx)[i := (t, ch')]\<rparr>" mx1 ts'] mux_okD(5) [OF that(1)] by simp
    then show ?thesis
      using that d(2) set_update_subset_insert [of "mx_strays mx" i "(t, ch')"] by (intro mux_okI [OF that(1)]) (auto simp: mux_ok_def)
  qed
  from d(3) show ?thesis
  proof (elim disjE exE conjE)
    assume "mx' = mx"
    then show ?thesis using st [OF ok1] d(1) by simp
  next
    fix f
    assume f: "task_frame t f" "length (mx_out mx) - mx_sent mx < out_cap" "mx' = mx\<lparr>mx_out := mx_out mx @ [f]\<rparr>"
    have t: "t < 256" using task_okD [OF ch] by simp
    have "opening_ok (mx\<lparr>mx_out := mx_out mx @ [f], mx_channels := mx_channels mx, mx_mixed := t # mx_mixed mx\<rparr>) ts'"
      by (rule opening_ok_frame [OF mux_okD(5) [OF ok1] f(1) t]) auto
    then have o: "opening_ok (mx\<lparr>mx_out := mx_out mx @ [f], mx_channels := mx_channels mx, mx_mixed := t # mx_mixed mx, mx_main := mx_main mx\<rparr>) ts'"
      by simp
    have kept: "channel_ok (mx_user mx) (t # mx_mixed mx) v (mx_out mx @ [f]) ch1 ts'" if "hm_get (mx_channels mx) v = Some ch1" for v ch1
      using mux_ok_kept_frame [OF ok1 that _ f(1) t, of "t # mx_mixed mx"] mux_okD(3) [OF ok1 that]
      by (cases "v = t") (auto simp: channel_ok_def)
    have hm: "hm_ok (mx_channels mx)" using assms(1) by (simp add: mux_ok_def)
    have "mx'\<lparr>mx_strays := (mx_strays mx)[i := (t, ch')], mx_mixed := (if mx_out mx' = mx_out mx then mx_mixed mx else t # mx_mixed mx)\<rparr>
      = mx\<lparr>mx_out := mx_out mx @ [f], mx_channels := mx_channels mx, mx_mixed := t # mx_mixed mx, mx_main := mx_main mx,
          mx_strays := (mx_strays mx)[i := (t, ch')]\<rparr>"
      by (cases mx) (simp add: f(3))
    then show ?thesis using st [OF mux_ok_frame [OF ok1 f(2) hm kept o]] d(1) by simp
  qed
qed

lemma mux_ok_gone:
  assumes "mux_ok mx ts" "i < length (mx_strays mx)" "mx_strays mx ! i = (t, ch)"
  shows "mux_ok (mx\<lparr>mx_strays := take i (mx_strays mx) @ drop (Suc i) (mx_strays mx)\<rparr>) (stop_forward ch ts) \<and> extends ts (stop_forward ch ts)"
proof -
  have "(t, ch) \<in> set (mx_strays mx)" using assms(2,3) by (metis nth_mem)
  from stop_forward_extends [OF mux_okD(1) [OF assms(1)]] task_okD [OF mux_okD(4) [OF assms(1) this]]
  have e: "extends ts (stop_forward ch ts)" by blast
  let ?mx = "mx\<lparr>mx_strays := take i (mx_strays mx) @ drop (Suc i) (mx_strays mx)\<rparr>"
  have "opening_ok ?mx ts" using opening_ok_cong [of ?mx mx ts] mux_okD(5) [OF assms(1)] by simp
  then have "mux_ok ?mx ts"
    using assms(1) by (intro mux_okI [OF assms(1)]) (auto simp: mux_ok_def dest: in_set_takeD in_set_dropD)
  with mux_ok_extends [OF _ e] e show ?thesis by blast
qed

text \<open>The loop queues a frame of an open, enters the channel after the last, or ends because the writer is gone.\<close>

lemma main_send_ok:
  assumes "mux_ok mx ts" "mx_main mx = Queueing fs opened"
  shows "case main_send mx ts of (mx', ts') \<Rightarrow> mux_ok mx' ts' \<and> extends ts ts'"
proof -
  have refl: "extends ts ts" using mux_okD(1) [OF assms(1)] by (rule extends_refl)
  note o = mux_okD(5) [OF assms(1), unfolded opening_ok_def assms(2)]
  obtain f fs' where fs: "fs = f # fs'" using o by (cases fs) (auto split: option.splits)
  show ?thesis
  proof (cases "out_send f mx")
    case None
    then show ?thesis using assms refl fs by (simp add: main_send_def)
  next
    case (Some a)
    obtain ok mx1 where a: "a = (ok, mx1)" by (rule prod.exhaust)
    show ?thesis
    proof (cases ok)
      case False
      have "extends ts (case opened of None \<Rightarrow> ts | Some (_, ch) \<Rightarrow> on_term (ch_term ch) watch_drop ts)"
        using o refl task_okD mux_okD(1) [OF assms(1)] pools_okD(3) [OF mux_okD(1) [OF assms(1)]]
        by (auto split: option.splits intro!: extends_on_term)
      then show ?thesis using mux_ok_extends [OF mux_end_ok [OF assms(1)]] Some a False assms(2) fs by (simp add: main_send_def)
    next
      case True
      then have sent: "length (mx_out mx) - mx_sent mx < out_cap" "mx1 = mx\<lparr>mx_out := mx_out mx @ [f]\<rparr>"
        using out_sendD(1) [of f mx mx1] Some a by auto
      have hm: "hm_ok (mx_channels mx)" using assms(1) by (simp add: mux_ok_def)
      show ?thesis
      proof (cases opened)
        case None
        then obtain t reason where f: "f = Text_frame (closed_json t reason)" "fs' = []" using o fs by auto
        have "channel_ok (mx_user mx) (mx_mixed mx) v (mx_out mx @ [f]) ch ts" if "hm_get (mx_channels mx) v = Some ch" for v ch
          using channel_ok_view [OF _ _ _ mux_okD(2) [OF assms(1) that], of "mx_out mx @ [f]" "Suc v" "mx_mixed mx"] f(1) by auto
        from mux_ok_frame [OF assms(1) sent(1) hm this, where ph = Serving] show ?thesis
          using Some a True assms(2) fs f refl None sent(2) by (simp add: main_send_def)
      next
        case (Some tc)
        obtain t ch where tc: "tc = (t, ch)" by (rule prod.exhaust)
        have n: "task_ok (mx_user mx) t ch ts" "ch_hold ch = []" "hm_get (mx_channels mx) t = None"
          using o by (auto simp: Some tc)
        have cases: "(\<exists>a b. fs = [Text_frame (hello_json (Some t) a), Binary_frame (tagged t b)] \<and> in_stream t (mx_out mx @ fs) ch ts) \<or>
            (\<exists>b. fs = [Binary_frame (tagged t b)] \<and> (t \<notin> set (mx_mixed mx) \<longrightarrow> in_stream t (mx_out mx @ fs) ch ts))"
          using o by (auto simp: Some tc)
        show ?thesis
          using cases
        proof (elim disjE exE conjE)
          fix x b
          assume h: "fs = [Text_frame (hello_json (Some t) x), Binary_frame (tagged t b)]" "in_stream t (mx_out mx @ fs) ch ts"
          let ?mixed = "filter (\<lambda>u. u \<noteq> t) (mx_mixed mx)"
          have f: "f = Text_frame (hello_json (Some t) x)" "fs' = [Binary_frame (tagged t b)]" using fs h(1) by auto
          have sub: "set (mx_mixed mx) \<subseteq> insert t (set ?mixed)" by auto
          have "channel_ok (mx_user mx) ?mixed v (mx_out mx @ [f]) ch1 ts" if "hm_get (mx_channels mx) v = Some ch1" for v ch1
            using channel_ok_view [OF _ sub _ mux_okD(2) [OF assms(1) that], of "mx_out mx @ [f]"] that n(3) fs h(1)
            by (cases "v = t") auto
          from mux_ok_frame [OF assms(1) sent(1) hm this, where ph = "Queueing fs' opened"] show ?thesis
            using \<open>out_send f mx = Some a\<close> a True assms(2) h(2) n refl Some tc sent(2)
            by (auto simp: main_send_def opening_ok_def f fs)
        next
          fix b
          assume r: "fs = [Binary_frame (tagged t b)]" "t \<notin> set (mx_mixed mx) \<longrightarrow> in_stream t (mx_out mx @ fs) ch ts"
          let ?m = "hm_insert t ch (mx_channels mx)"
          have okm: "hm_ok ?m" using hm by (simp add: hm_laws)
          have t: "t < 256" and f: "f = Binary_frame (tagged t b)" "fs' = []" using task_okD [OF n(1)] fs r(1) by auto
          have "channel_ok (mx_user mx) (mx_mixed mx) v (mx_out mx @ [f]) ch1 ts" if "hm_get ?m v = Some ch1" for v ch1
            using that mux_ok_kept_frame [OF assms(1) _ _ _ t, of v ch1 f "mx_mixed mx"] n r fs f
            by (cases "v = t") (auto simp: hm_laws channel_ok_def)
          from mux_ok_frame [OF assms(1) sent(1) okm this, where ph = Serving] show ?thesis
            using \<open>out_send f mx = Some a\<close> a True assms(2) fs f refl Some tc sent(2) hm by (simp add: main_send_def hm_laws)
        qed
      qed
    qed
  qed
qed

lemma mux_act_ok:
  "mux_act parse b64 em due e s s' \<Longrightarrow> mux_ok (fst s) (snd s) \<Longrightarrow> mux_ok (fst s') (snd s') \<and> extends (snd s) (snd s')"
proof (induction rule: mux_act.induct)
  case (m_message mx msg ts os)
  then show ?case using mux_message_ok [of mx ts parse em os msg] by (auto split: prod.splits)
next
  case (m_due mx ts)
  then show ?case using mux_end_ok [of mx ts] mux_okD(1) by (auto intro: extends_refl)
next
  case (m_queue mx fs opened ts)
  then show ?case using main_send_ok [of mx ts fs opened] by (auto split: prod.splits)
next
  case (m_write mx ts)
  then have "mux_ok (mx\<lparr>mx_sent := Suc (mx_sent mx)\<rparr>) ts"
    using opening_ok_cong [of "mx\<lparr>mx_sent := Suc (mx_sent mx)\<rparr>" mx ts] by (simp add: mux_ok_def)
  then show ?case using m_write(3) mux_okD(1) by (auto intro: extends_refl)
next
  case (m_writer_gone mx ts)
  then show ?case using mux_okD(1) by (auto intro: extends_refl)
next
  case (m_task mx t ch ts ch' mx' ts')
  then show ?case using mux_ok_task [of mx ts t ch b64 em ch' mx' ts'] by auto
next
  case (m_stray i mx t ch ts ch' mx' ts')
  then show ?case using mux_ok_stray [of mx ts i t ch b64 em ch' mx' ts'] by (auto split del: if_split)
next
  case (m_gone i mx t ch ts)
  then show ?case using mux_ok_gone [of mx ts i t ch] by auto
qed

lemma mux_step_ok:
  "mux_step parse b64 em s s' \<Longrightarrow> mux_ok (fst s) (snd s) \<Longrightarrow> mux_ok (fst s') (snd s') \<and> extends (snd s) (snd s')"
proof (induction rule: mux_step.induct)
  case (m_world ts ts' mx)
  then have ok: "mux_ok mx ts" by simp
  have "extends ts ts'" by (rule slots_step_extends [OF m_world(1) mux_okD(1) [OF ok]])
  with mux_ok_extends [OF ok this] show ?case by simp
qed (rule mux_act_ok)

lemma mux_reach_ok:
  "(mux_step parse b64 em)\<^sup>*\<^sup>* s s' \<Longrightarrow> mux_ok (fst s) (snd s) \<Longrightarrow> mux_ok (fst s') (snd s')"
  by (induction rule: rtranclp_induct) (auto dest: mux_step_ok)

lemma mux_start_ok:
  assumes "(slots_step em)\<^sup>*\<^sup>* (terminals_new slots login_cmd envs owner home cp) ts" "slots \<le> 256"
  shows "mux_ok (mux_new user) ts"
proof -
  have "ts_slots ts = slots"
    using assms(1)
  proof (induction rule: rtranclp_induct)
    case base
    then show ?case by (simp add: terminals_new_def)
  next
    case (step t t')
    then show ?case using slots_step_slots [OF step.hyps(2) slots_reach_ok [OF step.hyps(1) terminals_new_ok]] by simp
  qed
  then show ?thesis
    using slots_reach_ok [OF assms(1) terminals_new_ok] assms(2) by (simp add: mux_ok_def mux_new_def)
qed

lemma task_act_mux:
  "task_act b64 em t (ch, mx, ts) (ch', mx', ts') \<Longrightarrow> mx' = mx \<or> (\<exists>f. mx_writer mx \<and> mx' = mx\<lparr>mx_out := mx_out mx @ [f]\<rparr>)"
  by (erule task_act.cases) (auto simp: forward_send_def out_send_def split: list.splits option.splits prod.splits if_splits)

lemma replace_channel_user [simp]: "mx_user (fst (replace_channel t mx ts)) = mx_user mx"
  by (simp add: replace_channel_def split: option.split)

lemma mux_act_user: "mux_act parse b64 em due e s s' \<Longrightarrow> mx_user (fst s') = mx_user (fst s)"
proof (induction rule: mux_act.induct)
  case (m_message mx msg ts os)
  show ?case
    by (auto simp: mux_message_def mux_input_def mux_control_def mux_open_slot_def close_channel_def mux_end_def split_def Let_def
        split: client_msg.splits list.splits option.splits control_frame.splits)
next
  case (m_queue mx fs opened ts)
  then show ?case
    by (auto simp: main_send_def out_send_def mux_end_def Let_def split: list.splits option.splits)
next
  case (m_task mx t ch ts ch' mx' ts')
  then show ?case using task_act_mux by fastforce
next
  case (m_stray i mx t ch ts ch' mx' ts')
  then show ?case using task_act_mux by fastforce
qed (simp_all add: mux_end_def)

lemma mux_step_user: "mux_step parse b64 em s s' \<Longrightarrow> mx_user (fst s') = mx_user (fst s)"
  by (induction rule: mux_step.induct) (simp_all add: mux_act_user)

lemma mux_reach_user: "(mux_step parse b64 em)\<^sup>*\<^sup>* s s' \<Longrightarrow> mx_user (fst s') = mx_user (fst s)"
  by (induction rule: rtranclp_induct) (auto dest: mux_step_user)

text \<open>What a page shows is what its shell wrote: at any time in the life of a connection (channels opened, closed and
  re-opened, output, redraws, a writer that falls behind, other users, restarts of shells interleaved in any way), for
  every running channel that is not about to end and whose slot no aborted task has queued a frame for since the
  hello: what the client has received since that hello, and what is about to be queued, is exactly the output of that
  shell from the offset the hello announced up to the position of the channel, under the epoch of that shell.\<close>

theorem mux_stream_exact:
  assumes "(slots_step em)\<^sup>*\<^sup>* (terminals_new slots login_cmd envs owner home cp) ts0" and "slots \<le> 256"
    and "(mux_step parse b64 em)\<^sup>*\<^sup>* (mux_new user, ts0) (mx, ts)"
    and "hm_get (mx_channels mx) t = Some ch" and "ch_run ch" and "\<not> ch_last ch" and "t \<notin> set (mx_mixed mx)"
    and "length (concat (tm_log (ts_heap ts ! ch_term ch))) < 2 ^ 64"
  shows "\<exists>att. client_view t (mx_out mx @ ch_hold ch) =
      (Some (hello_json (Some t) att), drop (unat (at_base att)) (concat (take (ch_pos ch) (tm_log (ts_heap ts ! ch_term ch)))))
    \<and> at_epoch att = tm_epoch (ts_heap ts ! ch_term ch) \<and> ch_pos ch \<le> length (tm_log (ts_heap ts ! ch_term ch))"
proof -
  have "mux_ok mx ts" using mux_reach_ok [OF assms(3)] mux_start_ok [OF assms(1,2)] by simp
  from mux_okD(2) [OF this assms(4)] have "in_stream t (mx_out mx @ ch_hold ch) ch ts" using assms(5-7) by (simp add: channel_ok_def)
  then show ?thesis using assms(8) by (cases "client_view t (mx_out mx @ ch_hold ch)") (auto simp: in_stream_def Let_def)
qed

subsection \<open>Isolation\<close>

text \<open>Everything a connection of \<open>user\<close> does spares the terminals in the slots of the others.\<close>

definition spares :: "string \<Rightarrow> 's terminals \<Rightarrow> 's terminals \<Rightarrow> bool" where
  "spares user ts ts' \<longleftrightarrow> (\<forall>v j a. slot_of ts v j = Some a \<longrightarrow> v \<noteq> user \<longrightarrow>
     slot_of ts' v j = Some a \<and> ts_heap ts' ! a = ts_heap ts ! a)"

lemma spares_refl [simp]: "spares user ts ts"
  by (simp add: spares_def)

lemma spares_trans: "spares user ts ts' \<Longrightarrow> spares user ts' ts'' \<Longrightarrow> spares user ts ts''"
  unfolding spares_def by metis

lemma on_term_other: "a \<noteq> b \<Longrightarrow> ts_heap (on_term b f ts) ! a = ts_heap ts ! a"
  by (simp add: on_term_heap)

lemma spares_on_term: "(\<And>v j. slot_of ts v j = Some b \<Longrightarrow> v = user) \<Longrightarrow> spares user ts (on_term b f ts)"
  unfolding spares_def by (metis on_term_fields(3) on_term_other)

lemma spares_vacated:
  assumes "pools_ok ts" "i < ts_slots ts"
  shows "spares user ts (vacated user i ts)"
proof -
  have "ts_heap (vacated user i ts) ! a = ts_heap ts ! a" if "slot_of ts v j = Some a" "v \<noteq> user" for v j a
  proof (cases "slot_of ts user i")
    case None
    then show ?thesis by (simp add: vacated_def)
  next
    case (Some b)
    then have "a \<noteq> b" using pools_okD(2) [OF assms(1) that(1), of user i] that(2) by auto
    then show ?thesis using Some by (simp add: vacated_def on_term_other)
  qed
  then show ?thesis using vacated_fields(4) [OF assms, of user] by (simp add: spares_def)
qed

lemma spares_attach:
  assumes "pools_ok ts"
  shows "spares user ts (snd (snd (attach em os user i cols rows resume ts)))"
proof (cases "ts_slots ts \<le> i")
  case True
  then show ?thesis by (simp add: attach_def)
next
  case False
  then have i: "i < ts_slots ts" by simp
  show ?thesis
  proof (cases "slot_dead ts user i")
    case True
    obtain r evs where sp: "spawn_terminal em os (ts_login_cmd ts) user (ts_owner ts) (ts_home ts) (ts_envs ts) cols rows (ts_cap ts)
        = (r, evs)" by (rule prod.exhaust)
    show ?thesis
    proof (cases r)
      case (Inl e)
      then show ?thesis using attach_cold [OF assms i True sp] spares_vacated [OF assms i] by simp
    next
      case (Inr t)
      then have t: "term_ok t" using sp term_ok_spawned by (metis fst_conv)
      note w = spawned_placed [OF assms i t, of user]
      have "ts_heap (vacated user i ts) ! a = ts_heap ts ! a \<and> a < length (ts_heap ts)" if "slot_of ts v j = Some a" "v \<noteq> user" for v j a
        using spares_vacated [OF assms i, of user] that pools_okD(1) [OF assms that(1)] by (simp add: spares_def)
      then show ?thesis
        using attach_cold [OF assms i True sp, of resume] Inr vacated_fields(3) [OF assms i, of user]
        by (auto simp: Let_def spares_def w(2,3) on_term_heap nth_append nth_list_update)
    qed
  next
    case False
    then obtain a where a: "slot_of ts user i = Some a" "tm_alive (ts_heap ts ! a)"
      by (auto simp: slot_dead_def split: option.splits)
    have "spares user ts (on_term a (join_resized cols rows) (snd (pool_of user ts)))"
    proof (rule spares_trans)
      show "spares user ts (snd (pool_of user ts))" by (simp add: spares_def)
      show "spares user (snd (pool_of user ts)) (on_term a (join_resized cols rows) (snd (pool_of user ts)))"
        using pools_okD(2) [OF assms a(1)] by (intro spares_on_term) auto
    qed
    then show ?thesis using attach_live [OF assms i a] by simp
  qed
qed

lemma spares_stop_forward:
  "(\<And>v j. slot_of ts v j = Some (ch_term ch) \<Longrightarrow> v = user) \<Longrightarrow> spares user ts (stop_forward ch ts)"
  by (simp add: stop_forward_def spares_on_term)

lemma channel_slot: "mux_ok mx ts \<Longrightarrow> hm_get (mx_channels mx) t = Some ch \<Longrightarrow> slot_of ts v j = Some (ch_term ch) \<Longrightarrow> v = mx_user mx"
  using mux_okD(3) unfolding task_ok_def by blast

lemma spares_replace: "mux_ok mx ts \<Longrightarrow> spares (mx_user mx) ts (snd (replace_channel t mx ts))"
  using channel_slot by (auto simp: replace_channel_def intro!: spares_stop_forward split: option.splits)

lemma replace_channel_extends:
  assumes "mux_ok mx ts"
  shows "extends ts (snd (replace_channel t mx ts))"
  using mux_okD(1) [OF assms] task_okD [OF mux_okD(3) [OF assms]]
  by (auto simp: replace_channel_def intro!: stop_forward_extends split: option.splits)

lemma spares_open:
  assumes "mux_ok mx0 ts0"
  shows "spares (mx_user mx0) ts0 (snd (mux_open_slot em os t cols rows epoch offset ro mx0 ts0))"
proof -
  obtain mx ts where cl: "replace_channel t mx0 ts0 = (mx, ts)" by (rule prod.exhaust)
  have sp: "spares (mx_user mx0) ts0 ts" using spares_replace [OF assms, of t] cl by simp
  have user: "mx_user mx = mx_user mx0" using replace_channel_user [of t mx0 ts0] cl by simp
  have pok: "pools_ok ts" using replace_channel_extends [OF assms, of t] cl by (simp add: extends_def)
  have "spares (mx_user mx0) ts0 ts1" if "snd (attach em os' (mx_user mx0) t c r resume ts) = (evs, ts1)" for os' c r resume evs ts1
    using spares_trans [OF sp] spares_attach [OF pok, of "mx_user mx0" em os' t c r resume] that by simp
  then show ?thesis
    using sp cl user by (auto simp: mux_open_slot_def split_def Let_def split: option.splits prod.splits sum.splits)
qed

text \<open>C23: No page reaches another user's shell: whatever a client sends, in any state its connection can be in, every terminal in
  a slot of somebody else stays where it is, with nothing queued, nothing resized, nothing stopped.\<close>

theorem mux_isolated:
  assumes "(slots_step em)\<^sup>*\<^sup>* (terminals_new slots login_cmd envs owner home cp) ts0" and "slots \<le> 256"
    and "(mux_step parse b64 em)\<^sup>*\<^sup>* (mux_new user, ts0) (mx, ts)"
    and "slot_of ts v j = Some a" and "v \<noteq> user"
  shows "slot_of (snd (mux_message parse em os msg mx ts)) v j = Some a \<and>
    ts_heap (snd (mux_message parse em os msg mx ts)) ! a = ts_heap ts ! a"
proof -
  have ok: "mux_ok mx ts" using mux_reach_ok [OF assms(3)] mux_start_ok [OF assms(1,2)] by simp
  have user: "mx_user mx = user" using mux_reach_user [OF assms(3)] by (simp add: mux_new_def)
  have own: "spares (mx_user mx) ts (on_term (ch_term ch) f ts)" if "hm_get (mx_channels mx) t = Some ch" for t ch f
    using channel_slot [OF ok that] by (intro spares_on_term) auto
  have ctl: "spares (mx_user mx) ts (snd (mux_control em os ctl mx ts))" for ctl
    using spares_open [OF ok] own
    by (cases ctl) (auto simp: mux_control_def split_def Let_def split: option.splits)
  have "spares (mx_user mx) ts (snd (mux_input b mx ts))" for b
    using own by (auto simp: mux_input_def split_def Let_def split: list.splits option.splits)
  then have "spares user ts (snd (mux_message parse em os msg mx ts))"
    using ctl unfolding user by (auto simp: mux_message_def split: client_msg.splits option.splits)
  then show ?thesis using assms(4,5) by (auto simp: spares_def)
qed

text \<open>Typing into a slot whose shell has exited ends the whole connection, with every slot open on it: once the command thread
  is gone its queue refuses the input, which the loop takes for an overload.\<close>

theorem typing_to_reaped_ends_connection:
  "hm_get (mx_channels mx) (unat tag) = Some ch \<Longrightarrow> \<not> ch_ro ch \<Longrightarrow> tm_cmd (ts_heap ts ! ch_term ch) = Reaped \<Longrightarrow>
   tm_queue (ts_heap ts ! ch_term ch) = [] \<Longrightarrow>
   mx_main (fst (mux_message parse em os (Bin (tag # key)) mx ts)) = Stopped \<and>
   mx_channels (fst (mux_message parse em os (Bin (tag # key)) mx ts)) = []"
  by (simp add: mux_message_def mux_input_def try_send_def mux_end_def)

definition toy_open :: "string \<Rightarrow> control_frame option" where
  "toy_open = (\<lambda>_. Some (Open_ctl 0 80 24 None None False))"

lemma toy_size: "valid_size 80 24 = (80, 24)"
  by (simp add: valid_size_def clamp_def)

lemma toy_attached_slot: "slot_of toy_attached ''a'' 0 = Some 0"
proof (rule toy_attach)
  fix evs
  assume "attach unit_emulator toy_os ''a'' 0 80 24 None toy_slots =
    (Inr (attach_cut None 0 (join_resized 80 24 toy_shell)), evs, toy_attached)"
  from attach_att [OF toy_slots_ok this] show ?thesis by simp
qed

theorem mux_isolated_witness:
  "slot_of (snd (mux_message toy_open unit_emulator (Some toy_os) (Txt []) (mux_new ''b'') toy_attached)) ''a'' 0 = Some 0"
proof -
  have "slots_step unit_emulator toy_slots toy_attached" unfolding toy_attached_def by (rule p_attach)
  from m_world [OF this] have "(mux_step toy_open (\<lambda>_. []) unit_emulator)\<^sup>*\<^sup>* (mux_new ''b'', toy_slots) (mux_new ''b'', toy_attached)"
    by (rule r_into_rtranclp)
  from mux_isolated [OF toy_reach _ this toy_attached_slot] show ?thesis by simp
qed

text \<open>A page that has opened its first slot: the message, then the two frames of the answer.\<close>

definition toy_opened :: "string \<Rightarrow> mux" where
  "toy_opened user =
    (let a = attach_cut None 0 (join_resized 80 24 toy_shell)
     in (mux_new user)\<lparr>mx_channels := [(0, channel_new a False)],
          mx_out := [Text_frame (hello_json (Some 0) a), Binary_frame (tagged 0 (at_replay a))]\<rparr>)"

lemma toy_opens:
  assumes "attach unit_emulator toy_os user 0 80 24 None ts =
    (Inr (attach_cut None 0 (join_resized 80 24 toy_shell)), evs, ts')"
  shows "\<exists>mx. mux_message toy_open unit_emulator (Some toy_os) (Txt []) (mux_new user) ts = (mx, ts') \<and>
    (\<exists>fs o1 mx1 o2. mx_main mx = Queueing fs o1 \<and> main_send mx ts' = (mx1, ts') \<and> mx_main mx1 = Queueing (tl fs) o2 \<and>
       main_send mx1 ts' = (toy_opened user, ts'))"
  by (simp add: mux_message_def toy_open_def mux_control_def mux_open_slot_def replace_channel_def mux_new_def toy_size assms
      main_send_def out_send_def out_cap_def toy_opened_def Let_def hm_insert_def)

lemma toy_opened_steps:
  assumes "attach unit_emulator toy_os user 0 80 24 None ts =
    (Inr (attach_cut None 0 (join_resized 80 24 toy_shell)), evs, ts')"
  shows "\<exists>mx1 mx2. mux_act toy_open b64 unit_emulator due (Got (Txt [])) (mux_new user, ts) (mx1, ts') \<and>
    mux_act toy_open b64 unit_emulator due Queues (mx1, ts') (mx2, ts') \<and>
    mux_act toy_open b64 unit_emulator due Queues (mx2, ts') (toy_opened user, ts')"
proof -
  obtain mx fs o1 mx1 o2 where r: "mux_message toy_open unit_emulator (Some toy_os) (Txt []) (mux_new user) ts = (mx, ts')"
    "mx_main mx = Queueing fs o1" "main_send mx ts' = (mx1, ts')" "mx_main mx1 = Queueing (tl fs) o2"
    "main_send mx1 ts' = (toy_opened user, ts')" using toy_opens [OF assms] by blast
  have "mx_main (mux_new user) = Serving" by (simp add: mux_new_def)
  from m_message [OF this, of toy_open b64 unit_emulator due "Txt []" ts "Some toy_os"] m_queue [OF r(2), of toy_open b64 unit_emulator due ts']
    m_queue [OF r(4), of toy_open b64 unit_emulator due ts'] show ?thesis unfolding r(1,3,5) by blast
qed

lemma toy_connected:
  "(mux_step toy_open (\<lambda>_. []) unit_emulator)\<^sup>*\<^sup>* (mux_new ''a'', toy_slots) (toy_opened ''a'', toy_attached)"
proof (rule toy_attach)
  fix evs
  assume at: "attach unit_emulator toy_os ''a'' 0 80 24 None toy_slots =
    (Inr (attach_cut None 0 (join_resized 80 24 toy_shell)), evs, toy_attached)"
  show ?thesis
    using toy_opened_steps [OF at, of "\<lambda>_. []" False]
    by (blast intro: rtranclp.rtrancl_into_rtrancl rtranclp.rtrancl_refl m_act)
qed

lemma toy_attached_log: "tm_log (ts_heap toy_attached ! 0) = []"
proof (rule toy_attach)
  fix evs
  assume at: "attach unit_emulator toy_os ''a'' 0 80 24 None toy_slots =
    (Inr (attach_cut None 0 (join_resized 80 24 toy_shell)), evs, toy_attached)"
  from attach_att [OF toy_slots_ok this]
  have "at_pos (attach_cut None 0 (join_resized 80 24 toy_shell)) = at_pos (attach_cut None 0 (ts_heap toy_attached ! 0))"
    by simp
  then show ?thesis by (simp add: toy_shell_def term_new_def)
qed

theorem mux_stream_exact_witness:
  "fst (client_view 0 (mx_out (toy_opened ''a''))) \<noteq> None"
proof -
  let ?ch = "channel_new (attach_cut None 0 (join_resized 80 24 toy_shell)) False"
  have f: "hm_get (mx_channels (toy_opened ''a'')) 0 = Some ?ch" "ch_run ?ch" "\<not> ch_last ?ch" "ch_hold ?ch = []" "ch_term ?ch = 0"
    "0 \<notin> set (mx_mixed (toy_opened ''a''))"
    by (simp_all add: toy_opened_def Let_def hm_get_def channel_new_def mux_new_def attach_cut_fields)
  from mux_stream_exact [OF toy_reach _ toy_connected f(1-3,6)] show ?thesis
    unfolding f(5) toy_attached_log f(4) by fastforce
qed

theorem typing_to_reaped_ends_connection_witness:
  "mx_channels (fst (mux_message toy_open unit_emulator None (Bin [0, 0x61])
     ((toy_opened ''a'')\<lparr>mx_channels := [(0, (channel_new (attach_cut None 0 toy_shell) False)\<lparr>ch_run := False\<rparr>)]\<rparr>)
     (toy_slots\<lparr>ts_heap := [toy_shell\<lparr>tm_cmd := Reaped\<rparr>]\<rparr>))) = []"
  using typing_to_reaped_ends_connection [where tag = 0 and key = "[0x61]" and parse = toy_open and em = unit_emulator and os = None
    and mx = "(toy_opened ''a'')\<lparr>mx_channels := [(0, (channel_new (attach_cut None 0 toy_shell) False)\<lparr>ch_run := False\<rparr>)]\<rparr>"
    and ts = "toy_slots\<lparr>ts_heap := [toy_shell\<lparr>tm_cmd := Reaped\<rparr>]\<rparr>"]
  by (simp add: hm_get_def toy_shell_def term_new_def channel_new_def attach_cut_fields)

subsection \<open>What a connection types\<close>

text \<open>All a connection does but forwarding its client's binary frames leaves what waits to be written as it was.\<close>

lemma all_quiet_stop: "all_quiet ts (stop_forward ch ts)"
  by (simp add: stop_forward_def all_quiet_on_term)

lemma all_quiet_task: "task_act b64 em t (ch, mx, ts) (ch', mx', ts') \<Longrightarrow> all_quiet ts ts'"
proof (erule task_act.cases, goal_cases)
  case (1 ch0 k ts0 ch1 ts1 mx0)
  have "all_quiet ts (on_term (ch_term ch) (\<lambda>_. snd (snd (redraw_at em k (ch_pos ch) (ts_heap ts ! ch_term ch)))) ts)"
    by (rule all_quiet_on_term) (simp add: redraw_at_def split_def Let_def)
  then show ?case using 1 by (auto simp: forward_redraw_def split_def Let_def)
next
  case 2
  then show ?case by (auto simp: forward_shutdown_def Let_def split: if_splits)
next
  case 3
  then show ?case
    by (auto simp: forward_output_def forward_end_def all_quiet_on_term split: recv.splits prod.splits if_splits)
next
  case 4
  then show ?case
    by (auto simp: forward_send_def forward_end_def all_quiet_on_term Let_def split: list.splits option.splits prod.splits if_splits)
qed

lemma all_quiet_open:
  assumes "mux_ok mx ts"
  shows "all_quiet ts (snd (mux_open_slot em os t cols rows epoch offset ro mx ts))"
proof -
  obtain mx1 ts1 where c: "replace_channel t mx ts = (mx1, ts1)" by (rule prod.exhaust)
  have q: "all_quiet ts ts1"
    using c by (auto simp: replace_channel_def all_quiet_stop split: option.splits)
  have pok: "pools_ok ts1" using replace_channel_extends [OF assms, of t] c by (simp add: extends_def)
  have a: "all_quiet ts ts'" if "snd (attach em os' (mx_user mx1) t cl rw resume ts1) = (evs, ts')" for os' cl rw resume evs ts'
    using all_quiet_trans [OF q all_quiet_attach [OF pok]] that by (metis snd_conv)
  show ?thesis
    unfolding mux_open_slot_def c
    by (auto simp: Let_def split_def q a split: option.splits prod.splits sum.splits)
qed

lemma message_quiet:
  assumes "mux_ok mx ts" "\<And>b. msg \<noteq> Bin b"
  shows "all_quiet ts (snd (mux_message parse em os msg mx ts))"
proof -
  have "all_quiet ts (snd (mux_control em os ctl mx ts))" for ctl
    by (cases ctl)
      (auto simp: mux_control_def all_quiet_open [OF assms(1)] split_def Let_def
        intro!: all_quiet_on_term split: option.splits)
  then show ?thesis
    using assms(2) by (cases msg) (auto simp: mux_message_def split: option.split)
qed

text \<open>The one way to type: a binary frame for an open channel that is not read-only, taken by the terminal's queue.\<close>

definition types :: "mux \<Rightarrow> 's terminals \<Rightarrow> nat \<Rightarrow> u8 list \<Rightarrow> 's terminals \<Rightarrow> bool" where
  "types mx ts t keys ts' \<longleftrightarrow> (\<exists>ch t'. hm_get (mx_channels mx) t = Some ch \<and> \<not> ch_ro ch \<and>
     try_send (Input keys) (ts_heap ts ! ch_term ch) = (True, t') \<and> ts' = on_term (ch_term ch) (\<lambda>_. t') ts)"

lemma mux_input_types:
  "all_quiet ts (snd (mux_input b mx ts)) \<or>
   (\<exists>tag keys. b = tag # keys \<and> types mx ts (unat tag) keys (snd (mux_input b mx ts)) \<and> fst (mux_input b mx ts) = mx)"
  by (cases b) (auto simp: mux_input_def types_def split_def Let_def split: option.split, metis prod.collapse)

lemma mux_act_types:
  assumes "mux_act parse b64 em due e (mx, ts) (mx', ts')" "mux_ok mx ts"
  shows "all_quiet ts ts' \<or> (\<exists>(tag :: u8) keys. e = Got (Bin (tag # keys)) \<and> types mx ts (unat tag) keys ts' \<and> mx' = mx)"
  using assms(1)
proof (cases rule: mux_act.cases)
  case (m_message msg os)
  show ?thesis
  proof (cases "\<exists>b. msg = Bin b")
    case True
    then obtain b where b: "msg = Bin b" "(mx', ts') = mux_input b mx ts" using m_message by (auto simp: mux_message_def)
    then have "mx' = fst (mux_input b mx ts)" "ts' = snd (mux_input b mx ts)" by (metis fst_conv, metis snd_conv)
    then show ?thesis using mux_input_types [of ts b mx] b(1) m_message(1) by auto
  next
    case False
    then show ?thesis using message_quiet [OF assms(2), of msg parse em os] m_message by (metis snd_conv)
  qed
next
  case (m_queue fs opened)
  then show ?thesis
    by (auto simp: main_send_def Let_def all_quiet_on_term split: list.splits option.splits prod.splits bool.splits if_splits)
next
  case (m_task t ch ch' mx')
  then show ?thesis using all_quiet_task by blast
next
  case (m_stray i t ch ch' mx')
  then show ?thesis using all_quiet_task by blast
qed (simp_all add: all_quiet_stop)

subsection \<open>Closing and opening a slot again\<close>

text \<open>The one way out of step: a task that holds a chunk when its channel is closed is aborted and not awaited, so it may
  queue the chunk after the hello of the slot's next open, whose replay contains it already. The page then shows the
  chunk twice. (An open that replaces a channel awaits the old task for this reason.)\<close>

theorem close_then_open_repeats:
  assumes "mux_ok mx ts" "mx_main mx = Serving" "mx_writer mx" "length (mx_out mx) - mx_sent mx + 3 \<le> out_cap"
    and "hm_get (mx_channels mx) t = Some ch" "ch_run ch" "\<not> ch_last ch" "ch_hold ch = [Binary_frame (tagged t b)]"
    and "t < ts_slots ts" "slot_of ts (mx_user mx) t = Some a" "tm_alive (ts_heap ts ! a)"
    and "length (concat (tm_log (ts_heap ts ! a))) < 2 ^ 64"
    and "parse s = Some (Close_ctl t)" "parse s' = Some (Open_ctl t cols rows None None ro)"
  shows "\<exists>mx' ts' ch' att. (mux_step parse b64 em)\<^sup>*\<^sup>* (mx, ts) (mx', ts') \<and>
    hm_get (mx_channels mx') t = Some ch' \<and> ch_run ch' \<and> ch_term ch' = a \<and> ch_pos ch' = length (tm_log (ts_heap ts ! a)) \<and>
    client_view t (mx_out mx') = (Some (hello_json (Some t) att), drop (unat (at_base att)) (concat (tm_log (ts_heap ts ! a))) @ b)"
proof -
  obtain cl rw where sz: "valid_size cols rows = (cl, rw)" by (rule prod.exhaust)
  let ?att = "attach_cut None a (join_resized cl rw (ts_heap ts ! a))"
  let ?ts = "on_term a (join_resized cl rw) (snd (pool_of (mx_user mx) ts))"
  let ?H = "Text_frame (hello_json (Some t) ?att)" and ?R = "Binary_frame (tagged t (at_replay ?att))" and ?B = "Binary_frame (tagged t b)"
  let ?new = "channel_new ?att ro"
  note pok = mux_okD(1) [OF assms(1)]
  have at: "attach em os (mx_user mx) t cl rw None ts = (Inr ?att, [], ?ts)" for os
    by (rule attach_live [OF pok assms(9-11)])
  define mx1 where "mx1 = mx\<lparr>mx_channels := hm_remove t (mx_channels mx), mx_strays := mx_strays mx @ [(t, ch)]\<rparr>"
  define mx2 where "mx2 = mx1\<lparr>mx_main := Queueing [?H, ?R] (Some (t, ?new))\<rparr>"
  define mx3 where "mx3 = mx2\<lparr>mx_out := mx_out mx @ [?H], mx_mixed := filter (\<lambda>u. u \<noteq> t) (mx_mixed mx), mx_main := Queueing [?R] (Some (t, ?new))\<rparr>"
  define mx4 where "mx4 = mx3\<lparr>mx_out := mx_out mx @ [?H, ?R], mx_channels := hm_insert t ?new (mx_channels mx3), mx_main := Serving\<rparr>"
  define mx5 where "mx5 = mx4\<lparr>mx_out := mx_out mx @ [?H, ?R, ?B]\<rparr>"
  have room: "length (mx_out mx) < mx_sent mx + out_cap" "Suc (length (mx_out mx)) < mx_sent mx + out_cap"
    "Suc (Suc (length (mx_out mx))) < mx_sent mx + out_cap" and sent: "mx_sent mx \<le> length (mx_out mx)"
    using assms(1,4) by (auto simp: mux_ok_def)
  have "mux_message parse em None (Txt s) mx ts = (mx1, ts)"
    by (simp add: mux_message_def assms(13) mux_control_def close_channel_def assms(5) mx1_def)
  with m_message [OF assms(2), of parse b64 em False "Txt s" ts None]
  have 1: "mux_step parse b64 em (mx, ts) (mx1, ts)" by (auto intro: m_act)
  have "mux_message parse em (Some toy_os) (Txt s') mx1 ts = (mx2, ?ts)"
    by (simp add: mux_message_def assms(14) mux_control_def mux_open_slot_def replace_channel_def mx1_def hm_laws sz at mx2_def)
  with m_message [of mx1 parse b64 em False "Txt s'" ts "Some toy_os"] assms(2)
  have 2: "mux_step parse b64 em (mx1, ts) (mx2, ?ts)" by (auto intro: m_act simp: mx1_def)
  have "main_send mx2 ?ts = (mx3, ?ts)"
    using assms(3) room sent by (simp add: main_send_def mx2_def mx3_def mx1_def out_send_def less_diff_conv2)
  with m_queue [of mx2 _ _ parse b64 em False ?ts] have 3: "mux_step parse b64 em (mx2, ?ts) (mx3, ?ts)"
    by (auto intro: m_act simp: mx2_def)
  have "main_send mx3 ?ts = (mx4, ?ts)"
    using assms(3) room sent by (simp add: main_send_def mx4_def mx3_def mx2_def mx1_def out_send_def less_diff_conv2)
  with m_queue [of mx3 _ _ parse b64 em False ?ts] have 4: "mux_step parse b64 em (mx3, ?ts) (mx4, ?ts)"
    by (auto intro: m_act simp: mx3_def)
  have "forward_send ch mx4 ?ts = (ch\<lparr>ch_hold := []\<rparr>, mx5, ?ts)"
    using assms(3,7,8) room sent by (simp add: forward_send_def mx5_def mx4_def mx3_def mx2_def mx1_def out_send_def less_diff_conv2)
  then have act: "task_act b64 em t (ch, mx4, ?ts) (ch\<lparr>ch_hold := []\<rparr>, mx5, ?ts)" using assms(8) by (intro a_send) auto
  have st: "mx_strays mx4 = mx_strays mx @ [(t, ch)]" by (simp add: mx4_def mx3_def mx2_def mx1_def)
  have "\<exists>mx6. mux_step parse b64 em (mx4, ?ts) (mx6, ?ts) \<and> mx_out mx6 = mx_out mx5 \<and> mx_channels mx6 = mx_channels mx5"
    using m_act [OF m_stray [OF _ _ assms(6) act, of "length (mx_strays mx)" parse False]] st by (auto split del: if_split)
  then obtain mx6 where 5: "mux_step parse b64 em (mx4, ?ts) (mx6, ?ts)" "mx_out mx6 = mx_out mx @ [?H, ?R, ?B]"
    "hm_get (mx_channels mx6) t = Some ?new"
    by (auto simp: mx5_def mx4_def hm_laws)
  have "(mux_step parse b64 em)\<^sup>*\<^sup>* (mx, ts) (mx6, ?ts)"
    by (rule converse_rtranclp_into_rtranclp, rule 1, rule converse_rtranclp_into_rtranclp, rule 2,
        rule converse_rtranclp_into_rtranclp, rule 3, rule converse_rtranclp_into_rtranclp, rule 4, rule r_into_rtranclp, rule 5(1))
  moreover have "t < 256" using task_okD [OF mux_okD(3) [OF assms(1,5)]] by simp
  then have "client_view t (mx_out mx6) = (Some (hello_json (Some t) ?att), at_replay ?att @ b)"
    by (simp add: 5(2) view_hello view_tagged)
  moreover have "term_ok (join_resized cl rw (ts_heap ts ! a))" using pools_okD(1,3) [OF pok] assms(10) by (simp add: term_ok_join)
  from attach_cut_stream [OF this, of None a] assms(12)
  have "at_replay ?att = drop (unat (at_base ?att)) (concat (tm_log (ts_heap ts ! a)))" by simp
  ultimately show ?thesis using 5(3) by (intro exI [of _ mx6] exI [of _ ?ts] exI [of _ ?new] exI [of _ ?att]) (simp add: channel_new_def)
qed

subsection \<open>Getting on\<close>

text \<open>Steps of the kinds \<open>E\<close>, everybody else standing still.\<close>

definition mux_own ::
  "(string \<Rightarrow> control_frame option) \<Rightarrow> (u8 list \<Rightarrow> string) \<Rightarrow> 's emulator \<Rightarrow> bool \<Rightarrow> mux_event set
    \<Rightarrow> mux \<times> 's terminals \<Rightarrow> mux \<times> 's terminals \<Rightarrow> bool" where
  "mux_own parse b64 em due E s s' \<longleftrightarrow> (\<exists>e \<in> E. mux_act parse b64 em due e s s')"

lemma mux_ownI: "mux_act parse b64 em due e s s' \<Longrightarrow> e \<in> E \<Longrightarrow> mux_own parse b64 em due E s s'"
  by (auto simp: mux_own_def)

lemma steps_one: "R a b \<Longrightarrow> (R ^^ Suc 0) a b" for R :: "'a \<Rightarrow> 'a \<Rightarrow> bool"
  by (rule relpowp_Suc_I2 [OF _ relpowp_0_I])

lemma steps_two: "R a b \<Longrightarrow> R b c \<Longrightarrow> (R ^^ 2) a c" for R :: "'a \<Rightarrow> 'a \<Rightarrow> bool"
  using relpowp_Suc_I2 [of R a b "Suc 0" c] steps_one [of R b c] by (simp add: numeral_2_eq_2 del: relpowp.simps)

lemma steps_then: "(R ^^ m) a b \<Longrightarrow> (R ^^ n) b c \<Longrightarrow> (R ^^ (m + n)) a c" for R :: "'a \<Rightarrow> 'a \<Rightarrow> bool"
  by (auto simp: relpowp_add)

lemma Writes_own:
  "mx_writer mx \<Longrightarrow> mx_sent mx < length (mx_out mx) \<Longrightarrow> Writes \<in> E \<Longrightarrow>
   mux_own parse b64 em due E (mx, ts) (mx\<lparr>mx_sent := Suc (mx_sent mx)\<rparr>, ts)"
  by (rule mux_ownI [OF m_write])

text \<open>The loop that waits for room queues its frame or ends, with at most one step of the writer before.\<close>

definition within :: "mux \<Rightarrow> bool" where
  "within mx \<longleftrightarrow> mx_sent mx \<le> length (mx_out mx) \<and> length (mx_out mx) \<le> mx_sent mx + out_cap"

lemma main_queues:
  assumes "mx_main mx = Queueing (f # fs) opened" "within mx" "{Queues, Writes} \<subseteq> E"
  shows "\<exists>n mx' ts'. n \<le> 2 \<and> (mux_own parse b64 em due E ^^ n) (mx, ts) (mx', ts') \<and>
    (mx_main mx' = Stopped \<and> mx_channels mx' = [] \<or>
     mx_main mx' = (if fs = [] then Serving else Queueing fs opened) \<and> within mx')"
proof -
  have own: "mux_own parse b64 em due E (mx1, ts) (main_send mx1 ts)" if "mx_main mx1 = Queueing (f # fs) opened" for mx1
    using m_queue [OF that] assms(3) by (intro mux_ownI [of _ _ _ _ Queues]) auto
  have sent: "mx_main (fst (main_send mx1 ts)) = Stopped \<and> mx_channels (fst (main_send mx1 ts)) = [] \<or>
     mx_main (fst (main_send mx1 ts)) = (if fs = [] then Serving else Queueing fs opened) \<and> within (fst (main_send mx1 ts))"
    if "mx_main mx1 = Queueing (f # fs) opened" "within mx1" "\<not> mx_writer mx1 \<or> length (mx_out mx1) - mx_sent mx1 < out_cap" for mx1
    using that by (auto simp: main_send_def out_send_def mux_end_def Let_def within_def)
  show ?thesis
  proof (cases "mx_writer mx \<and> out_cap \<le> length (mx_out mx) - mx_sent mx")
    case True
    let ?mx = "mx\<lparr>mx_sent := Suc (mx_sent mx)\<rparr>"
    have w: "mux_own parse b64 em due E (mx, ts) (?mx, ts)" and room: "within ?mx" "length (mx_out ?mx) - mx_sent ?mx < out_cap"
      and main: "mx_main ?mx = Queueing (f # fs) opened"
      using True assms by (auto simp: out_cap_def within_def intro!: Writes_own)
    from steps_two [where R = "mux_own parse b64 em due E", OF w own [OF main]] sent [OF main room(1)] room(2) show ?thesis
      by (intro exI [of _ 2] exI [of _ "fst (main_send ?mx ts)"] exI [of _ "snd (main_send ?mx ts)"]) auto
  next
    case False
    then have "\<not> mx_writer mx \<or> length (mx_out mx) - mx_sent mx < out_cap" by auto
    with steps_one [where R = "mux_own parse b64 em due E", OF own [OF assms(1)]] sent [OF assms(1,2)] show ?thesis
      by (intro exI [of _ "Suc 0"] exI [of _ "fst (main_send mx ts)"] exI [of _ "snd (main_send mx ts)"]) (auto simp del: relpowp.simps)
  qed
qed

text \<open>Once the deadline or the revocation is there, the loop can end by itself: at once when it is at its select, and else as
  soon as the frames it waits for have found room.\<close>

lemma mux_stops:
  assumes "mux_ok mx ts" "mx_open mx"
  shows "\<exists>n mx' ts'. n \<le> (if mx_main mx = Serving then 1 else 5) \<and>
    (mux_own parse b64 em True {Saw_due, Queues, Writes} ^^ n) (mx, ts) (mx', ts') \<and> \<not> mx_open mx' \<and> mx_channels mx' = []"
proof -
  let ?E = "{Saw_due, Queues, Writes}"
  let ?R = "mux_own parse b64 em True ?E"
  have ends: "?R (mx1, ts1) (mux_end mx1, ts1)" "\<not> mx_open (mux_end mx1)" "mx_channels (mux_end mx1) = []"
    if "mx_main mx1 = Serving" for mx1 ts1
    using mux_ownI [OF m_due [OF that, of True parse b64 em ts1], of ?E] by (auto simp: mx_open_def mux_end_def)
  have in_w: "within mx" using assms(1) by (simp add: mux_ok_def within_def)
  have last: "\<exists>n mx' ts'. n \<le> 3 \<and> (?R ^^ n) (mx1, ts1) (mx', ts') \<and> \<not> mx_open mx' \<and> mx_channels mx' = []"
    if q: "mx_main mx1 = Queueing [f] opened" "within mx1" for mx1 ts1 f opened
  proof -
    obtain n mx2 ts2 where n: "n \<le> 2" "(?R ^^ n) (mx1, ts1) (mx2, ts2)"
      "mx_main mx2 = Stopped \<and> mx_channels mx2 = [] \<or> mx_main mx2 = Serving"
      using main_queues [OF q, of ?E parse b64 em True ts1] by auto
    then show ?thesis
    proof (elim disjE)
      assume "mx_main mx2 = Stopped \<and> mx_channels mx2 = []"
      then show ?thesis using n by (intro exI [of _ n] exI [of _ mx2] exI [of _ ts2]) (auto simp: mx_open_def)
    next
      assume s: "mx_main mx2 = Serving"
      from steps_then [OF n(2) steps_one [where R = ?R, OF ends(1) [OF s]]] ends(2,3) [OF s] n(1) show ?thesis
        by (intro exI [of _ "n + Suc 0"] exI [of _ "mux_end mx2"] exI [of _ ts2]) (auto simp del: relpowp.simps)
    qed
  qed
  show ?thesis
  proof (cases "mx_main mx")
    case Serving
    from steps_one [where R = ?R, OF ends(1) [OF Serving]] ends(2,3) [OF Serving] show ?thesis
      using Serving by (intro exI [of _ "Suc 0"] exI [of _ "mux_end mx"] exI [of _ ts]) (auto simp del: relpowp.simps)
  next
    case (Queueing fs opened)
    then consider (one) f where "fs = [f]" | (two) f g where "fs = [f, g]"
      using mux_okD(5) [OF assms(1)] by (auto simp: opening_ok_def split: option.splits)
    then show ?thesis
    proof cases
      case one
      with last [OF _ in_w, of f opened ts] Queueing obtain n mx' ts' where "n \<le> 3" "(?R ^^ n) (mx, ts) (mx', ts')"
        "\<not> mx_open mx'" "mx_channels mx' = []" by auto
      then show ?thesis using Queueing by (intro exI [of _ n] exI [of _ mx'] exI [of _ ts']) simp
    next
      case two
      obtain n mx1 ts1 where n: "n \<le> 2" "(?R ^^ n) (mx, ts) (mx1, ts1)"
        "mx_main mx1 = Stopped \<and> mx_channels mx1 = [] \<or> mx_main mx1 = Queueing [g] opened \<and> within mx1"
        using main_queues [OF _ in_w, of f "[g]" opened ?E parse b64 em True ts] Queueing two by auto
      then show ?thesis
      proof (elim disjE conjE)
        assume "mx_main mx1 = Stopped" "mx_channels mx1 = []"
        then show ?thesis using n Queueing by (intro exI [of _ n] exI [of _ mx1] exI [of _ ts1]) (auto simp: mx_open_def)
      next
        assume "mx_main mx1 = Queueing [g] opened" "within mx1"
        from last [OF this, of ts1] obtain m mx2 ts2 where m: "m \<le> 3" "(?R ^^ m) (mx1, ts1) (mx2, ts2)"
          "\<not> mx_open mx2" "mx_channels mx2 = []" by blast
        from steps_then [OF n(2) m(2)] m n(1) Queueing show ?thesis
          by (intro exI [of _ "n + m"] exI [of _ mx2] exI [of _ ts2]) auto
      qed
    qed
  qed (use assms(2) in \<open>simp add: mx_open_def\<close>)
qed

text \<open>A forward task whose writer has caught up: a frame it holds is queued and written in two steps, a chunk of the terminal
  received in one.\<close>

definition caught_up :: "mux \<Rightarrow> nat \<Rightarrow> channel \<Rightarrow> bool" where
  "caught_up mx t ch \<longleftrightarrow> mx_writer mx \<and> mx_sent mx = length (mx_out mx) \<and> hm_get (mx_channels mx) t = Some ch \<and>
     ch_run ch \<and> \<not> ch_last ch"

lemma Forwards_own:
  "caught_up mx t ch \<Longrightarrow> task_act b64 em t (ch, mx, ts) (ch', mx', ts) \<Longrightarrow>
   mux_own parse b64 em due {Forwards t, Writes} (mx, ts) (mx'\<lparr>mx_channels := hm_insert t ch' (mx_channels mx)\<rparr>, ts)"
  by (rule mux_ownI [OF m_task]) (auto simp: caught_up_def)

lemma holds_sent:
  assumes "caught_up mx t ch" "ch_hold ch = f # fs"
  shows "\<exists>mx'. (mux_own parse b64 em due {Forwards t, Writes} ^^ 2) (mx, ts) (mx', ts) \<and> caught_up mx' t (ch\<lparr>ch_hold := fs\<rparr>) \<and>
    mx_mixed mx' = mx_mixed mx"
proof -
  let ?mx = "mx\<lparr>mx_out := mx_out mx @ [f]\<rparr>" and ?ch = "ch\<lparr>ch_hold := fs\<rparr>"
  let ?mx1 = "?mx\<lparr>mx_channels := hm_insert t ?ch (mx_channels mx)\<rparr>"
  have "forward_send ch mx ts = (?ch, ?mx, ts)"
    using assms by (simp add: forward_send_def out_send_def caught_up_def out_cap_def)
  then have 1: "mux_own parse b64 em due {Forwards t, Writes} (mx, ts) (?mx1, ts)"
    using assms(2) by (intro Forwards_own [OF assms(1)] a_send) auto
  have 2: "mux_own parse b64 em due {Forwards t, Writes} (?mx1, ts) (?mx1\<lparr>mx_sent := Suc (mx_sent ?mx1)\<rparr>, ts)"
    using assms(1) by (intro Writes_own) (auto simp: caught_up_def)
  from steps_two [where R = "mux_own parse b64 em due {Forwards t, Writes}", OF 1 2] assms(1) show ?thesis
    by (intro exI [of _ "?mx1\<lparr>mx_sent := Suc (mx_sent ?mx1)\<rparr>"]) (simp add: caught_up_def hm_laws)
qed

lemma all_held_sent:
  assumes "caught_up mx t ch"
  shows "\<exists>mx'. (mux_own parse b64 em due {Forwards t, Writes} ^^ (2 * length (ch_hold ch))) (mx, ts) (mx', ts) \<and>
    caught_up mx' t (ch\<lparr>ch_hold := []\<rparr>) \<and> mx_mixed mx' = mx_mixed mx"
  using assms
proof (induction "ch_hold ch" arbitrary: mx ch)
  case Nil
  then show ?case by (intro exI [of _ mx]) (cases ch, simp)
next
  case (Cons f fs)
  from holds_sent [OF Cons.prems, of f fs] Cons.hyps(2) obtain mx1 where
    1: "(mux_own parse b64 em due {Forwards t, Writes} ^^ 2) (mx, ts) (mx1, ts)" "caught_up mx1 t (ch\<lparr>ch_hold := fs\<rparr>)"
      "mx_mixed mx1 = mx_mixed mx" by metis
  from Cons.hyps(1) [of "ch\<lparr>ch_hold := fs\<rparr>" mx1] 1(2) obtain mx2 where
    2: "(mux_own parse b64 em due {Forwards t, Writes} ^^ (2 * length fs)) (mx1, ts) (mx2, ts)"
      "caught_up mx2 t (ch\<lparr>ch_hold := []\<rparr>)" "mx_mixed mx2 = mx_mixed mx1" by auto
  from steps_then [OF 1(1) 2(1)] 2(2,3) 1(3) show ?case
    by (intro exI [of _ mx2]) (simp add: Cons.hyps(2) [symmetric])
qed

lemma chunk_sent:
  assumes "caught_up mx t ch" "ch_hold ch = []" "ch_pos ch < length (tm_log (ts_heap ts ! ch_term ch))"
    and "length (tm_log (ts_heap ts ! ch_term ch)) - ch_pos ch \<le> channel_cap"
  shows "\<exists>mx'. (mux_own parse b64 em due {Forwards t, Writes} ^^ 3) (mx, ts) (mx', ts) \<and>
    caught_up mx' t (ch\<lparr>ch_pos := Suc (ch_pos ch)\<rparr>) \<and> mx_mixed mx' = mx_mixed mx"
proof -
  let ?b = "tm_log (ts_heap ts ! ch_term ch) ! ch_pos ch"
  let ?ch = "ch\<lparr>ch_pos := Suc (ch_pos ch), ch_hold := [Binary_frame (tagged t ?b)]\<rparr>"
  let ?mx = "mx\<lparr>mx_channels := hm_insert t ?ch (mx_channels mx)\<rparr>"
  have "forward_output t ch ts = (?ch, ts)" using assms(3,4) by (simp add: forward_output_def try_recv_def)
  then have 1: "mux_own parse b64 em due {Forwards t, Writes} (mx, ts) (?mx, ts)"
    by (intro Forwards_own [OF assms(1)] a_output [OF assms(2)])
  have "caught_up ?mx t ?ch" using assms(1) by (simp add: caught_up_def hm_laws)
  from all_held_sent [OF this, of parse b64 em due ts] obtain mx1 where
    2: "(mux_own parse b64 em due {Forwards t, Writes} ^^ 2) (?mx, ts) (mx1, ts)" "caught_up mx1 t (?ch\<lparr>ch_hold := []\<rparr>)"
      "mx_mixed mx1 = mx_mixed mx" by (auto simp del: relpowp.simps)
  moreover have "?ch\<lparr>ch_hold := []\<rparr> = ch\<lparr>ch_pos := Suc (ch_pos ch)\<rparr>" using assms(2) by (cases ch) simp
  ultimately show ?thesis using relpowp_Suc_I2 [of "mux_own parse b64 em due {Forwards t, Writes}", OF 1 2(1)]
    by (intro exI [of _ mx1]) (simp add: numeral_3_eq_3 numeral_2_eq_2 del: relpowp.simps)
qed

lemma chunks_sent:
  assumes "caught_up mx t ch" "ch_hold ch = []" "length (tm_log (ts_heap ts ! ch_term ch)) = ch_pos ch + n" "n \<le> channel_cap"
  shows "\<exists>mx'. (mux_own parse b64 em due {Forwards t, Writes} ^^ (3 * n)) (mx, ts) (mx', ts) \<and>
    caught_up mx' t (ch\<lparr>ch_pos := ch_pos ch + n\<rparr>) \<and> mx_mixed mx' = mx_mixed mx"
  using assms
proof (induction n arbitrary: mx ch)
  case 0
  then show ?case by (intro exI [of _ mx]) (cases ch, simp)
next
  case (Suc n)
  from chunk_sent [OF Suc.prems(1,2), of ts parse b64 em due] Suc.prems(3,4) obtain mx1 where
    1: "(mux_own parse b64 em due {Forwards t, Writes} ^^ 3) (mx, ts) (mx1, ts)" "caught_up mx1 t (ch\<lparr>ch_pos := Suc (ch_pos ch)\<rparr>)"
      "mx_mixed mx1 = mx_mixed mx" by auto
  from Suc.IH [OF 1(2)] Suc.prems obtain mx2 where
    2: "(mux_own parse b64 em due {Forwards t, Writes} ^^ (3 * n)) (mx1, ts) (mx2, ts)"
      "caught_up mx2 t (ch\<lparr>ch_pos := ch_pos ch + Suc n\<rparr>)" "mx_mixed mx2 = mx_mixed mx1" by auto
  from steps_then [OF 1(1) 2(1)] 2(2,3) 1(3) show ?case by (intro exI [of _ mx2]) simp
qed

lemma queue_written:
  assumes "mx_writer mx" "length (mx_out mx) = mx_sent mx + n"
  shows "(mux_own parse b64 em due {Forwards t, Writes} ^^ n) (mx, ts) (mx\<lparr>mx_sent := mx_sent mx + n\<rparr>, ts)"
  using assms
proof (induction n arbitrary: mx)
  case (Suc n)
  have "mux_own parse b64 em due {Forwards t, Writes} (mx, ts) (mx\<lparr>mx_sent := Suc (mx_sent mx)\<rparr>, ts)"
    using Suc.prems by (intro Writes_own) auto
  from relpowp_Suc_I2 [of "mux_own parse b64 em due {Forwards t, Writes}", OF this] Suc.IH [of "mx\<lparr>mx_sent := Suc (mx_sent mx)\<rparr>"] Suc.prems
  show ?case by (simp del: relpowp.simps)
qed simp

text \<open>A task that has not fallen behind brings its client up to date: at most 512 frames that already wait, what it holds, and
  what its terminal has written since.\<close>

lemma mux_delivers:
  assumes "mux_ok mx ts" "mx_writer mx" "hm_get (mx_channels mx) t = Some ch" "ch_run ch" "\<not> ch_last ch"
    and "length (tm_log (ts_heap ts ! ch_term ch)) - ch_pos ch \<le> channel_cap"
  shows "\<exists>n mx'. n \<le> 512 + 2 * length (ch_hold ch) + 3 * 64 \<and> (mux_own parse b64 em due {Forwards t, Writes} ^^ n) (mx, ts) (mx', ts) \<and>
    caught_up mx' t (ch\<lparr>ch_hold := [], ch_pos := length (tm_log (ts_heap ts ! ch_term ch))\<rparr>) \<and> mx_mixed mx' = mx_mixed mx"
proof -
  let ?R = "mux_own parse b64 em due {Forwards t, Writes}"
  let ?k = "length (mx_out mx) - mx_sent mx" and ?len = "length (tm_log (ts_heap ts ! ch_term ch))"
  have k: "length (mx_out mx) = mx_sent mx + ?k" "?k \<le> 512" using assms(1) by (auto simp: mux_ok_def out_cap_def)
  have pos: "ch_pos ch \<le> ?len" using mux_okD(3) [OF assms(1,3)] assms(4) by (simp add: task_ok_def)
  let ?mx = "mx\<lparr>mx_sent := mx_sent mx + ?k\<rparr>"
  note 1 = queue_written [OF assms(2) k(1), of parse b64 em due t ts]
  have "caught_up ?mx t ch" using assms k(1) by (simp add: caught_up_def)
  from all_held_sent [OF this, of parse b64 em due ts] obtain mx2 where
    2: "(?R ^^ (2 * length (ch_hold ch))) (?mx, ts) (mx2, ts)" "caught_up mx2 t (ch\<lparr>ch_hold := []\<rparr>)" "mx_mixed mx2 = mx_mixed ?mx" by blast
  have "?len = ch_pos (ch\<lparr>ch_hold := []\<rparr>) + (?len - ch_pos ch)" using pos by simp
  from chunks_sent [OF 2(2) _ _ assms(6), of ts parse b64 em due] pos obtain mx3 where
    3: "(?R ^^ (3 * (?len - ch_pos ch))) (mx2, ts) (mx3, ts)" "caught_up mx3 t (ch\<lparr>ch_hold := [], ch_pos := ?len\<rparr>)"
      "mx_mixed mx3 = mx_mixed mx2" by auto
  from steps_then [OF steps_then [OF 1 2(1)] 3(1)] show ?thesis
    using k(2) assms(6) 2(3) 3(2,3)
    by (intro exI [of _ "?k + 2 * length (ch_hold ch) + 3 * (?len - ch_pos ch)"] exI [of _ mx3]) (simp add: channel_cap_def)
qed

end
