(* ===== verification/Contracts.thy ===== *)
theory Contracts
  imports Prelude
begin

text \<open>
  The interfaces several components share, each with the lemmas its clients use: stores whose
  entries expire, records that only their owner can revoke, and stores that are persisted while the
  lock is still held. The theories of the stores interpret them.
\<close>

subsection \<open>Stores whose entries expire\<close>

locale expiring =
  fixes dead :: "nat \<Rightarrow> 'v \<Rightarrow> bool"
    and sweep :: "nat \<Rightarrow> ('k, 'v) hmap \<Rightarrow> ('k, 'v) hmap"
  assumes dead_mono: "t \<le> t' \<Longrightarrow> dead t v \<Longrightarrow> dead t' v"
    and sweep_get: "hm_ok m \<Longrightarrow> hm_get (sweep t m) k = Some v \<longleftrightarrow> hm_get m k = Some v \<and> \<not> dead t v"
    and sweep_ok: "hm_ok m \<Longrightarrow> hm_ok (sweep t m)"
begin

lemma swept_not_dead: "hm_ok m \<Longrightarrow> hm_get (sweep t m) k = Some v \<Longrightarrow> \<not> dead t v"
  by (simp add: sweep_get)

lemma live_survives: "hm_ok m \<Longrightarrow> hm_get m k = Some v \<Longrightarrow> \<not> dead t v \<Longrightarrow> hm_get (sweep t m) k = Some v"
  by (simp add: sweep_get)

lemma sweep_no_resurrection: "hm_ok m \<Longrightarrow> hm_get m k = None \<Longrightarrow> hm_get (sweep t m) k = None"
  by (metis not_Some_eq sweep_get)

lemma sweep_absorbs:
  assumes "hm_ok m" "t \<le> t'"
  shows "hm_get (sweep t' (sweep t m)) k = hm_get (sweep t' m) k"
proof -
  have "hm_get (sweep t' (sweep t m)) k = Some v \<longleftrightarrow> hm_get (sweep t' m) k = Some v" for v
    using assms dead_mono [of t t' v] by (auto simp: sweep_get sweep_ok)
  then show ?thesis by (metis not_Some_eq)
qed

lemma sweep_commutes_remove:
  assumes "hm_ok m"
  shows "hm_get (sweep t (hm_remove k m)) k' = hm_get (hm_remove k (sweep t m)) k'"
proof -
  have "hm_get (sweep t (hm_remove k m)) k' = Some v
      \<longleftrightarrow> hm_get (hm_remove k (sweep t m)) k' = Some v" for v
    using assms by (auto simp: sweep_get hm.ok_rem hm.get_rem)
  then show ?thesis by (metis not_Some_eq)
qed

end

subsection \<open>Records only their owner can revoke\<close>

text \<open>\<open>owned u s\<close> are the keys of the records of \<open>u\<close>; revoking by public id removes one record of
  the caller or changes nothing at all.\<close>

locale owner_scoped =
  fixes revoke :: "'u \<Rightarrow> 'i \<Rightarrow> ('k, 'r) hmap \<Rightarrow> bool \<times> ('k, 'r) hmap"
    and owner :: "'r \<Rightarrow> 'u"
    and pub :: "'r \<Rightarrow> 'i"
    and wf :: "('k, 'r) hmap \<Rightarrow> bool"
  assumes wf_ok: "wf m \<Longrightarrow> hm_ok m"
    and revoke_hit: "wf m \<Longrightarrow> revoke u i m = (True, m') \<Longrightarrow>
      \<exists>k r. hm_get m k = Some r \<and> owner r = u \<and> pub r = i \<and> m' = hm_remove k m"
    and revoke_miss: "wf m \<Longrightarrow> revoke u i m = (False, m') \<Longrightarrow>
      m' = m \<and> (\<forall>k r. hm_get m k = Some r \<longrightarrow> owner r = u \<longrightarrow> pub r \<noteq> i)"
begin

lemma revoke_iff:
  assumes "wf m"
  shows "fst (revoke u i m) \<longleftrightarrow> (\<exists>k r. hm_get m k = Some r \<and> owner r = u \<and> pub r = i)"
proof (cases "revoke u i m")
  case (Pair b m')
  show ?thesis
  proof (cases b)
    case True
    then show ?thesis using revoke_hit [OF assms, of u i m'] Pair by auto
  next
    case False
    then show ?thesis using revoke_miss [OF assms, of u i m'] Pair by auto
  qed
qed

lemma others_untouched:
  assumes "wf m" "owner r \<noteq> u" "hm_get m k = Some r"
  shows "hm_get (snd (revoke u i m)) k = Some r"
proof (cases "revoke u i m")
  case (Pair b m')
  show ?thesis
  proof (cases b)
    case True
    then obtain k' r' where "hm_get m k' = Some r'" "owner r' = u" "m' = hm_remove k' m"
      using revoke_hit [OF assms(1), of u i m'] Pair by auto
    then show ?thesis using assms Pair by (auto simp: hm.get_rem)
  next
    case False
    then show ?thesis using revoke_miss [OF assms(1), of u i m'] Pair assms(3) by auto
  qed
qed

lemma revoke_shrinks:
  assumes "wf m" "hm_get (snd (revoke u i m)) k = Some r"
  shows "hm_get m k = Some r"
proof (cases "revoke u i m")
  case (Pair b m')
  show ?thesis
  proof (cases b)
    case True
    then show ?thesis using revoke_hit [OF assms(1), of u i m'] Pair assms(2)
      by (auto simp: hm.get_rem split: if_splits)
  next
    case False
    then show ?thesis using revoke_miss [OF assms(1), of u i m'] Pair assms(2) by auto
  qed
qed

lemma foreign_like_missing:
  assumes "wf m" "\<And>k r. hm_get m k = Some r \<Longrightarrow> pub r = i \<Longrightarrow> owner r \<noteq> u"
  shows "revoke u i m = (False, m)"
proof (cases "revoke u i m")
  case (Pair b m')
  then show ?thesis
    using revoke_iff [OF assms(1), of u i] revoke_miss [OF assms(1), of u i m'] assms(2)
    by (cases b) auto
qed

end

subsection \<open>Persistence under the lock\<close>

text \<open>
  A store with its file. \<open>image\<close> is what a successful write puts on disk; an operation gets the
  outcome of the write it attempts (\<open>True\<close> for success) and holds the lock throughout, so memory
  and file move in one step. \<open>dirty p s\<close> says that operation \<open>p\<close> attempts a write in state \<open>s\<close>.
\<close>

locale durable =
  fixes mem :: "'s \<Rightarrow> 'm"
    and disk :: "'s \<Rightarrow> 'd"
    and image :: "'m \<Rightarrow> 'd"
    and act :: "'op \<Rightarrow> bool \<Rightarrow> 's \<Rightarrow> 's"
    and inv :: "'s \<Rightarrow> bool"
  assumes act_inv: "inv s \<Longrightarrow> inv (act p ok s)"
    and act_written: "inv s \<Longrightarrow> disk s = image (mem s) \<Longrightarrow> disk (act p True s) = image (mem (act p True s))"
    and act_failed: "inv s \<Longrightarrow> disk (act p False s) = disk s"
begin

lemma run_inv: "inv s \<Longrightarrow> inv (foldl (\<lambda>s (p, ok). act p ok s) s ps)"
  by (induction ps arbitrary: s) (auto simp: act_inv)

lemma run_written:
  "inv s \<Longrightarrow> disk s = image (mem s) \<Longrightarrow> list_all snd ps \<Longrightarrow>
    disk (foldl (\<lambda>s (p, ok). act p ok s) s ps) = image (mem (foldl (\<lambda>s (p, ok). act p ok s) s ps))"
proof (induction ps arbitrary: s)
  case Nil
  then show ?case by simp
next
  case (Cons p ps)
  then show ?case by (cases p) (auto simp: act_inv act_written)
qed

lemma run_failed:
  "inv s \<Longrightarrow> list_all (\<lambda>p. \<not> snd p) ps \<Longrightarrow> disk (foldl (\<lambda>s (p, ok). act p ok s) s ps) = disk s"
proof (induction ps arbitrary: s)
  case Nil
  then show ?case by simp
next
  case (Cons p ps)
  then show ?case by (cases p) (auto simp: act_inv act_failed)
qed

end

end
