(* ===== verification/Share.thy ===== *)
theory Share
  imports Text Contracts
begin

text \<open>
  Read-only share links (\<open>src/src/share.rs\<close>): signed tokens, the grants behind them, leases of
  viewers, pruning, revocation and the sanitising of notes.

  Parameters of the model: base64 and HMAC-SHA256 (the record \<open>crypto\<close>), the random grant id, the
  clock readings, and what tokio answers: \<open>live c\<close> says whether sending on the watch channel of
  grant \<open>c\<close> reaches a receiver, \<open>permit c\<close> whether its viewer semaphore has a permit left, and a
  \<open>watch_view\<close> is what a receiver sees of its channel. An operation returns the channels it sent
  \<open>true\<close> on; the grants behind them leave the map, so their senders are dropped as well.
\<close>

subsection \<open>Notes\<close>

definition max_note_len :: nat where "max_note_len = 120"

definition sanitize_note :: "string \<Rightarrow> string" where
  "sanitize_note note =
    (let cleaned = map (\<lambda>c. if is_control c then CHR '' '' else c) note
     in take max_note_len (join '' '' (split_whitespace cleaned)))"

lemma split_whitespace_words:
  "w \<in> set (split_whitespace s) \<Longrightarrow> w \<noteq> [] \<and> (\<forall>c \<in> set w. c \<in> set s \<and> \<not> is_whitespace c)"
  by (auto simp: split_whitespace_def dest: split_by_pieces)

lemma set_join: "set (join sep ws) \<subseteq> set sep \<union> \<Union> (set ` set ws)"
  by (induction sep ws rule: join.induct) auto

text \<open>a stored note is at most 120 characters long, has no control character, and its only white
  space is the plain blank.\<close>

theorem sanitize_note_safe:
  "length (sanitize_note note) \<le> 120 \<and>
   list_all (\<lambda>c. \<not> is_control c \<and> is_whitespace c = (c = CHR '' '')) (sanitize_note note)"
proof
  show "length (sanitize_note note) \<le> 120"
    by (simp add: sanitize_note_def max_note_len_def)
  let ?clean = "map (\<lambda>c. if is_control c then CHR '' '' else c) note"
  have blank: "\<not> is_control (CHR '' '')" "is_whitespace (CHR '' '')"
    by (simp_all add: is_control_def is_whitespace_def code_def)
  have "\<not> is_control c \<and> is_whitespace c = (c = CHR '' '')" if "c \<in> set (sanitize_note note)" for c
  proof -
    have "c \<in> set (join '' '' (split_whitespace ?clean))"
      using that by (auto simp: sanitize_note_def dest: in_set_takeD)
    then have "c = CHR '' '' \<or> (\<exists>w \<in> set (split_whitespace ?clean). c \<in> set w)"
      using set_join by fastforce
    then consider "c = CHR '' ''" | "c \<in> set ?clean" "\<not> is_whitespace c"
      using split_whitespace_words by blast
    then show ?thesis using blank by cases auto
  qed
  then show "list_all (\<lambda>c. \<not> is_control c \<and> is_whitespace c = (c = CHR '' '')) (sanitize_note note)"
    by (simp add: list_all_iff)
qed

subsection \<open>Tokens\<close>

record crypto =
  b64_encode :: "u8 list \<Rightarrow> string"
  b64_decode :: "string \<Rightarrow> u8 list option"
  hmac :: "u8 list \<Rightarrow> u8 list \<Rightarrow> u8 list"

definition share_payload :: "string \<Rightarrow> nat \<Rightarrow> nat \<Rightarrow> string \<Rightarrow> string" where
  "share_payload gid index ex username =
     gid @ '':'' @ show_nat index @ '':'' @ show_nat ex @ '':'' @ username"

definition share_encode ::
  "crypto \<Rightarrow> u8 list \<Rightarrow> string \<Rightarrow> nat \<Rightarrow> nat \<Rightarrow> string \<Rightarrow> string" where
  "share_encode cr key gid index ex username =
    (let payload = utf8 (share_payload gid index ex username);
         sig = hmac cr key payload
     in b64_encode cr payload @ ''.'' @ b64_encode cr sig)"

definition share_verify ::
  "crypto \<Rightarrow> u8 list \<Rightarrow> string \<Rightarrow> (string \<times> string \<times> nat \<times> nat) option" where
  "share_verify cr key token =
    Option.bind (split_once CHR ''.'' token) (\<lambda>(p, s).
    Option.bind (b64_decode cr p) (\<lambda>payload.
    Option.bind (b64_decode cr s) (\<lambda>sig.
    if sig \<noteq> hmac cr key payload then None
    else Option.bind (from_utf8 payload) (\<lambda>text.
      case splitn 4 CHR '':'' text of
        gid # index # ex # user # _ \<Rightarrow>
          Option.bind (parse_uint u64_max index) (\<lambda>i.
          Option.bind (parse_uint u64_max ex) (\<lambda>e. Some (gid, user, i, e)))
      | _ \<Rightarrow> None))))"

text \<open>What the token format relies on of the base64 crate: decoding inverts encoding, and the URL-safe
  alphabet has no full stop.\<close>

definition b64_laws :: "crypto \<Rightarrow> bool" where
  "b64_laws cr \<longleftrightarrow>
    (\<forall>bs. b64_decode cr (b64_encode cr bs) = Some bs \<and> CHR ''.'' \<notin> set (b64_encode cr bs))"

lemma splitn_payload:
  assumes "CHR '':'' \<notin> set gid"
  shows "splitn 4 CHR '':'' (share_payload gid index ex username)
    = [gid, show_nat index, show_nat ex, username]"
proof -
  have four: "(4::nat) = Suc (Suc (Suc (Suc 0)))" by simp
  have colon: "CHR '':'' \<notin> set (show_nat n)" for n
    by (rule show_nat_free) (simp add: is_ascii_digit_def code_def)
  show ?thesis
    unfolding four share_payload_def
    by (simp add: split_once_append assms colon)
qed

lemma share_token_roundtrip_aux:
  assumes "b64_laws cr" and "CHR '':'' \<notin> set gid" and "index \<le> u64_max" and "ex \<le> u64_max"
  shows "share_verify cr key (share_encode cr key gid index ex user) = Some (gid, user, index, ex)"
proof -
  let ?p = "utf8 (share_payload gid index ex user)"
  have "split_once CHR ''.'' (b64_encode cr ?p @ CHR ''.'' # b64_encode cr (hmac cr key ?p))
      = Some (b64_encode cr ?p, b64_encode cr (hmac cr key ?p))"
    using assms(1) by (intro split_once_append) (simp add: b64_laws_def)
  then show ?thesis
    using assms(1) parse_uint_show [OF assms(3)] parse_uint_show [OF assms(4)]
    by (simp add: share_verify_def share_encode_def b64_laws_def splitn_payload [OF assms(2)] Let_def)
qed

text \<open>a token verifies, under the key it was signed with, to exactly the grant id, owner, slot and
  expiry it was made for, also when the owner's name contains colons.\<close>

theorem share_token_roundtrip:
  assumes "b64_laws cr" and "CHR '':'' \<notin> set gid" and "index \<le> u64_max" and "ex \<le> u64_max"
  shows "share_verify cr key (share_encode cr key gid index ex user) = Some (gid, user, index, ex)"
  using assms by (rule share_token_roundtrip_aux)

text \<open>A concrete (toy) instance for the witnesses: a byte is written as two letters.\<close>

definition toy_b64 :: "u8 list \<Rightarrow> string" where
  "toy_b64 bs = concat (map (\<lambda>b. [char_of (65 + unat b div 16), char_of (65 + unat b mod 16)]) bs)"

fun toy_unb64 :: "string \<Rightarrow> u8 list option" where
  "toy_unb64 [] = Some []"
| "toy_unb64 [c] = None"
| "toy_unb64 (c # d # s) =
     map_option (\<lambda>bs. word_of_nat ((code c - 65) * 16 + (code d - 65)) # bs) (toy_unb64 s)"

definition toy_crypto :: crypto where
  "toy_crypto = \<lparr>b64_encode = toy_b64, b64_decode = toy_unb64, hmac = (\<lambda>k m. k @ m)\<rparr>"

lemma toy_unb64_b64: "toy_unb64 (toy_b64 bs) = Some bs"
proof (induction bs)
  case Nil
  then show ?case by (simp add: toy_b64_def)
next
  case (Cons b bs)
  have lt: "unat b < 256" using unsigned_less [of b] by simp
  then have "unat b div 16 < 16" by auto
  then have "code (char_of (65 + unat b div 16)) = 65 + unat b div 16"
    "code (char_of (65 + unat b mod 16)) = 65 + unat b mod 16"
    by (simp_all add: code_char_of)
  moreover have "unat b div 16 * 16 + unat b mod 16 = unat b" by simp
  ultimately show ?case using Cons by (simp add: toy_b64_def)
qed

lemma toy_crypto_laws: "b64_laws toy_crypto"
proof -
  have small: "unat b div 16 < 16" for b :: u8
  proof -
    have "unat b < 256" using unsigned_less [of b] by simp
    then show ?thesis by auto
  qed
  have no_dot: "char_of (65 + n) \<noteq> CHR ''.''" if "n < 16" for n :: nat
  proof
    assume "char_of (65 + n) = CHR ''.''"
    then have "code (CHR ''.'') = 65 + n"
      using that code_char_of [of "65 + n"] by simp
    then show False by (simp add: code_def)
  qed
  have "CHR ''.'' \<notin> set (toy_b64 bs)" for bs
  proof (induction bs)
    case Nil
    then show ?case by (simp add: toy_b64_def)
  next
    case (Cons b bs)
    then show ?case
      using no_dot [OF small, of b] no_dot [of "unat b mod 16"] by (simp add: toy_b64_def)
  qed
  then show ?thesis by (simp add: b64_laws_def toy_crypto_def toy_unb64_b64)
qed

theorem share_token_roundtrip_witness:
  "share_verify toy_crypto [7] (share_encode toy_crypto [7] ''gid'' 3 1000 ''a:b:c'')
    = Some (''gid'', ''a:b:c'', 3, 1000)"
  by (rule share_token_roundtrip [OF toy_crypto_laws]) simp_all

lemma splitn_length: "length (splitn n c s) \<le> n"
  by (induction n c s rule: splitn.induct) (auto split: option.splits)

lemma share_verify_signed:
  assumes "share_verify cr key token = Some (gid, user, index, ex)"
  obtains p s payload body si se where "split_once CHR ''.'' token = Some (p, s)"
    "b64_decode cr p = Some payload" "b64_decode cr s = Some (hmac cr key payload)"
    "from_utf8 payload = Some body" "splitn 4 CHR '':'' body = [gid, si, se, user]"
    "parse_uint u64_max si = Some index" "parse_uint u64_max se = Some ex"
proof -
  obtain p s where 1: "split_once CHR ''.'' token = Some (p, s)"
    using assms by (auto simp: share_verify_def bind_eq_Some_conv)
  then obtain payload sig where 2: "b64_decode cr p = Some payload" "b64_decode cr s = Some sig"
    using assms by (auto simp: share_verify_def bind_eq_Some_conv)
  then have 3: "sig = hmac cr key payload"
    using assms 1 by (auto simp: share_verify_def split: if_splits)
  then obtain body where 4: "from_utf8 payload = Some body"
    using assms 1 2 by (auto simp: share_verify_def bind_eq_Some_conv)
  obtain a b c d r where 5: "splitn 4 CHR '':'' body = a # b # c # d # r"
    using assms 1 2 3 4 by (auto simp: share_verify_def split: list.splits)
  have "r = []" using splitn_length [of 4 "CHR '':''" body] 5 by simp
  then show thesis
    using that [OF 1 2(1)] 2 3 4 5 assms 1
    by (auto simp: share_verify_def bind_eq_Some_conv)
qed

subsection \<open>Grants\<close>

record grant =
  g_id :: string
  g_username :: string
  g_index :: nat
  g_expires_at :: nat
  g_note :: string
  g_chan :: nat

type_synonym grants = "(string, grant) hmap"

definition max_grants_per_user :: nat where "max_grants_per_user = 32"
definition max_viewers_per_grant :: nat where "max_viewers_per_grant = 32"

datatype create_error = TooMany
datatype lease_error = Invalid | Full

definition prune_expired :: "(nat \<Rightarrow> bool) \<Rightarrow> nat \<Rightarrow> grants \<Rightarrow> nat \<times> nat list \<times> grants" where
  "prune_expired live now m =
    (let cut = map g_chan (filter (\<lambda>g. \<not> now < g_expires_at g) (hm_values m))
     in (length (filter live cut), cut, hm_retain (\<lambda>g. now < g_expires_at g) m))"

definition held_by :: "string \<Rightarrow> grants \<Rightarrow> grant list" where
  "held_by username m = filter (\<lambda>g. g_username g = username) (hm_values m)"

text \<open>\<open>now1\<close> and \<open>now2\<close> are the two clock readings, \<open>gid\<close> the random id and \<open>ch\<close> the new watch channel
  with its semaphore. The second component of the result are the channels that were closed.\<close>

definition share_create ::
  "crypto \<Rightarrow> u8 list \<Rightarrow> string \<Rightarrow> nat \<Rightarrow> nat \<Rightarrow> string \<Rightarrow> nat \<Rightarrow> nat \<Rightarrow> string \<Rightarrow> nat \<Rightarrow> grants
    \<Rightarrow> (create_error + string \<times> string) \<times> nat list \<times> grants" where
  "share_create cr key username index ttl note now1 now2 gid ch m =
    (let ex = sat_add64 now1 ttl;
         token = share_encode cr key gid index ex username;
         (_, cut, kept) = prune_expired (\<lambda>_. False) now2 m
     in if length (held_by username kept) \<ge> max_grants_per_user then (Inl TooMany, cut, kept)
        else (Inr (token, gid), cut @ (case hm_get kept gid of None \<Rightarrow> [] | Some g \<Rightarrow> [g_chan g]),
              hm_insert gid \<lparr>g_id = gid, g_username = username, g_index = index, g_expires_at = ex,
                             g_note = sanitize_note note, g_chan = ch\<rparr> kept))"

definition share_token_for :: "crypto \<Rightarrow> u8 list \<Rightarrow> grant \<Rightarrow> string" where
  "share_token_for cr key g = share_encode cr key (g_id g) (g_index g) (g_expires_at g) (g_username g)"

definition share_sweep :: "(nat \<Rightarrow> bool) \<Rightarrow> nat \<Rightarrow> grants \<Rightarrow> nat \<times> nat list \<times> grants" where
  "share_sweep live now m = prune_expired live now m"

definition grant_matches :: "grant \<Rightarrow> string \<Rightarrow> nat \<Rightarrow> nat \<Rightarrow> bool" where
  "grant_matches g user index ex \<longleftrightarrow>
     \<not> (g_username g \<noteq> user \<or> g_index g \<noteq> index \<or> g_expires_at g \<noteq> ex)"

definition share_resolve ::
  "crypto \<Rightarrow> u8 list \<Rightarrow> nat \<Rightarrow> string \<Rightarrow> grants \<Rightarrow> (string \<times> nat) option \<times> nat list \<times> grants" where
  "share_resolve cr key now token m =
    (case share_verify cr key token of
      None \<Rightarrow> (None, [], m)
    | Some (gid, user, index, ex) \<Rightarrow>
        if now \<ge> ex then
          (case hm_get m gid of
            Some g \<Rightarrow> (None, [g_chan g], hm_remove gid m)
          | None \<Rightarrow> (None, [], m))
        else
          (case hm_get m gid of
            None \<Rightarrow> (None, [], m)
          | Some g \<Rightarrow> if grant_matches g user index ex then (Some (user, index), [], m)
                      else (None, [], m)))"

definition share_remaining_secs :: "crypto \<Rightarrow> u8 list \<Rightarrow> nat \<Rightarrow> string \<Rightarrow> grants \<Rightarrow> nat option" where
  "share_remaining_secs cr key now token m =
    Option.bind (share_verify cr key token) (\<lambda>(gid, _, _, ex).
      if hm_get m gid = None then None
      else Option.bind (checked_sub ex now) (\<lambda>r. if r > 0 then Some r else None))"

definition share_revoke :: "string \<Rightarrow> string \<Rightarrow> grants \<Rightarrow> bool \<times> nat list \<times> grants" where
  "share_revoke username gid m =
    (case hm_get m gid of
      Some g \<Rightarrow> if g_username g = username then (True, [g_chan g], hm_remove gid m) else (False, [], m)
    | None \<Rightarrow> (False, [], m))"

definition share_list :: "nat \<Rightarrow> string \<Rightarrow> grants \<Rightarrow> grant list \<times> nat list \<times> grants" where
  "share_list now username m =
    (let (_, cut, kept) = prune_expired (\<lambda>_. False) now m in (held_by username kept, cut, kept))"

subsection \<open>Leases\<close>

record lease =
  l_username :: string
  l_index :: nat
  l_expires_at :: nat
  l_chan :: nat

definition share_lease ::
  "crypto \<Rightarrow> u8 list \<Rightarrow> (nat \<Rightarrow> bool) \<Rightarrow> nat \<Rightarrow> string \<Rightarrow> grants \<Rightarrow> lease_error + lease" where
  "share_lease cr key permit now token m =
    (case share_verify cr key token of
      None \<Rightarrow> Inl Invalid
    | Some (gid, user, index, ex) \<Rightarrow>
        if now \<ge> ex then Inl Invalid
        else (case hm_get m gid of
            None \<Rightarrow> Inl Invalid
          | Some g \<Rightarrow>
              if \<not> grant_matches g user index ex then Inl Invalid
              else if \<not> permit (g_chan g) then Inl Full
              else Inr \<lparr>l_username = user, l_index = index, l_expires_at = ex, l_chan = g_chan g\<rparr>))"

text \<open>What a receiver sees of its watch channel: the last value sent, and whether the sender is gone.
  Wall-clock instants are nanoseconds since the epoch; adding a duration to an instant panics (here
  \<open>None\<close>) once the seconds leave the signed 64-bit range.\<close>

record watch_view =
  w_value :: bool
  w_closed :: bool

definition i64_max :: nat where "i64_max = 9223372036854775807"

definition add_time :: "nat \<Rightarrow> nat \<Rightarrow> nat option" where
  "add_time t d = (if (t + d) div 1000000000 \<le> i64_max then Some (t + d) else None)"

definition expires_at_time :: "lease \<Rightarrow> nat option" where
  "expires_at_time l = add_time 0 (l_expires_at l * 1000000000)"

definition lease_expired :: "nat \<Rightarrow> lease \<Rightarrow> bool option" where
  "lease_expired now_ns l = map_option (\<lambda>e. now_ns \<ge> e) (expires_at_time l)"

definition lease_revoked :: "watch_view \<Rightarrow> bool" where
  "lease_revoked v \<longleftrightarrow> w_value v \<or> w_closed v"

definition lease_valid :: "nat \<Rightarrow> watch_view \<Rightarrow> lease \<Rightarrow> bool option" where
  "lease_valid now_ns v l = map_option (\<lambda>e. \<not> e \<and> \<not> lease_revoked v) (lease_expired now_ns l)"

definition lease_deadline :: "nat \<Rightarrow> nat \<Rightarrow> lease \<Rightarrow> nat option" where
  "lease_deadline now_ns tick l = Option.bind (expires_at_time l) (\<lambda>e. add_time tick (e - now_ns))"

subsection \<open>Invariant and traces\<close>

definition grants_ok :: "grants \<Rightarrow> bool" where
  "grants_ok m \<longleftrightarrow> hm_ok m \<and> (\<forall>k g. hm_get m k = Some g \<longrightarrow> g_id g = k) \<and>
     (\<forall>u. length (held_by u m) \<le> max_grants_per_user)"

datatype share_op =
    Create string nat nat string nat nat string nat
  | Sweep nat
  | Resolve nat string
  | Revoke string string
  | Listing nat string

fun share_step :: "crypto \<Rightarrow> u8 list \<Rightarrow> share_op \<Rightarrow> grants \<Rightarrow> nat list \<times> grants" where
  "share_step cr key (Create user index ttl note now1 now2 gid ch) m =
     snd (share_create cr key user index ttl note now1 now2 gid ch m)"
| "share_step cr key (Sweep now) m = snd (share_sweep (\<lambda>_. False) now m)"
| "share_step cr key (Resolve now token) m = snd (share_resolve cr key now token m)"
| "share_step cr key (Revoke user gid) m = snd (share_revoke user gid m)"
| "share_step cr key (Listing now user) m = snd (share_list now user m)"

fun share_run :: "crypto \<Rightarrow> u8 list \<Rightarrow> share_op list \<Rightarrow> grants \<Rightarrow> grants" where
  "share_run cr key [] m = m"
| "share_run cr key (p # ps) m = share_run cr key ps (snd (share_step cr key p m))"

lemma share_run_append: "share_run cr key (ps @ qs) m = share_run cr key qs (share_run cr key ps m)"
  by (induction ps arbitrary: m) auto

lemma prune_get:
  "hm_ok m \<Longrightarrow> hm_get (snd (snd (prune_expired live now m))) k = Some g
    \<longleftrightarrow> hm_get m k = Some g \<and> now < g_expires_at g"
  by (simp add: prune_expired_def hm.get_ret_Some)

lemma held_by_filter: "length (held_by u (filter P m)) \<le> length (held_by u m)"
  unfolding held_by_def hm_values_def by (induction m) auto

lemma held_by_retain: "length (held_by u (hm_retain P m)) \<le> length (held_by u m)"
  unfolding hm_retain_def by (rule held_by_filter)

lemma held_by_remove: "length (held_by u (hm_remove k m)) \<le> length (held_by u m)"
  unfolding hm_remove_def by (rule held_by_filter)

lemma held_by_insert:
  "length (held_by u (hm_insert k g m)) \<le> length (held_by u m) + (if g_username g = u then 1 else 0)"
  unfolding held_by_def hm_values_def hm_insert_def by (induction m) auto

lemma grants_ok_D:
  assumes "grants_ok m"
  shows "hm_ok m" and "hm_get m k = Some g \<Longrightarrow> g_id g = k"
    and "length (held_by u m) \<le> max_grants_per_user"
  using assms by (auto simp: grants_ok_def)

lemma grants_ok_retain: "grants_ok m \<Longrightarrow> grants_ok (hm_retain P m)"
  unfolding grants_ok_def
  by (auto simp: hm.ok_ret hm.get_ret_Some intro: order_trans [OF held_by_retain])

lemma grants_ok_remove: "grants_ok m \<Longrightarrow> grants_ok (hm_remove k m)"
  unfolding grants_ok_def
  by (auto simp: hm.ok_rem hm.get_rem split: if_splits intro: order_trans [OF held_by_remove])

lemma grants_ok_insert:
  assumes "grants_ok m" "length (held_by (g_username g) m) < max_grants_per_user" "g_id g = k"
  shows "grants_ok (hm_insert k g m)"
proof -
  have "length (held_by u (hm_insert k g m)) \<le> max_grants_per_user" for u
    using held_by_insert [of u k g m] assms(2) grants_ok_D(3) [OF assms(1), of u]
    by (cases "g_username g = u") auto
  then show ?thesis
    using assms unfolding grants_ok_def by (auto simp: hm.ok_ins hm.get_ins)
qed

lemma share_step_ok:
  assumes "grants_ok m"
  shows "grants_ok (snd (share_step cr key p m))"
  using assms
  by (cases p) (auto simp: share_create_def share_sweep_def share_resolve_def share_revoke_def
      share_list_def prune_expired_def Let_def split: option.splits
      intro!: grants_ok_insert grants_ok_retain grants_ok_remove)

lemma grants_ok_Nil: "grants_ok []"
  by (simp add: grants_ok_def held_by_def hm_values_def)

lemma share_run_ok: "grants_ok m \<Longrightarrow> grants_ok (share_run cr key ps m)"
  by (induction ps arbitrary: m) (auto intro: share_step_ok)

text \<open>What one step does to one grant.\<close>

lemma share_step_get:
  assumes "grants_ok m" and "hm_get (snd (share_step cr key p m)) gid = Some g"
  obtains (kept) "hm_get m gid = Some g" "p \<noteq> Revoke (g_username g) gid"
  | (made) memo ttl now1 now2
    where "p = Create (g_username g) (g_index g) ttl memo now1 now2 gid (g_chan g)"
      "g_expires_at g = sat_add64 now1 ttl" "g_note g = sanitize_note memo" "g_id g = gid"
proof (cases p)
  case (Create user index ttl memo now1 now2 gid' ch)
  then show thesis
    using assms that grants_ok_D(1) [OF assms(1)]
    by (auto simp: share_create_def prune_expired_def Let_def hm.get_ins hm.get_ret_Some
        split: if_splits)
next
  case (Resolve now token)
  then show thesis
    using assms that by (auto simp: share_resolve_def hm.get_rem split: option.splits if_splits)
next
  case (Revoke user gid')
  show thesis
  proof (cases "gid' = gid \<and> user = g_username g")
    case True
    then show thesis
      using assms Revoke by (auto simp: share_revoke_def hm.get_rem split: option.splits if_splits)
  next
    case False
    then show thesis
      using assms that Revoke
      by (auto simp: share_revoke_def hm.get_rem split: option.splits if_splits)
  qed
next
  case (Sweep now)
  then show thesis
    using assms that grants_ok_D(1) [OF assms(1)]
    by (auto simp: share_sweep_def prune_expired_def Let_def hm.get_ret_Some)
next
  case (Listing now user)
  then show thesis
    using assms that grants_ok_D(1) [OF assms(1)]
    by (auto simp: share_list_def prune_expired_def Let_def hm.get_ret_Some)
qed

lemma share_run_get:
  assumes "hm_get (share_run cr key ps []) gid = Some g"
  shows "\<exists>pre post memo ttl now1 now2.
    ps = pre @ Create (g_username g) (g_index g) ttl memo now1 now2 gid (g_chan g) # post \<and>
    g_expires_at g = sat_add64 now1 ttl \<and> Revoke (g_username g) gid \<notin> set post"
  using assms
proof (induction ps rule: rev_induct)
  case Nil
  then show ?case by simp
next
  case (snoc p ps)
  have ok: "grants_ok (share_run cr key ps [])" by (rule share_run_ok [OF grants_ok_Nil])
  have last: "hm_get (snd (share_step cr key p (share_run cr key ps []))) gid = Some g"
    using snoc.prems by (simp add: share_run_append)
  from ok last show ?case
  proof (cases rule: share_step_get)
    case kept
    from snoc.IH [OF kept(1)] obtain pre post memo ttl now1 now2 where
      "ps = pre @ Create (g_username g) (g_index g) ttl memo now1 now2 gid (g_chan g) # post"
      "g_expires_at g = sat_add64 now1 ttl" "Revoke (g_username g) gid \<notin> set post" by blast
    then show ?thesis using kept(2)
      by (intro exI [of _ pre] exI [of _ "post @ [p]"] exI [of _ memo] exI [of _ ttl]
          exI [of _ now1] exI [of _ now2]) auto
  next
    case (made memo ttl now1 now2)
    then show ?thesis
      by (intro exI [of _ ps] exI [of _ "[]"] exI [of _ memo] exI [of _ ttl]
          exI [of _ now1] exI [of _ now2]) auto
  qed
qed

subsection \<open>The contracts\<close>

interpretation shares: expiring
  "\<lambda>t g. \<not> t < g_expires_at g" "\<lambda>t m. snd (snd (share_sweep (\<lambda>_. False) t m))"
  by unfold_locales (auto simp: share_sweep_def prune_expired_def Let_def hm.get_ret_Some hm.ok_ret)

interpretation share_owner: owner_scoped
  "\<lambda>u i m. (fst (share_revoke u i m), snd (snd (share_revoke u i m)))" g_username g_id grants_ok
proof unfold_locales
  show "hm_ok m" if "grants_ok m" for m :: grants
    using that by (rule grants_ok_D)
  show "\<exists>k r. hm_get m k = Some r \<and> g_username r = u \<and> g_id r = i \<and> m' = hm_remove k m"
    if "grants_ok m" "(fst (share_revoke u i m), snd (snd (share_revoke u i m))) = (True, m')"
    for m m' u i
    using that grants_ok_D(2) [OF that(1)]
    by (fastforce simp: share_revoke_def split: option.splits if_splits)
  show "m' = m \<and> (\<forall>k r. hm_get m k = Some r \<longrightarrow> g_username r = u \<longrightarrow> g_id r \<noteq> i)"
    if "grants_ok m" "(fst (share_revoke u i m), snd (snd (share_revoke u i m))) = (False, m')"
    for m m' u i
    using that grants_ok_D(2) [OF that(1)]
    by (fastforce simp: share_revoke_def split: option.splits if_splits)
qed

subsection \<open>What a link grants, and for how long\<close>

lemma grant_matches_iff:
  "grant_matches g user index ex \<longleftrightarrow> g_username g = user \<and> g_index g = index \<and> g_expires_at g = ex"
  by (auto simp: grant_matches_def)

lemma share_lease_Inr:
  assumes "share_lease cr key permit now token m = Inr l"
  obtains gid g where
    "share_verify cr key token = Some (gid, l_username l, l_index l, l_expires_at l)"
    "now < l_expires_at l" "hm_get m gid = Some g" "g_username g = l_username l"
    "g_index g = l_index l" "g_expires_at g = l_expires_at l" "g_chan g = l_chan l" "permit (l_chan l)"
proof -
  obtain gid user index ex where v: "share_verify cr key token = Some (gid, user, index, ex)"
    using assms by (auto simp: share_lease_def split: option.splits)
  with assms have t: "now < ex" by (auto simp: share_lease_def split: if_splits)
  with assms v obtain g where "hm_get m gid = Some g"
    by (auto simp: share_lease_def split: option.splits)
  with assms v t that show thesis
    by (auto simp: share_lease_def grant_matches_iff split: if_splits)
qed

text \<open>a viewer is only ever admitted through a link its owner created and has not revoked since:
  the lease carries the owner, the slot and the very expiry of that creation, and the clock is before
  it, whatever else happened to the store in between.\<close>

theorem share_lease_authorized:
  assumes "share_lease cr key permit now token (share_run cr key ps []) = Inr l"
  shows "now < l_expires_at l \<and>
    (\<exists>pre post memo ttl now1 now2 gid.
      ps = pre @ Create (l_username l) (l_index l) ttl memo now1 now2 gid (l_chan l) # post \<and>
      l_expires_at l = sat_add64 now1 ttl \<and> Revoke (l_username l) gid \<notin> set post)"
  using assms
proof (rule share_lease_Inr)
  fix gid g
  assume g: "hm_get (share_run cr key ps []) gid = Some g" "now < l_expires_at l"
    "g_username g = l_username l" "g_index g = l_index l" "g_expires_at g = l_expires_at l"
    "g_chan g = l_chan l"
  from share_run_get [OF g(1)] show ?thesis unfolding g(3-6) using g(2) by blast
qed

theorem share_lease_authorized_witness:
  "(let l = \<lparr>l_username = ''u'', l_index = 3, l_expires_at = 1100, l_chan = 5\<rparr>
    in 1000 < l_expires_at l \<and>
    (\<exists>pre post memo ttl now1 now2 gid.
      [Create ''u'' 3 100 ''x'' 1000 1000 ''gid'' 5, Sweep 1050]
        = pre @ Create (l_username l) (l_index l) ttl memo now1 now2 gid (l_chan l) # post \<and>
      l_expires_at l = sat_add64 now1 ttl \<and> Revoke (l_username l) gid \<notin> set post))"
proof -
  have "share_verify toy_crypto [7] (share_encode toy_crypto [7] ''gid'' 3 1100 ''u'')
      = Some (''gid'', ''u'', 3, 1100)"
    by (rule share_token_roundtrip_aux [OF toy_crypto_laws]) simp_all
  then have "share_lease toy_crypto [7] (\<lambda>_. True) 1000 (share_encode toy_crypto [7] ''gid'' 3 1100 ''u'')
      (share_run toy_crypto [7] [Create ''u'' 3 100 ''x'' 1000 1000 ''gid'' 5, Sweep 1050] [])
    = Inr \<lparr>l_username = ''u'', l_index = 3, l_expires_at = 1100, l_chan = 5\<rparr>"
    by (simp add: share_lease_def share_create_def share_sweep_def prune_expired_def held_by_def
        hm_values_def hm_retain_def hm_insert_def hm_get_def max_grants_per_user_def sat_add64_def
        grant_matches_def Let_def)
  from share_lease_authorized [OF this] show ?thesis by (simp add: Let_def)
qed

definition creates :: "string \<Rightarrow> share_op \<Rightarrow> bool" where
  "creates gid p \<longleftrightarrow> (case p of Create _ _ _ _ _ _ gid' _ \<Rightarrow> gid' = gid | _ \<Rightarrow> False)"

lemma share_run_absent:
  assumes "grants_ok m" "hm_get m gid = None" "list_all (\<lambda>p. \<not> creates gid p) ps"
  shows "hm_get (share_run cr key ps m) gid = None"
  using assms
proof (induction ps arbitrary: m)
  case Nil
  then show ?case by simp
next
  case (Cons p ps)
  have "hm_get (snd (share_step cr key p m)) gid \<noteq> Some g" for g
  proof
    assume "hm_get (snd (share_step cr key p m)) gid = Some g"
    with Cons.prems(1) show False
      by (cases rule: share_step_get) (use Cons.prems in \<open>auto simp: creates_def\<close>)
  qed
  then have "hm_get (snd (share_step cr key p m)) gid = None" by (metis not_Some_eq)
  then show ?case
    using Cons.IH [OF share_step_ok [OF Cons.prems(1)]] Cons.prems(3) by simp
qed

lemma share_absent_refused:
  assumes "hm_get m gid = None" "share_verify cr key token = Some (gid, u, i, ex)"
  shows "share_lease cr key permit now token m = Inl Invalid"
    and "fst (share_resolve cr key now token m) = None"
    and "share_remaining_secs cr key now token m = None"
  using assms by (simp_all add: share_lease_def share_resolve_def share_remaining_secs_def)

text \<open>C33: once its owner has revoked a link, nothing reaches the terminal through it again: in every
  later state (the random id not being drawn a second time) leasing, resolving and asking for the
  remaining time all fail, and the viewers' channel was closed by the revocation itself.\<close>

theorem share_revocation_final:
  assumes "grants_ok m" and "share_revoke user gid m = (True, closed, m')"
    and "list_all (\<lambda>p. \<not> creates gid p) ps"
    and "share_verify cr key token = Some (gid, u, i, ex)"
  shows "share_lease cr key permit now token (share_run cr key ps m') = Inl Invalid \<and>
    fst (share_resolve cr key now token (share_run cr key ps m')) = None \<and>
    share_remaining_secs cr key now token (share_run cr key ps m') = None \<and>
    (\<exists>g. hm_get m gid = Some g \<and> g_username g = user \<and> closed = [g_chan g])"
proof -
  have m': "m' = hm_remove gid m" and "\<exists>g. hm_get m gid = Some g \<and> g_username g = user \<and> closed = [g_chan g]"
    using assms(2) by (auto simp: share_revoke_def split: option.splits if_splits)
  moreover have "hm_get (share_run cr key ps m') gid = None"
    using assms(1,3) by (intro share_run_absent) (simp_all add: m' grants_ok_remove)
  ultimately show ?thesis
    by (simp add: share_absent_refused [OF _ assms(4)])
qed

theorem share_revocation_final_witness:
  "(let m' = hm_remove ''gid'' (share_run toy_crypto [7] [Create ''u'' 3 100 ''x'' 1000 1000 ''gid'' 5] []);
        token = share_encode toy_crypto [7] ''gid'' 3 1100 ''u'';
        later = share_run toy_crypto [7] [Sweep 1001, Create ''u'' 3 100 ''x'' 1002 1002 ''other'' 6] m'
    in share_lease toy_crypto [7] (\<lambda>_. True) 1010 token later = Inl Invalid)"
proof -
  let ?m = "share_run toy_crypto [7] [Create ''u'' 3 100 ''x'' 1000 1000 ''gid'' 5] []"
  have "share_verify toy_crypto [7] (share_encode toy_crypto [7] ''gid'' 3 1100 ''u'')
      = Some (''gid'', ''u'', 3, 1100)"
    by (rule share_token_roundtrip_aux [OF toy_crypto_laws]) simp_all
  moreover have "share_revoke ''u'' ''gid'' ?m = (True, [5], hm_remove ''gid'' ?m)"
    by (simp add: share_revoke_def share_create_def prune_expired_def held_by_def
        hm_values_def hm_retain_def hm_insert_def hm_get_def max_grants_per_user_def Let_def)
  moreover have "grants_ok ?m" by (rule share_run_ok [OF grants_ok_Nil])
  moreover have "list_all (\<lambda>p. \<not> creates ''gid'' p) [Sweep 1001, Create ''u'' 3 100 ''x'' 1002 1002 ''other'' 6]"
    by (simp add: creates_def)
  ultimately show ?thesis
    unfolding Let_def using share_revocation_final by blast
qed

text \<open>no grant leaves the store silently: whenever a step of the store loses a grant (by revocation,
  expiry, an expired token being presented, or being overwritten), the viewers' channel of that
  grant is among the channels the step closed.\<close>

theorem share_closes_viewers:
  assumes "grants_ok m" and "hm_get m gid = Some g"
    and "hm_get (snd (share_step cr key p m)) gid \<noteq> Some g"
  shows "g_chan g \<in> set (fst (share_step cr key p m))"
proof -
  have val: "g \<in> set (hm_values m)"
    using hm.vals_get [OF grants_ok_D(1) [OF assms(1)]] assms(2) by auto
  have pruned: "g_chan g \<in> set (fst (snd (prune_expired live now m)))"
    if "\<not> now < g_expires_at g" for live now
    using that val by (auto simp: prune_expired_def Let_def)
  have ok: "hm_ok m" by (rule grants_ok_D(1) [OF assms(1)])
  show ?thesis
  proof (cases p)
    case (Create user index ttl memo now1 now2 gid' ch)
    show ?thesis
    proof (cases "now2 < g_expires_at g")
      case True
      then have kept: "hm_get (hm_retain (\<lambda>g. now2 < g_expires_at g) m) gid = Some g"
        using assms(2) ok by (simp add: hm.get_ret_Some)
      then show ?thesis
        using assms(3) Create
        by (auto simp: share_create_def prune_expired_def Let_def hm.get_ins split: if_splits)
    next
      case False
      from pruned [OF this] show ?thesis
        using Create by (auto simp: share_create_def prune_expired_def Let_def)
    qed
  next
    case (Sweep now)
    then show ?thesis
      using pruned [of now "\<lambda>_. False"] assms(2,3) ok by (auto simp: share_sweep_def prune_get)
  next
    case (Listing now user)
    then show ?thesis
      using pruned [of now "\<lambda>_. False"] assms(2,3) ok
      by (auto simp: share_list_def prune_expired_def Let_def hm.get_ret_Some)
  next
    case (Resolve now token)
    then show ?thesis
      using assms(2,3) by (auto simp: share_resolve_def hm.get_rem split: option.splits if_splits)
  next
    case (Revoke user gid')
    then show ?thesis
      using assms(2,3) by (auto simp: share_revoke_def hm.get_rem split: option.splits if_splits)
  qed
qed

theorem share_closes_viewers_witness:
  "(let g = \<lparr>g_id = ''gid'', g_username = ''u'', g_index = 3, g_expires_at = 1100, g_note = '''', g_chan = 5\<rparr>
    in g_chan g \<in> set (fst (share_step toy_crypto [7] (Sweep 1100) [(''gid'', g)])))"
proof -
  let ?g = "\<lparr>g_id = ''gid'', g_username = ''u'', g_index = 3, g_expires_at = 1100, g_note = '''', g_chan = 5\<rparr>"
  have "grants_ok [(''gid'', ?g)]"
    by (auto simp: grants_ok_def hm_ok_def hm_get_def held_by_def hm_values_def max_grants_per_user_def)
  then show ?thesis
    unfolding Let_def
    by (rule share_closes_viewers [where gid = "''gid''"])
      (simp_all add: hm_get_def share_sweep_def prune_expired_def hm_retain_def Let_def)
qed

text \<open>whatever happens to the store, no user ever holds more than 32 live links; and creating one is
  refused exactly when the user already holds 32 links that have not expired.\<close>

theorem share_create_cap:
  "length (held_by u (share_run cr key ps [])) \<le> 32 \<and>
   (fst (share_create cr key u index ttl memo now1 now2 gid ch (share_run cr key ps [])) = Inl TooMany
     \<longleftrightarrow> length (filter (\<lambda>g. now2 < g_expires_at g) (held_by u (share_run cr key ps []))) = 32)"
proof -
  let ?m = "share_run cr key ps []"
  have ok: "grants_ok ?m" by (rule share_run_ok [OF grants_ok_Nil])
  have live: "held_by u (hm_retain (\<lambda>g. now2 < g_expires_at g) ?m)
      = filter (\<lambda>g. now2 < g_expires_at g) (held_by u ?m)" for u
    by (simp add: held_by_def hm_values_def hm_retain_def filter_map o_def conj_commute)
  have "length (filter (\<lambda>g. now2 < g_expires_at g) (held_by u ?m)) \<le> 32"
    using grants_ok_D(3) [OF ok, of u] unfolding max_grants_per_user_def
    by (rule order_trans [OF length_filter_le])
  then show ?thesis
    using grants_ok_D(3) [OF ok, of u]
    by (auto simp: share_create_def prune_expired_def live max_grants_per_user_def Let_def)
qed

text \<open>a link that was just created works for its whole life: until the expiry it resolves to the owner's
  slot, reports the seconds left, admits viewers while there is a permit, and any copy of the token
  rebuilt from the stored grant is the same token.\<close>

theorem share_create_usable:
  assumes "b64_laws cr" and "CHR '':'' \<notin> set gid" and "index \<le> u64_max"
    and "share_create cr key user index ttl memo now1 now2 gid ch m = (Inr (token, gid), closed, m')"
    and "now < sat_add64 now1 ttl"
  shows "share_resolve cr key now token m' = (Some (user, index), [], m') \<and>
    share_remaining_secs cr key now token m' = Some (sat_add64 now1 ttl - now) \<and>
    share_lease cr key (\<lambda>_. True) now token m' = Inr \<lparr>l_username = user, l_index = index,
      l_expires_at = sat_add64 now1 ttl, l_chan = ch\<rparr> \<and>
    map_option (share_token_for cr key) (hm_get m' gid) = Some token"
proof -
  have token: "token = share_encode cr key gid index (sat_add64 now1 ttl) user"
    and get: "hm_get m' gid = Some \<lparr>g_id = gid, g_username = user, g_index = index,
      g_expires_at = sat_add64 now1 ttl, g_note = sanitize_note memo, g_chan = ch\<rparr>"
    using assms(4) by (auto simp: share_create_def Let_def split: prod.splits if_splits)
  have "share_verify cr key token = Some (gid, user, index, sat_add64 now1 ttl)"
    unfolding token by (rule share_token_roundtrip_aux [OF assms(1-3)]) (simp add: sat_add64_def)
  then show ?thesis
    using get assms(5) token
    by (simp add: share_resolve_def share_remaining_secs_def share_lease_def share_token_for_def
        grant_matches_def checked_sub_def)
qed

theorem share_create_usable_witness:
  "share_resolve toy_crypto [7] 1099 (share_encode toy_crypto [7] ''gid'' 3 1100 ''u'')
      (snd (snd (share_create toy_crypto [7] ''u'' 3 100 ''x'' 1000 1000 ''gid'' 5 [])))
    = (Some (''u'', 3), [], snd (snd (share_create toy_crypto [7] ''u'' 3 100 ''x'' 1000 1000 ''gid'' 5 [])))"
proof -
  have made: "share_create toy_crypto [7] ''u'' 3 100 ''x'' 1000 1000 ''gid'' 5 []
    = (Inr (share_encode toy_crypto [7] ''gid'' 3 1100 ''u'', ''gid''), [],
       snd (snd (share_create toy_crypto [7] ''u'' 3 100 ''x'' 1000 1000 ''gid'' 5 [])))"
    by (simp add: share_create_def prune_expired_def held_by_def hm_values_def hm_retain_def
        hm_get_def max_grants_per_user_def sat_add64_def Let_def)
  show ?thesis
    by (rule conjunct1 [OF share_create_usable [OF toy_crypto_laws _ _ made]])
      (simp_all add: sat_add64_def)
qed

text \<open>the validity of a lease is irrevocably lost: once it is invalid it stays invalid at every later
  instant, however the channel moves on (a sent value stays sent, a dropped sender stays dropped).\<close>

theorem lease_validity_lost_for_good:
  assumes "lease_valid t v l = Some False" and "t \<le> t'"
    and "w_value v \<longrightarrow> w_value v'" and "w_closed v \<longrightarrow> w_closed v'"
  shows "lease_valid t' v' l = Some False"
proof -
  obtain e where e: "expires_at_time l = Some e"
    using assms(1) by (auto simp: lease_valid_def lease_expired_def)
  then have "e \<le> t \<or> lease_revoked v"
    using assms(1) by (simp add: lease_valid_def lease_expired_def)
  then have "e \<le> t' \<or> lease_revoked v'"
    using assms(2-4) unfolding lease_revoked_def by (metis order_trans)
  then show ?thesis
    using e by (simp add: lease_valid_def lease_expired_def)
qed

theorem lease_validity_lost_for_good_witness:
  "lease_valid 2000000000000 \<lparr>w_value = False, w_closed = True\<rparr>
     \<lparr>l_username = ''u'', l_index = 3, l_expires_at = 1100, l_chan = 5\<rparr> = Some False"
  by (rule lease_validity_lost_for_good [where t = 1100000000000
        and v = "\<lparr>w_value = False, w_closed = False\<rparr>"])
    (simp_all add: lease_valid_def lease_expired_def lease_revoked_def expires_at_time_def add_time_def
      i64_max_def)

text \<open>The force-close timer and the wall-clock check agree: the timer is due now exactly when the lease has
  expired.\<close>

lemma lease_deadline_due:
  assumes "lease_deadline now_ns tick l = Some d"
  shows "lease_expired now_ns l = Some (d \<le> tick)"
  using assms
  by (auto simp: lease_deadline_def lease_expired_def add_time_def bind_eq_Some_conv split: if_splits)

text \<open>The saturated expiry of an absurd time to live is beyond what an instant can hold: reading it panics.\<close>

lemma lease_expiry_overflow:
  "l_expires_at l = sat_add64 now u64_max \<Longrightarrow> lease_valid t v l = None"
  by (simp add: lease_valid_def lease_expired_def expires_at_time_def add_time_def sat_add64_def i64_max_def)

lemma share_foreign_untouched:
  "grants_ok m \<Longrightarrow> g_username g \<noteq> u \<Longrightarrow> hm_get m k = Some g \<Longrightarrow>
    hm_get (snd (snd (share_revoke u i m))) k = Some g"
  using share_owner.others_untouched by fastforce

end
