(* ===== verification/Viewer.thy ===== *)
theory Viewer
  imports Pty Share
begin

text \<open>
  The WebSocket of a share viewer (\<open>ViewerOutput\<close> and \<open>bridge\<close> in \<open>src/src/pty.rs\<close>): one attached terminal,
  a guard over the write half that checks the lease before every frame, and the loop whose
  termination arms come first.

  Every write is awaited, so the clock and the terminals move between two frames: frames still to be
  written are a phase of the viewer and each write is a step of its own. The wall clock is taken not
  to run backwards, as the source does. Parameters: the JSON parser of the client's control frames,
  base64, the outcome of each write.
\<close>

subsection \<open>State\<close>

text \<open>The wall clock and the timer clock in nanoseconds, and what the lease's receiver sees.\<close>

record world =
  wd_now :: nat
  wd_tick :: nat
  wd_watch :: watch_view

datatype after = Then_loop | Then_close

datatype phase = Sending "frame list" after | Looping | Over

text \<open>\<open>vw_out\<close> is what the socket has taken, each frame with the world in which its write began.\<close>

record viewer =
  vw_lease :: "lease option"
  vw_ro :: bool
  vw_term :: nat
  vw_pos :: nat
  vw_seen :: nat
  vw_due :: "nat option"
  vw_phase :: phase
  vw_out :: "(world \<times> frame) list"

definition guard_valid :: "world \<Rightarrow> viewer \<Rightarrow> bool option" where
  "guard_valid wd vw =
    (case vw_lease vw of None \<Rightarrow> Some True | Some l \<Rightarrow> lease_valid (wd_now wd) (wd_watch wd) l)"

subsection \<open>The guard\<close>

datatype stop = Stop_invalid | Stop_gone

datatype sent = Sent | Stopped stop | Panicked

text \<open>How the race around a write ends: the peer takes the frame, the write fails or stalls, the deadline or the
  revocation comes first. A write that loses may have got its frame out all the same.\<close>

datatype write_end = Written | Failed bool | Deadline_won bool | Revocation_won bool

definition taken :: "world \<Rightarrow> frame \<Rightarrow> bool \<Rightarrow> viewer \<Rightarrow> viewer" where
  "taken wd f out vw = (if out then vw\<lparr>vw_out := vw_out vw @ [(wd, f)]\<rparr> else vw)"

text \<open>\<open>grace\<close>: the peer takes the Close frame within the grace period. Computing the deadline panics where adding
  to the clock overflows.\<close>

definition viewer_send :: "world \<Rightarrow> bool \<Rightarrow> write_end \<Rightarrow> frame \<Rightarrow> viewer \<Rightarrow> sent \<times> viewer" where
  "viewer_send wd grace we f vw =
    (case guard_valid wd vw of
      None \<Rightarrow> (Panicked, vw)
    | Some False \<Rightarrow> (Stopped Stop_invalid, taken wd Close_frame grace vw)
    | Some True \<Rightarrow>
       (case vw_lease vw of
         None \<Rightarrow>
          (case we of
            Written \<Rightarrow> (Sent, taken wd f True vw)
          | Failed out \<Rightarrow> (Stopped Stop_gone, taken wd f out vw)
          | _ \<Rightarrow> (Stopped Stop_gone, vw))
       | Some l \<Rightarrow>
          (case lease_deadline (wd_now wd) (wd_tick wd) l of
            None \<Rightarrow> (Panicked, vw)
          | Some d \<Rightarrow>
             (case we of
               Written \<Rightarrow> (Sent, taken wd f True vw)
             | Failed out \<Rightarrow> (Stopped Stop_gone, taken wd f out vw)
             | Deadline_won out \<Rightarrow> (Stopped Stop_invalid, taken wd f out vw)
             | Revocation_won out \<Rightarrow> (Stopped Stop_invalid, taken wd f out vw)))))"

text \<open>The task returns: the sink, the lease and the receivers are dropped.\<close>

definition viewer_return :: "viewer \<Rightarrow> 's terminals \<Rightarrow> viewer \<times> 's terminals" where
  "viewer_return vw ts = (vw\<lparr>vw_phase := Over\<rparr>, on_term (vw_term vw) watch_drop ts)"

definition viewer_close :: "world \<Rightarrow> bool \<Rightarrow> viewer \<Rightarrow> 's terminals \<Rightarrow> viewer \<times> 's terminals" where
  "viewer_close wd grace vw ts = viewer_return (taken wd Close_frame grace vw) ts"

subsection \<open>The bridge\<close>

definition viewer_open :: "world \<Rightarrow> attachment \<Rightarrow> bool \<Rightarrow> lease option \<Rightarrow> 's terminals \<Rightarrow> viewer \<times> 's terminals" where
  "viewer_open wd att ro lease ts =
    (let vw = \<lparr>vw_lease = lease, vw_ro = ro, vw_term = at_term att, vw_pos = at_pos att, vw_seen = at_seen att,
          vw_due = None, vw_phase = Sending [Text_frame (hello_json None att), Binary_frame (at_replay att)] Then_loop,
          vw_out = []\<rparr>
     in case lease of
          None \<Rightarrow> (vw, ts)
        | Some l \<Rightarrow>
           (case lease_deadline (wd_now wd) (wd_tick wd) l of
             None \<Rightarrow> viewer_return vw ts
           | Some d \<Rightarrow> (vw\<lparr>vw_due := Some d\<rparr>, ts)))"

text \<open>One awaited write of the frames that are due, or what follows the last.\<close>

definition viewer_write :: "world \<Rightarrow> bool \<Rightarrow> write_end \<Rightarrow> viewer \<Rightarrow> 's terminals \<Rightarrow> viewer \<times> 's terminals" where
  "viewer_write wd grace we vw ts =
    (case vw_phase vw of
      Sending (f # fs) k \<Rightarrow>
       (case viewer_send wd grace we f vw of
         (Sent, vw') \<Rightarrow> (vw'\<lparr>vw_phase := Sending fs k\<rparr>, ts)
       | (_, vw') \<Rightarrow> viewer_return vw' ts)
    | Sending [] Then_loop \<Rightarrow> (vw\<lparr>vw_phase := Looping\<rparr>, ts)
    | Sending [] Then_close \<Rightarrow> viewer_close wd grace vw ts
    | _ \<Rightarrow> (vw, ts))"

definition viewer_client ::
  "(string \<Rightarrow> (nat \<times> nat) option) \<Rightarrow> client_msg \<Rightarrow> viewer \<Rightarrow> 's terminals \<Rightarrow> viewer \<times> 's terminals" where
  "viewer_client parse msg vw ts =
    (case msg of
      Bin b \<Rightarrow>
        if vw_ro vw then (vw, ts)
        else (vw, on_term (vw_term vw) (\<lambda>t. snd (try_send (Input b) t)) ts)
    | Txt s \<Rightarrow>
        if vw_ro vw then (vw, ts)
        else (case parse s of
            None \<Rightarrow> (vw, ts)
          | Some (cols, rows) \<Rightarrow>
              let (c, r) = valid_size cols rows
              in (vw, on_term (vw_term vw) (\<lambda>t. snd (try_send (Resize_to c r) t)) ts))
    | Other_msg \<Rightarrow> (vw, ts)
    | _ \<Rightarrow> viewer_return vw ts)"

text \<open>What is ready when the loop polls, besides what the state says: the audit tick, the redraw tick (with
  where the ring's storage wraps), a message.\<close>

record poll =
  po_grace :: bool
  po_audit :: bool
  po_redraw :: "nat option"
  po_msg :: "client_msg option"

definition expiry_ready :: "world \<Rightarrow> viewer \<Rightarrow> bool" where
  "expiry_ready wd vw = (case vw_due vw of None \<Rightarrow> False | Some d \<Rightarrow> d \<le> wd_tick wd)"

definition revocation_ready :: "world \<Rightarrow> viewer \<Rightarrow> bool" where
  "revocation_ready wd vw = (vw_lease vw \<noteq> None \<and> lease_revoked (wd_watch wd))"

definition viewer_redraw ::
  "(u8 list \<Rightarrow> string) \<Rightarrow> 's emulator \<Rightarrow> nat \<Rightarrow> viewer \<Rightarrow> 's terminals \<Rightarrow> viewer \<times> 's terminals" where
  "viewer_redraw b64 em k vw ts =
    (let (r, pos', tm) = redraw_at em k (vw_pos vw) (ts_heap ts ! vw_term vw);
         frames = map Binary_frame (rd_pending r)
     in (vw\<lparr>vw_pos := pos',
            vw_phase := (if rd_lagged r then Sending frames Then_close
                         else Sending (frames @ [Text_frame (redraw_json b64 None r)]) Then_loop)\<rparr>,
         on_term (vw_term vw) (\<lambda>_. tm) ts))"

definition viewer_output :: "world \<Rightarrow> bool \<Rightarrow> viewer \<Rightarrow> 's terminals \<Rightarrow> (viewer \<times> 's terminals) option" where
  "viewer_output wd grace vw ts =
    (case try_recv (tm_log (ts_heap ts ! vw_term vw)) (vw_pos vw) of
      (Chunk b, pos') \<Rightarrow> Some (vw\<lparr>vw_pos := pos', vw_phase := Sending [Binary_frame b] Then_loop\<rparr>, ts)
    | (Lagged, pos') \<Rightarrow> Some (viewer_close wd grace vw ts)
    | (Empty, _) \<Rightarrow> if output_closed (vw_term vw) ts then Some (viewer_return vw ts) else None)"

text \<open>One turn of the loop: the arms in the order they are polled.\<close>

definition viewer_turn ::
  "(string \<Rightarrow> (nat \<times> nat) option) \<Rightarrow> (u8 list \<Rightarrow> string) \<Rightarrow> 's emulator \<Rightarrow> world \<Rightarrow> poll \<Rightarrow> viewer \<Rightarrow> 's terminals
    \<Rightarrow> viewer \<times> 's terminals" where
  "viewer_turn parse b64 em wd po vw ts =
    (let tm = ts_heap ts ! vw_term vw in
     if expiry_ready wd vw then viewer_close wd (po_grace po) vw ts
     else if revocation_ready wd vw then viewer_close wd (po_grace po) vw ts
     else if po_audit po \<and> vw_lease vw \<noteq> None then
       (case guard_valid wd vw of
         None \<Rightarrow> viewer_return vw ts
       | Some True \<Rightarrow> (vw, ts)
       | Some False \<Rightarrow> viewer_close wd (po_grace po) vw ts)
     else case po_redraw po of
       Some k \<Rightarrow> viewer_redraw b64 em k vw ts
     | None \<Rightarrow>
       if tm_version tm \<noteq> vw_seen vw then
         if tm_shutdown tm then viewer_close wd (po_grace po) vw ts
         else (vw\<lparr>vw_seen := tm_version tm\<rparr>, ts)
       else case viewer_output wd (po_grace po) vw ts of
         Some res \<Rightarrow> res
       | None \<Rightarrow> (case po_msg po of None \<Rightarrow> (vw, ts) | Some msg \<Rightarrow> viewer_client parse msg vw ts))"

subsection \<open>Steps\<close>

inductive viewer_move ::
  "(string \<Rightarrow> (nat \<times> nat) option) \<Rightarrow> (u8 list \<Rightarrow> string) \<Rightarrow> 's emulator \<Rightarrow> world \<Rightarrow> viewer \<times> 's terminals
    \<Rightarrow> viewer \<times> 's terminals \<Rightarrow> bool"
  for parse b64 em wd where
  v_write: "vw_phase vw = Sending fs k \<Longrightarrow> viewer_move parse b64 em wd (vw, ts) (viewer_write wd grace we vw ts)"
| v_turn: "vw_phase vw = Looping \<Longrightarrow> viewer_move parse b64 em wd (vw, ts) (viewer_turn parse b64 em wd po vw ts)"

definition later :: "world \<Rightarrow> world \<Rightarrow> bool" where
  "later wd wd' \<longleftrightarrow> wd_now wd \<le> wd_now wd' \<and> wd_tick wd \<le> wd_tick wd' \<and>
     (w_value (wd_watch wd) \<le> w_value (wd_watch wd')) \<and> (w_closed (wd_watch wd) \<le> w_closed (wd_watch wd'))"

inductive viewer_step ::
  "(string \<Rightarrow> (nat \<times> nat) option) \<Rightarrow> (u8 list \<Rightarrow> string) \<Rightarrow> 's emulator \<Rightarrow> world \<times> viewer \<times> 's terminals
    \<Rightarrow> world \<times> viewer \<times> 's terminals \<Rightarrow> bool"
  for parse b64 em where
  v_move: "viewer_move parse b64 em wd s s' \<Longrightarrow> viewer_step parse b64 em (wd, s) (wd, s')"
| v_time: "later wd wd' \<Longrightarrow> viewer_step parse b64 em (wd, s) (wd', s)"
| v_world: "slots_step em ts ts' \<Longrightarrow> viewer_step parse b64 em (wd, vw, ts) (wd, vw, ts')"

inductive_cases viewer_moveE: "viewer_move parse b64 em wd s s'"
inductive_cases viewer_stepE: "viewer_step parse b64 em s s'"

subsection \<open>Nothing leaves on an invalid lease\<close>

lemma guard_valid_cong: "vw_lease vw = vw_lease vw' \<Longrightarrow> guard_valid wd vw = guard_valid wd vw'"
  by (simp add: guard_valid_def)

text \<open>What a move may add to what the socket has taken.\<close>

definition lawful :: "world \<Rightarrow> viewer \<Rightarrow> viewer \<Rightarrow> bool" where
  "lawful wd vw vw' \<longleftrightarrow> vw_lease vw' = vw_lease vw \<and> vw_ro vw' = vw_ro vw \<and> vw_term vw' = vw_term vw \<and>
     vw_due vw' = vw_due vw \<and>
     (\<exists>new. vw_out vw' = vw_out vw @ new \<and>
        list_all (\<lambda>(w, f). w = wd \<and> (f = Close_frame \<or> guard_valid wd vw = Some True)) new)"

lemma lawful_same:
  "vw_lease vw' = vw_lease vw \<Longrightarrow> vw_ro vw' = vw_ro vw \<Longrightarrow> vw_term vw' = vw_term vw \<Longrightarrow> vw_due vw' = vw_due vw \<Longrightarrow>
   vw_out vw' = vw_out vw \<Longrightarrow> lawful wd vw vw'"
  by (simp add: lawful_def)

lemma lawful_taken: "f = Close_frame \<or> guard_valid wd vw = Some True \<Longrightarrow> lawful wd vw (taken wd f out vw)"
  by (auto simp: lawful_def taken_def)

lemma lawful_phase [simp]: "lawful wd vw (vw'\<lparr>vw_phase := p\<rparr>) = lawful wd vw vw'"
  by (simp add: lawful_def)

lemma lawful_send: "lawful wd vw (snd (viewer_send wd grace we f vw))"
proof (cases "guard_valid wd vw")
  case None
  then show ?thesis by (simp add: viewer_send_def lawful_same)
next
  case (Some ok)
  then show ?thesis
    by (cases ok) (auto simp: viewer_send_def lawful_same lawful_taken split: option.splits write_end.splits)
qed

lemma lawful_close: "lawful wd vw (fst (viewer_close wd grace vw ts))"
  by (simp add: viewer_close_def viewer_return_def lawful_taken)

lemma lawful_return: "lawful wd vw (fst (viewer_return vw ts))"
  by (simp add: viewer_return_def lawful_same)

lemma lawful_redraw: "lawful wd vw (fst (viewer_redraw b64 em k vw ts))"
  by (simp add: viewer_redraw_def lawful_same Let_def split: prod.splits)

lemma lawful_write: "lawful wd vw (fst (viewer_write wd grace we vw ts))"
proof (cases "vw_phase vw")
  case (Sending fs k)
  then show ?thesis
    using lawful_send [of wd vw grace we "hd fs"] lawful_close [of wd vw grace ts]
    by (cases fs; cases k)
      (auto simp: viewer_write_def viewer_return_def lawful_same split: prod.splits sent.splits)
qed (simp_all add: viewer_write_def lawful_same)

lemma lawful_client: "lawful wd vw (fst (viewer_client parse msg vw ts))"
  by (cases msg) (auto simp: viewer_client_def lawful_same lawful_return split: option.splits prod.splits)

lemma lawful_output: "viewer_output wd grace vw ts = Some s \<Longrightarrow> lawful wd vw (fst s)"
  using lawful_close [of wd vw grace ts] lawful_return [of wd vw ts]
  by (auto simp: viewer_output_def lawful_same split: prod.splits recv.splits if_splits)

lemma lawful_audit:
  "lawful wd vw (fst (case guard_valid wd vw of None \<Rightarrow> viewer_return vw ts | Some True \<Rightarrow> (vw, ts)
     | Some False \<Rightarrow> viewer_close wd grace vw ts))"
  using lawful_close [of wd vw grace ts] lawful_return [of wd vw ts]
  by (simp add: lawful_same split: option.split bool.split)

lemma lawful_later_arms:
  "lawful wd vw (fst (case viewer_output wd grace vw ts of Some res \<Rightarrow> res
     | None \<Rightarrow> (case msg of None \<Rightarrow> (vw, ts) | Some msg \<Rightarrow> viewer_client parse msg vw ts)))"
  using lawful_output [of wd grace vw ts] lawful_client [of wd vw parse _ ts]
  by (simp add: lawful_same split: option.split)

lemma lawful_turn: "lawful wd vw (fst (viewer_turn parse b64 em wd po vw ts))"
  unfolding viewer_turn_def Let_def
  by (simp add: lawful_close lawful_audit lawful_redraw lawful_later_arms lawful_same split: option.split)

lemma lawful_move: "viewer_move parse b64 em wd (vw, ts) (vw', ts') \<Longrightarrow> lawful wd vw vw'"
  by (erule viewer_moveE) (metis fst_conv lawful_write lawful_turn)+

lemma later_invalid:
  assumes "later wd wd'" "guard_valid wd vw \<noteq> Some True"
  shows "guard_valid wd' vw \<noteq> Some True"
proof (cases "vw_lease vw")
  case None
  then show ?thesis using assms(2) by (simp add: guard_valid_def)
next
  case (Some l)
  show ?thesis
  proof (cases "expires_at_time l")
    case None
    then show ?thesis by (simp add: guard_valid_def Some lease_valid_def lease_expired_def)
  next
    case e: (Some e)
    have "e \<le> wd_now wd \<or> lease_revoked (wd_watch wd)"
      using assms(2) by (auto simp: guard_valid_def Some lease_valid_def lease_expired_def e)
    then have "e \<le> wd_now wd' \<or> lease_revoked (wd_watch wd')"
      using assms(1) by (auto simp: later_def lease_revoked_def)
    then show ?thesis by (auto simp: guard_valid_def Some lease_valid_def lease_expired_def e)
  qed
qed

text \<open>Every frame a viewer's socket has taken, the closing one apart, was written at a moment at which its lease was
  neither expired nor revoked.\<close>

theorem viewer_streams_only_valid:
  assumes "viewer_open wd0 att ro (Some l) ts0 = (vw0, ts1)"
    and "(viewer_step parse b64 em)\<^sup>*\<^sup>* (wd0, vw0, ts1) (wd, vw, ts)"
  shows "list_all (\<lambda>(w, f). f = Close_frame \<or> lease_valid (wd_now w) (wd_watch w) l = Some True) (vw_out vw)"
proof -
  let ?I = "\<lambda>(wd, vw, ts). vw_lease vw = Some l \<and>
    list_all (\<lambda>(w, f). f = Close_frame \<or> lease_valid (wd_now w) (wd_watch w) l = Some True) (vw_out vw)"
  have "?I (wd0, vw0, ts1)"
    using assms(1) by (auto simp: viewer_open_def viewer_return_def Let_def split: option.splits)
  with assms(2) have "?I (wd, vw, ts)"
  proof (induction rule: rtranclp_induct)
    case (step s s')
    from step.hyps(2) step.IH [OF step.prems] show ?case
    proof (cases rule: viewer_step.cases)
      case (v_move w t t')
      obtain v ts where t: "t = (v, ts)" by (cases t)
      obtain v' ts' where t': "t' = (v', ts')" by (cases t')
      from lawful_move [OF v_move(3) [unfolded t t']] show ?thesis
        using v_move(1,2) t t' step.IH [OF step.prems]
        by (auto simp: lawful_def guard_valid_def list_all_iff)
    qed auto
  qed simp
  then show ?thesis by simp
qed

definition data_frames :: "viewer \<Rightarrow> frame list" where
  "data_frames vw = filter (\<lambda>f. f \<noteq> Close_frame) (map snd (vw_out vw))"

lemma move_invalid:
  assumes "viewer_move parse b64 em wd (vw, ts) (vw', ts')" "guard_valid wd vw \<noteq> Some True"
  shows "data_frames vw' = data_frames vw \<and> vw_lease vw' = vw_lease vw"
proof -
  from lawful_move [OF assms(1)] obtain new where
    new: "vw_out vw' = vw_out vw @ new" "vw_lease vw' = vw_lease vw"
      "list_all (\<lambda>(w, f). w = wd \<and> (f = Close_frame \<or> guard_valid wd vw = Some True)) new"
    by (auto simp: lawful_def)
  then have "filter (\<lambda>f. f \<noteq> Close_frame) (map snd new) = []"
    using assms(2) by (auto simp: list_all_iff filter_empty_conv)
  then show ?thesis using new(1,2) by (simp add: data_frames_def)
qed

text \<open>Once the lease is not valid any more nothing brings the stream back: however time passes, whatever the shell
  writes and whatever the client sends, no further frame but the closing one is written.\<close>

theorem viewer_cut_off:
  assumes "(viewer_step parse b64 em)\<^sup>*\<^sup>* (wd, vw, ts) (wd', vw', ts')" and "guard_valid wd vw \<noteq> Some True"
  shows "data_frames vw' = data_frames vw \<and> guard_valid wd' vw' \<noteq> Some True"
proof -
  let ?I = "\<lambda>(w, v, t). data_frames v = data_frames vw \<and> guard_valid w v \<noteq> Some True"
  have "?I (wd', vw', ts')"
    using assms(1)
  proof (induction rule: rtranclp_induct [where P = ?I])
    case base
    then show ?case using assms(2) by simp
  next
    case (step s s')
    from step(2) step(3) show ?case
    proof (cases rule: viewer_step.cases)
      case (v_move w t t')
      obtain v ts where t: "t = (v, ts)" by (cases t)
      obtain v' ts' where t': "t' = (v', ts')" by (cases t')
      have "guard_valid w v \<noteq> Some True" using step(3) v_move(1) t by simp
      from move_invalid [OF v_move(3) [unfolded t t'] this] show ?thesis
        using step(3) v_move(1,2) t t' guard_valid_cong [of v' v] by auto
    next
      case (v_time w w' p)
      then show ?thesis using step(3) later_invalid [of w w'] by (cases p) auto
    next
      case (v_world t t' w v)
      then show ?thesis using step(3) by simp
    qed
  qed
  then show ?thesis by simp
qed

text \<open>The termination arms win: as soon as the deadline of the lease or its revocation is there, the next turn of the
  loop ends the viewer and writes at most the closing frame, even with output, a redraw, the end of
  the shell and client messages all ready.\<close>

theorem viewer_termination_wins:
  assumes "expiry_ready wd vw \<or> revocation_ready wd vw"
    and "viewer_turn parse b64 em wd po vw ts = (vw', ts')"
  shows "vw_phase vw' = Over \<and> data_frames vw' = data_frames vw \<and> ts' = on_term (vw_term vw) watch_drop ts"
  using assms by (auto simp: viewer_turn_def viewer_close_def viewer_return_def taken_def data_frames_def Let_def split: if_splits)

subsection \<open>A viewer sees what the shell wrote\<close>

text \<open>What the viewer has been sent together with what is about to be sent, and the bytes of it.\<close>

definition all_frames :: "viewer \<Rightarrow> frame list" where
  "all_frames vw = map snd (vw_out vw) @ (case vw_phase vw of Sending fs _ \<Rightarrow> fs | _ \<Rightarrow> [])"

definition frame_bytes :: "frame list \<Rightarrow> u8 list" where
  "frame_bytes fs = concat (map (\<lambda>f. case f of Binary_frame b \<Rightarrow> b | _ \<Rightarrow> []) fs)"

definition sends_on :: "viewer \<Rightarrow> bool" where
  "sends_on vw = (case vw_phase vw of Looping \<Rightarrow> True | Sending _ k \<Rightarrow> k = Then_loop | Over \<Rightarrow> False)"

definition view_in_step :: "attachment \<Rightarrow> viewer \<Rightarrow> 's terminals \<Rightarrow> bool" where
  "view_in_step att vw ts \<longleftrightarrow>
     (let log = tm_log (ts_heap ts ! vw_term vw) in
      vw_pos vw \<le> length log \<and> (\<exists>rest. all_frames vw = Text_frame (hello_json None att) # rest) \<and>
      (length (concat log) < 2 ^ 64 \<longrightarrow>
        frame_bytes (all_frames vw) = drop (unat (at_base att)) (concat (take (vw_pos vw) log)) \<and>
        unat (at_base att) \<le> length (concat (take (vw_pos vw) log))))"

definition viewer_ok :: "attachment \<Rightarrow> viewer \<Rightarrow> 's terminals \<Rightarrow> bool" where
  "viewer_ok att vw ts \<longleftrightarrow> pools_ok ts \<and> vw_term vw = at_term att \<and> at_term att < length (ts_heap ts) \<and>
     tm_epoch (ts_heap ts ! at_term att) = at_epoch att \<and> (sends_on vw \<longrightarrow> view_in_step att vw ts)"

lemma frame_bytes_append [simp]: "frame_bytes (fs @ gs) = frame_bytes fs @ frame_bytes gs"
  by (simp add: frame_bytes_def)

lemma frame_bytes_simps [simp]:
  "frame_bytes [] = []" "frame_bytes (Binary_frame b # fs) = b @ frame_bytes fs"
  "frame_bytes (Text_frame s # fs) = frame_bytes fs" "frame_bytes (map Binary_frame bs) = concat bs"
  by (simp_all add: frame_bytes_def comp_def)

lemma viewer_okD:
  "viewer_ok att vw ts \<Longrightarrow> pools_ok ts" "viewer_ok att vw ts \<Longrightarrow> vw_term vw < length (ts_heap ts)"
  "viewer_ok att vw ts \<Longrightarrow> sends_on vw \<Longrightarrow> view_in_step att vw ts"
  by (simp_all add: viewer_ok_def)

lemma view_in_step_extends:
  assumes "view_in_step att vw ts" "extends ts ts'" "vw_term vw < length (ts_heap ts)"
  shows "view_in_step att vw ts'"
proof -
  obtain ds where "tm_log (ts_heap ts' ! vw_term vw) = tm_log (ts_heap ts ! vw_term vw) @ ds"
    using assms(2,3) by (auto simp: extends_def grows_def)
  then show ?thesis using assms(1) by (auto simp: view_in_step_def Let_def)
qed

lemma viewer_ok_extends: "viewer_ok att vw ts \<Longrightarrow> extends ts ts' \<Longrightarrow> viewer_ok att vw ts'"
  using view_in_step_extends [of att vw ts ts']
  by (auto simp: viewer_ok_def extends_def grows_def)

lemma viewer_ok_over: "viewer_ok att vw ts \<Longrightarrow> vw_term vw' = vw_term vw \<Longrightarrow> \<not> sends_on vw' \<Longrightarrow> viewer_ok att vw' ts"
  by (simp add: viewer_ok_def)

lemma viewer_ok_cong:
  "viewer_ok att vw ts \<Longrightarrow> vw_term vw' = vw_term vw \<Longrightarrow> vw_pos vw' = vw_pos vw \<Longrightarrow> sends_on vw' = sends_on vw \<Longrightarrow>
   all_frames vw' = all_frames vw \<Longrightarrow> viewer_ok att vw' ts"
  by (auto simp: viewer_ok_def view_in_step_def)

lemma view_in_step_more:
  assumes "view_in_step att vw ts" "vw_term vw' = vw_term vw"
    and "vw_pos vw' \<le> length (tm_log (ts_heap ts ! vw_term vw))"
    and "take (vw_pos vw') (tm_log (ts_heap ts ! vw_term vw)) = take (vw_pos vw) (tm_log (ts_heap ts ! vw_term vw)) @ bs"
    and "all_frames vw' = all_frames vw @ fs" "frame_bytes fs = concat bs"
  shows "view_in_step att vw' ts"
  using assms by (auto simp: view_in_step_def Let_def)

lemma viewer_return_ok:
  assumes "viewer_ok att vw ts" "vw_term vw' = vw_term vw"
  shows "case viewer_return vw' ts of (vw'', ts') \<Rightarrow> viewer_ok att vw'' ts'"
proof -
  have "vw_term vw' < length (ts_heap ts)" using viewer_okD(2) [OF assms(1)] assms(2) by simp
  moreover from pools_okD(3) [OF viewer_okD(1) [OF assms(1)] this]
  have "term_ok (watch_drop (ts_heap ts ! vw_term vw'))" by simp
  ultimately have "extends ts (on_term (vw_term vw') watch_drop ts)"
    by (intro extends_on_term [OF viewer_okD(1) [OF assms(1)]]) (simp_all add: watch_drop_def)
  from viewer_ok_extends [OF assms(1) this] show ?thesis
    using assms(2) by (auto simp: viewer_return_def sends_on_def intro: viewer_ok_over)
qed

lemma viewer_close_ok: "viewer_ok att vw ts \<Longrightarrow> case viewer_close wd grace vw ts of (vw', ts') \<Rightarrow> viewer_ok att vw' ts'"
  unfolding viewer_close_def by (erule viewer_return_ok) (simp add: taken_def)

lemma viewer_send_out:
  "viewer_send wd grace we f vw = (Sent, vw') \<Longrightarrow> vw' = vw\<lparr>vw_out := vw_out vw @ [(wd, f)]\<rparr>"
  "vw_term (snd (viewer_send wd grace we f vw)) = vw_term vw"
  by (auto simp: viewer_send_def taken_def split: option.splits bool.splits write_end.splits)

lemma viewer_write_ok:
  assumes "viewer_ok att vw ts"
  shows "case viewer_write wd grace we vw ts of (vw', ts') \<Rightarrow> viewer_ok att vw' ts'"
proof (cases "vw_phase vw")
  case (Sending fs k)
  show ?thesis
  proof (cases fs)
    case Nil
    then show ?thesis
      using Sending assms viewer_close_ok [OF assms]
        viewer_ok_cong [OF assms, of "vw\<lparr>vw_phase := Looping\<rparr>"]
      by (cases k) (auto simp: viewer_write_def sends_on_def all_frames_def)
  next
    case (Cons f fs')
    obtain r vw' where r: "viewer_send wd grace we f vw = (r, vw')" by (rule prod.exhaust)
    have "vw_term vw' = vw_term vw" using viewer_send_out(2) [of wd grace we f vw] r by simp
    from viewer_return_ok [OF assms this] show ?thesis
      using Sending Cons r viewer_send_out(1) [of wd grace we f vw vw']
        viewer_ok_cong [OF assms, of "vw'\<lparr>vw_phase := Sending fs' k\<rparr>"]
      by (cases r) (auto simp: viewer_write_def sends_on_def all_frames_def)
  qed
qed (use assms in \<open>simp_all add: viewer_write_def\<close>)

lemma viewer_redraw_ok:
  assumes "viewer_ok att vw ts" "vw_phase vw = Looping"
  shows "case viewer_redraw b64 em k vw ts of (vw', ts') \<Rightarrow> viewer_ok att vw' ts'"
proof -
  let ?t = "ts_heap ts ! vw_term vw"
  have str: "sends_on vw" using assms(2) by (simp add: sends_on_def)
  note step = viewer_okD(3) [OF assms(1) str]
  then have pos: "vw_pos vw \<le> length (tm_log ?t)" by (simp add: view_in_step_def Let_def)
  obtain r pos' tm where r: "redraw_at em k (vw_pos vw) ?t = (r, pos', tm)" by (rule prod_cases3)
  note rd = redraw_at_fields [OF r pos]
  define ts1 where "ts1 = on_term (vw_term vw) (\<lambda>_. tm) ts"
  define vw1 where "vw1 = fst (viewer_redraw b64 em k vw ts)"
  have eq: "viewer_redraw b64 em k vw ts = (vw1, ts1)"
    using r by (simp add: viewer_redraw_def vw1_def ts1_def Let_def)
  have ext: "extends ts ts1"
    unfolding ts1_def rd(1) using viewer_okD(1,2) [OF assms(1)] by (intro snapshot_extends) auto
  note ok1 = viewer_ok_extends [OF assms(1) ext]
  have term': "vw_term vw1 = vw_term vw" using r by (simp add: vw1_def viewer_redraw_def Let_def)
  have "viewer_ok att vw1 ts1"
  proof (cases "rd_lagged r")
    case True
    then show ?thesis
      using r by (intro viewer_ok_over [OF ok1 term']) (simp add: vw1_def viewer_redraw_def sends_on_def Let_def)
  next
    case False
    have log: "tm_log (ts_heap ts1 ! vw_term vw) = tm_log ?t"
      using viewer_okD(2) [OF assms(1)] by (simp add: ts1_def on_term_heap rd(1))
    have "view_in_step att vw1 ts1"
      using rd(3) [OF False] log r False assms(2)
      by (intro view_in_step_more [OF viewer_okD(3) [OF ok1 str] term',
            where bs = "rd_pending r" and fs = "map Binary_frame (rd_pending r) @ [Text_frame (redraw_json b64 None r)]"])
        (simp_all add: vw1_def viewer_redraw_def all_frames_def Let_def)
    then show ?thesis using ok1 term' by (simp add: viewer_ok_def)
  qed
  then show ?thesis by (simp add: eq)
qed

lemma viewer_output_ok:
  assumes "viewer_ok att vw ts" "vw_phase vw = Looping"
  shows "case viewer_output wd grace vw ts of None \<Rightarrow> True | Some (vw', ts') \<Rightarrow> viewer_ok att vw' ts'"
proof -
  obtain r pos' where r: "try_recv (tm_log (ts_heap ts ! vw_term vw)) (vw_pos vw) = (r, pos')" by (rule prod.exhaust)
  show ?thesis
  proof (cases r)
    case (Chunk b)
    let ?vw = "vw\<lparr>vw_pos := pos', vw_phase := Sending [Binary_frame b] Then_loop\<rparr>"
    note rec = try_recv_cases [OF r [unfolded Chunk]]
    have "view_in_step att vw ts" using viewer_okD(3) [OF assms(1)] assms(2) by (simp add: sends_on_def)
    then have "view_in_step att ?vw ts"
    proof (rule view_in_step_more)
      show "take (vw_pos ?vw) (tm_log (ts_heap ts ! vw_term vw)) = take (vw_pos vw) (tm_log (ts_heap ts ! vw_term vw)) @ [b]"
        using rec by auto
      show "vw_pos ?vw \<le> length (tm_log (ts_heap ts ! vw_term vw))" using rec by simp
      show "all_frames ?vw = all_frames vw @ [Binary_frame b]" using assms(2) by (simp add: all_frames_def)
    qed simp_all
    then have "viewer_ok att ?vw ts" using assms(1) by (simp add: viewer_ok_def)
    then show ?thesis using r Chunk by (simp add: viewer_output_def)
  next
    case Lagged
    then show ?thesis using r viewer_close_ok [OF assms(1), of wd grace] by (simp add: viewer_output_def)
  next
    case Empty
    then show ?thesis using r viewer_return_ok [OF assms(1) refl] by (simp add: viewer_output_def)
  qed
qed

lemma viewer_client_ok:
  assumes "viewer_ok att vw ts"
  shows "case viewer_client parse msg vw ts of (vw', ts') \<Rightarrow> viewer_ok att vw' ts'"
proof -
  have "extends ts (on_term (vw_term vw) (\<lambda>t. snd (try_send c t)) ts)" for c
    using viewer_okD(1,2) [OF assms] pools_okD(3) by (intro extends_on_term) (auto intro: term_ok_send)
  note viewer_ok_extends [OF assms this]
  then show ?thesis
    using assms viewer_return_ok [OF assms refl]
    by (cases msg) (auto simp: viewer_client_def split: option.splits prod.splits)
qed

lemma viewer_turn_ok:
  assumes "viewer_ok att vw ts" "vw_phase vw = Looping"
  shows "case viewer_turn parse b64 em wd po vw ts of (vw', ts') \<Rightarrow> viewer_ok att vw' ts'"
proof -
  have seen: "viewer_ok att (vw\<lparr>vw_seen := n\<rparr>) ts" for n
    using assms(1) by (rule viewer_ok_cong) (simp_all add: sends_on_def all_frames_def)
  let ?later = "case viewer_output wd (po_grace po) vw ts of Some res \<Rightarrow> res
     | None \<Rightarrow> (case po_msg po of None \<Rightarrow> (vw, ts) | Some msg \<Rightarrow> viewer_client parse msg vw ts)"
  note close = viewer_close_ok [OF assms(1), of wd "po_grace po"]
  have later: "case ?later of (vw', ts') \<Rightarrow> viewer_ok att vw' ts'"
    using viewer_output_ok [OF assms, of wd "po_grace po"] viewer_client_ok [OF assms(1), of parse] assms(1)
    by (cases "viewer_output wd (po_grace po) vw ts"; cases "po_msg po") auto
  have audit: "case (case guard_valid wd vw of None \<Rightarrow> viewer_return vw ts | Some True \<Rightarrow> (vw, ts)
      | Some False \<Rightarrow> viewer_close wd (po_grace po) vw ts) of (vw', ts') \<Rightarrow> viewer_ok att vw' ts'"
    using close viewer_return_ok [OF assms(1) refl] assms(1)
    by (cases "guard_valid wd vw") (auto split: bool.split)
  show ?thesis
    using seen later close audit viewer_redraw_ok [OF assms, of b64 em] assms(1)
    unfolding viewer_turn_def Let_def case_prod_beta by (simp split: option.split)
qed

lemma viewer_move_ok:
  assumes "viewer_move parse b64 em wd (vw, ts) (vw', ts')" "viewer_ok att vw ts"
  shows "viewer_ok att vw' ts'"
  using assms(1)
proof (cases rule: viewer_move.cases)
  case (v_write fs k grace we)
  then show ?thesis using viewer_write_ok [OF assms(2), of wd grace we] by (simp add: v_write(1) [symmetric])
next
  case (v_turn po)
  then show ?thesis using viewer_turn_ok [OF assms(2), of parse b64 em wd po] by (simp add: v_turn(1) [symmetric])
qed

lemma viewer_reach_ok:
  assumes "(viewer_step parse b64 em)\<^sup>*\<^sup>* s s'" "viewer_ok att (fst (snd s)) (snd (snd s))"
  shows "viewer_ok att (fst (snd s')) (snd (snd s'))"
  using assms
proof (induction rule: rtranclp_induct)
  case (step t t')
  note ok = step.IH [OF step.prems]
  from step.hyps(2) show ?case
  proof (cases rule: viewer_step.cases)
    case (v_move wd u u')
    then show ?thesis using viewer_move_ok [of parse b64 em wd "fst u" "snd u" "fst u'" "snd u'"] ok by simp
  next
    case (v_world ts ts' wd vw)
    then have "extends ts ts'" using ok viewer_okD(1) slots_step_extends by fastforce
    then show ?thesis using viewer_ok_extends ok v_world(1,2) by fastforce
  qed (use ok in auto)
qed

lemma viewer_open_ok:
  assumes "pools_ok ts0" "attach_view u i resume ts0 = (Inr att, ts1)"
  shows "viewer_ok att (fst (viewer_open wd att ro lease ts1)) (snd (viewer_open wd att ro lease ts1))"
proof -
  have ok1: "pools_ok ts1" using attach_view_ok [OF assms(1), of u i resume] assms(2) by simp
  obtain a where a: "live_slot u i ts0 = Some a" "i < ts_slots ts0"
      "att = attach_cut resume a (ts_heap ts0 ! a)" "ts1 = on_term a join_view (snd (pool_of u ts0))"
    using assms(2) by (auto simp: attach_view_def Let_def split: option.splits if_splits)
  then have len: "a < length (ts_heap ts0)"
    using live_slot_eq [OF assms(1) a(2), of u] pools_okD(1) [OF assms(1)] by (auto split: if_splits)
  let ?t = "ts_heap ts0 ! a"
  have tm: "tm_log (ts_heap ts1 ! a) = tm_log ?t" "tm_epoch (ts_heap ts1 ! a) = tm_epoch ?t"
    using len by (simp_all add: a(4) on_term_heap join_view_def watch_subscribe_def)
  define vw where "vw = \<lparr>vw_lease = lease, vw_ro = ro, vw_term = at_term att, vw_pos = at_pos att, vw_seen = at_seen att,
          vw_due = None, vw_phase = Sending [Text_frame (hello_json None att), Binary_frame (at_replay att)] Then_loop,
          vw_out = []\<rparr>"
  have "view_in_step att vw ts1"
    using attach_cut_stream [OF pools_okD(3) [OF assms(1) len], of resume a] tm(1) a(3)
    by (auto simp: view_in_step_def vw_def all_frames_def Let_def)
  then have ok: "viewer_ok att vw ts1"
    using ok1 len tm(2) a(3,4) by (simp add: viewer_ok_def vw_def)
  then have "viewer_ok att (vw\<lparr>vw_due := d\<rparr>) ts1" for d
    by (rule viewer_ok_cong) (simp_all add: all_frames_def sends_on_def)
  then show ?thesis
    using ok viewer_return_ok [OF ok refl] unfolding viewer_open_def vw_def [symmetric] Let_def
    by (auto split: option.split)
qed

text \<open>A viewer sees what the shell wrote: in the life of a viewer's socket, whatever else happens to the terminals, while
  it streams it has been sent the hello of its attachment and then exactly the output of that shell
  from the announced offset up to its position, under the announced epoch.\<close>

theorem viewer_stream_exact:
  assumes "(slots_step em)\<^sup>*\<^sup>* (terminals_new slots login_cmd envs owner home cp) ts0"
    and "attach_view u i resume ts0 = (Inr att, ts1)" and "viewer_open wd0 att ro lease ts1 = (vw0, ts2)"
    and "(viewer_step parse b64 em)\<^sup>*\<^sup>* (wd0, vw0, ts2) (wd, vw, ts)" and "vw_phase vw = Looping"
    and "length (concat (tm_log (ts_heap ts ! at_term att))) < 2 ^ 64"
  shows "hd (map snd (vw_out vw)) = Text_frame (hello_json None att) \<and>
    frame_bytes (map snd (vw_out vw)) =
      drop (unat (at_base att)) (concat (take (vw_pos vw) (tm_log (ts_heap ts ! at_term att)))) \<and>
    tm_epoch (ts_heap ts ! at_term att) = at_epoch att \<and> vw_pos vw \<le> length (tm_log (ts_heap ts ! at_term att))"
proof -
  have "pools_ok ts0" using slots_reach_ok [OF assms(1) terminals_new_ok] .
  from viewer_open_ok [OF this assms(2), of wd0 ro lease] viewer_reach_ok [OF assms(4)]
  have ok: "viewer_ok att vw ts" by (simp add: assms(3))
  from viewer_okD(3) [OF this] show ?thesis
    using assms(5,6) ok by (auto simp: sends_on_def viewer_ok_def view_in_step_def all_frames_def Let_def)
qed

subsection \<open>A viewer cannot touch the shell\<close>

text \<open>Terminals that differ at most in their screen model and in how many watch them.\<close>

definition untouched :: "'s emulator \<Rightarrow> 's terminal \<Rightarrow> 's terminal \<Rightarrow> bool" where
  "untouched em t t' \<longleftrightarrow>
     (\<exists>n s. t' = t\<lparr>tm_sb := s, tm_watchers := n\<rparr> \<and> (s = tm_sb t \<or> (\<exists>k. s = snd (screen_snapshot em k (tm_sb t)))))"

lemma untouched_same [simp]: "untouched em t t"
  unfolding untouched_def by (rule exI [of _ "tm_watchers t"], rule exI [of _ "tm_sb t"]) simp

lemma untouched_ops:
  "untouched em t (watch_drop t)" "untouched em t (t\<lparr>tm_sb := snd (screen_snapshot em k (tm_sb t))\<rparr>)"
proof -
  show "untouched em t (watch_drop t)"
    unfolding untouched_def
    by (rule exI [of _ "tm_watchers t - 1"], rule exI [of _ "tm_sb t"]) (simp add: watch_drop_def)
  show "untouched em t (t\<lparr>tm_sb := snd (screen_snapshot em k (tm_sb t))\<rparr>)"
    unfolding untouched_def
    by (rule exI [of _ "tm_watchers t"], rule exI [of _ "snd (screen_snapshot em k (tm_sb t))"]) auto
qed

definition inert :: "'s emulator \<Rightarrow> 's terminals \<Rightarrow> 's terminals \<Rightarrow> bool" where
  "inert em ts ts' \<longleftrightarrow> ts_pools ts' = ts_pools ts \<and> ts_slots ts' = ts_slots ts \<and> list_all2 (untouched em) (ts_heap ts) (ts_heap ts')"

lemma inert_same [simp]: "inert em ts ts"
  by (simp add: inert_def list_all2_same)

lemma inert_on_term: "untouched em (ts_heap ts ! a) (f (ts_heap ts ! a)) \<Longrightarrow> inert em ts (on_term a f ts)"
  unfolding inert_def list_all2_conv_all_nth on_term_heap
  by (cases "a < length (ts_heap ts)") (auto simp: nth_list_update)

lemma inert_ends: "inert em ts (snd (viewer_return vw ts))" "inert em ts (snd (viewer_close wd grace vw ts))"
  by (simp_all add: viewer_return_def viewer_close_def inert_on_term untouched_ops)

lemma inert_redraw: "inert em ts (snd (viewer_redraw b64 em k vw ts))"
  by (auto simp: viewer_redraw_def redraw_at_def Let_def split_def intro!: inert_on_term untouched_ops)

lemma inert_write: "inert em ts (snd (viewer_write wd grace we vw ts))"
proof (cases "vw_phase vw")
  case (Sending fs k)
  then show ?thesis
    by (cases fs; cases k) (simp_all add: viewer_write_def inert_ends split: prod.splits sent.splits)
qed (simp_all add: viewer_write_def)

lemma inert_turn: "vw_ro vw \<Longrightarrow> inert em ts (snd (viewer_turn parse b64 em wd po vw ts))"
proof -
  assume ro: "vw_ro vw"
  have out: "viewer_output wd grace vw ts = Some s \<Longrightarrow> inert em ts (snd s)" for grace s
    by (auto simp: viewer_output_def inert_ends split: prod.splits recv.splits if_splits)
  have client: "inert em ts (snd (viewer_client parse msg vw ts))" for msg
    using ro by (cases msg) (simp_all add: viewer_client_def inert_ends)
  show ?thesis
    unfolding viewer_turn_def Let_def
    by (simp add: inert_ends inert_redraw out client split: option.split bool.split)
qed

lemma viewer_move_inert:
  assumes "viewer_move parse b64 em wd (vw, ts) (vw', ts')" and "vw_ro vw"
  shows "inert em ts ts'"
  using assms(1)
proof (cases rule: viewer_move.cases)
  case (v_write fs k grace we)
  then show ?thesis using inert_write [of em ts wd grace we vw] by (simp add: v_write(1) [symmetric])
next
  case (v_turn po)
  then show ?thesis using inert_turn [OF assms(2), of em ts parse b64 wd po] by (simp add: v_turn(1) [symmetric])
qed

lemma inert_extends:
  assumes "inert em ts ts'" "pools_ok ts'"
  shows "extends ts ts'"
proof -
  have "untouched em (ts_heap ts ! a) (ts_heap ts' ! a)" if "a < length (ts_heap ts)" for a
    using assms(1) that by (simp add: inert_def list_all2_conv_all_nth)
  then have "tm_epoch (ts_heap ts' ! a) = tm_epoch (ts_heap ts ! a) \<and> tm_log (ts_heap ts' ! a) = tm_log (ts_heap ts ! a)"
    if "a < length (ts_heap ts)" for a
    using that by (fastforce simp: untouched_def)
  then have "grows ts ts'" using assms(1) by (auto simp: grows_def inert_def dest: list_all2_lengthD)
  then show ?thesis using assms by (simp add: extends_def inert_def slot_of_def)
qed

text \<open>A read-only viewer cannot affect the shell: whatever its socket does or receives, no command is queued to any
  terminal, nothing is resized, stopped or moved to another slot; at most a screen model is brought up
  to date and a receiver dropped.\<close>

theorem viewer_read_only_inert:
  assumes "viewer_move parse b64 em wd (vw, ts) (vw', ts')" and "vw_ro vw"
  shows "ts_pools ts' = ts_pools ts \<and> list_all2 (untouched em) (ts_heap ts) (ts_heap ts') \<and> vw_ro vw'"
  using viewer_move_inert [OF assms] lawful_move [OF assms(1)] assms(2) by (simp add: inert_def lawful_def)

subsection \<open>A concrete viewer\<close>

definition toy_world :: world where
  "toy_world = \<lparr>wd_now = 1000000000000, wd_tick = 0, wd_watch = \<lparr>w_value = False, w_closed = False\<rparr>\<rparr>"

definition toy_revoked :: world where
  "toy_revoked = toy_world\<lparr>wd_watch := \<lparr>w_value = True, w_closed = False\<rparr>\<rparr>"

definition toy_lease :: lease where
  "toy_lease = \<lparr>l_username = ''a'', l_index = 0, l_expires_at = 1100, l_chan = 5\<rparr>"

definition toy_att :: attachment where
  "toy_att = attach_cut None 0 (join_resized 80 24 toy_shell)"

definition toy_viewer :: viewer where
  "toy_viewer = \<lparr>vw_lease = Some toy_lease, vw_ro = True, vw_term = 0, vw_pos = 0, vw_seen = 0,
     vw_due = Some 100000000000,
     vw_phase = Sending [Text_frame (hello_json None toy_att), Binary_frame (at_replay toy_att)] Then_loop, vw_out = []\<rparr>"

definition toy_parse :: "string \<Rightarrow> (nat \<times> nat) option" where
  "toy_parse s = Some (100, 40)"

lemma toy_att_fields [simp]: "at_term toy_att = 0" "at_pos toy_att = 0" "at_seen toy_att = 0"
  by (simp_all add: toy_att_def toy_shell_def term_new_def join_resized_def watch_subscribe_def)
    (simp add: attach_cut_def split_def Let_def watch_subscribe_def try_send_def)

lemmas toy_viewer_defs = toy_viewer_def toy_world_def toy_revoked_def toy_lease_def

lemma toy_deadline: "lease_deadline (wd_now toy_world) (wd_tick toy_world) toy_lease = Some 100000000000"
  by (simp add: toy_viewer_defs lease_deadline_def expires_at_time_def add_time_def i64_max_def)

lemma toy_guard: "guard_valid toy_world toy_viewer = Some True" "guard_valid toy_revoked toy_viewer = Some False"
  by (simp_all add: toy_viewer_defs guard_valid_def lease_valid_def lease_expired_def lease_revoked_def
      expires_at_time_def add_time_def i64_max_def)

lemma toy_viewer_open: "viewer_open toy_world toy_att True (Some toy_lease) ts = (toy_viewer, ts)"
  by (simp add: viewer_open_def toy_deadline) (simp add: toy_viewer_def)

lemma toy_viewer_phase [simp]:
  "vw_phase toy_viewer = Sending [Text_frame (hello_json None toy_att), Binary_frame (at_replay toy_att)] Then_loop"
  "vw_lease toy_viewer = Some toy_lease" "vw_out toy_viewer = []" "vw_ro toy_viewer"
  by (simp_all add: toy_viewer_def)

lemma toy_write: "vw_out (fst (viewer_write toy_world True Written toy_viewer ts)) =
    [(toy_world, Text_frame (hello_json None toy_att))]"
  by (simp add: viewer_write_def viewer_send_def toy_guard toy_deadline taken_def)

theorem viewer_streams_only_valid_witness:
  "let out = vw_out (fst (viewer_write toy_world True Written toy_viewer toy_attached)) in
   length out = 1 \<and> list_all (\<lambda>(w, f). f = Close_frame \<or> lease_valid (wd_now w) (wd_watch w) toy_lease = Some True) out"
proof -
  have "viewer_step toy_parse (\<lambda>_. []) unit_emulator (toy_world, toy_viewer, toy_attached)
      (toy_world, viewer_write toy_world True Written toy_viewer toy_attached)"
    by (rule v_move [OF v_write]) simp
  then have "viewer_step toy_parse (\<lambda>_. []) unit_emulator (toy_world, toy_viewer, toy_attached)
      (toy_world, fst (viewer_write toy_world True Written toy_viewer toy_attached),
       snd (viewer_write toy_world True Written toy_viewer toy_attached))" by simp
  note viewer_streams_only_valid [OF toy_viewer_open r_into_rtranclp [of "viewer_step toy_parse (\<lambda>_. []) unit_emulator", OF this]]
  then show ?thesis by (simp add: toy_write)
qed

theorem viewer_cut_off_witness:
  "data_frames (fst (viewer_write toy_revoked True Written toy_viewer toy_attached)) = []"
proof -
  have "viewer_step toy_parse (\<lambda>_. []) unit_emulator (toy_revoked, toy_viewer, toy_attached)
      (toy_revoked, viewer_write toy_revoked True Written toy_viewer toy_attached)"
    by (rule v_move [OF v_write]) simp
  then have "viewer_step toy_parse (\<lambda>_. []) unit_emulator (toy_revoked, toy_viewer, toy_attached)
      (toy_revoked, fst (viewer_write toy_revoked True Written toy_viewer toy_attached),
       snd (viewer_write toy_revoked True Written toy_viewer toy_attached))" by simp
  note viewer_cut_off [OF r_into_rtranclp [of "viewer_step toy_parse (\<lambda>_. []) unit_emulator", OF this]]
  then show ?thesis by (simp add: toy_guard) (simp add: data_frames_def)
qed

text \<open>Everything ready at once.\<close>

definition busy_poll :: poll where
  "busy_poll = \<lparr>po_grace = True, po_audit = True, po_redraw = Some 0, po_msg = Some (Bin [0x61])\<rparr>"

theorem viewer_termination_wins_witness:
  "vw_phase (fst (viewer_turn toy_parse (\<lambda>_. []) unit_emulator toy_revoked busy_poll
     (toy_viewer\<lparr>vw_phase := Looping\<rparr>) toy_attached)) = Over"
proof -
  have "revocation_ready toy_revoked (toy_viewer\<lparr>vw_phase := Looping\<rparr>)"
    by (simp add: revocation_ready_def toy_revoked_def lease_revoked_def)
  then show ?thesis by (rule viewer_termination_wins [OF disjI2 prod.collapse [symmetric], THEN conjunct1])
qed

theorem viewer_read_only_inert_witness:
  "ts_pools (snd (viewer_turn toy_parse (\<lambda>_. []) unit_emulator toy_world busy_poll
     (toy_viewer\<lparr>vw_phase := Looping\<rparr>) toy_attached)) = ts_pools toy_attached"
proof -
  have "viewer_move toy_parse (\<lambda>_. []) unit_emulator toy_world (toy_viewer\<lparr>vw_phase := Looping\<rparr>, toy_attached)
    (viewer_turn toy_parse (\<lambda>_. []) unit_emulator toy_world busy_poll (toy_viewer\<lparr>vw_phase := Looping\<rparr>) toy_attached)"
    by (rule v_turn) simp
  then have "viewer_move toy_parse (\<lambda>_. []) unit_emulator toy_world (toy_viewer\<lparr>vw_phase := Looping\<rparr>, toy_attached)
    (fst (viewer_turn toy_parse (\<lambda>_. []) unit_emulator toy_world busy_poll (toy_viewer\<lparr>vw_phase := Looping\<rparr>) toy_attached),
     snd (viewer_turn toy_parse (\<lambda>_. []) unit_emulator toy_world busy_poll (toy_viewer\<lparr>vw_phase := Looping\<rparr>) toy_attached))"
    by simp
  from viewer_read_only_inert [OF this] show ?thesis by simp
qed

lemma toy_heap: "ts_heap toy_attached = [join_resized 80 24 toy_shell]"
proof -
  obtain evs where sp: "spawn_terminal unit_emulator toy_os (ts_login_cmd toy_slots) ''a'' (ts_owner toy_slots) (ts_home toy_slots)
     (ts_envs toy_slots) 80 24 (ts_cap toy_slots) = (Inr toy_shell, evs)" using toy_spawn by blast
  have h: "ts_heap toy_slots = []" "0 < ts_slots toy_slots" "slot_of toy_slots ''a'' 0 = None"
    by (simp_all add: toy_slots_def terminals_new_def slot_of_def)
  have "slot_dead toy_slots ''a'' 0" using h(3) by (simp add: slot_dead_def)
  from attach_cold [OF toy_slots_ok h(2) this sp, of None] show ?thesis
    using h(1,3) by (simp add: Let_def toy_attached_def vacated_def on_term_heap)
qed

definition toy_share :: "attachment \<times> unit terminals" where
  "toy_share = (case attach_view ''a'' 0 None toy_attached of
     (Inr att, ts) \<Rightarrow> (att, ts) | (Inl _, ts) \<Rightarrow> (toy_att, ts))"

lemma toy_attached_reach: "(slots_step unit_emulator)\<^sup>*\<^sup>* (terminals_new 2 [''/bin/sh''] [] ''o'' ''/'' 10) toy_attached"
proof -
  have "slots_step unit_emulator toy_slots toy_attached" unfolding toy_attached_def by (rule p_attach)
  with toy_reach show ?thesis by (rule rtranclp.rtrancl_into_rtrancl)
qed

lemma toy_live: "0 < ts_slots toy_attached" "live_slot ''a'' 0 toy_attached = Some 0"
proof -
  have ok: "pools_ok toy_attached" by (rule slots_reach_ok [OF toy_attached_reach terminals_new_ok])
  show n: "0 < ts_slots toy_attached"
    by (simp add: toy_attached_def) (simp add: toy_slots_def terminals_new_def)
  show "live_slot ''a'' 0 toy_attached = Some 0"
    using live_slot_eq [OF ok n, of "''a''"] by (simp add: toy_attached_slot slot_dead_def toy_heap toy_shell_def term_new_def)
qed

lemma toy_share: "attach_view ''a'' 0 None toy_attached = (Inr (fst toy_share), snd toy_share)"
  using toy_live by (simp add: toy_share_def attach_view_def Let_def)

lemma toy_share_log: "tm_log (ts_heap (snd toy_share) ! at_term (fst toy_share)) = []"
  using toy_live
  by (simp add: toy_share_def attach_view_def Let_def on_term_heap toy_heap join_view_def watch_subscribe_def)
    (simp add: toy_shell_def term_new_def)

definition toy_next :: "viewer \<Rightarrow> viewer" where
  "toy_next vw = fst (viewer_write toy_world True Written vw (snd toy_share))"

definition shared_viewer :: viewer where
  "shared_viewer = toy_next (toy_next (toy_next (fst (viewer_open toy_world (fst toy_share) True None (snd toy_share)))))"

lemma toy_next_step:
  assumes "vw_phase vw = Sending fs Then_loop" "vw_lease vw = None"
  shows "viewer_step toy_parse (\<lambda>_. []) unit_emulator (toy_world, vw, snd toy_share) (toy_world, toy_next vw, snd toy_share)"
proof -
  have "snd (viewer_write toy_world True Written vw (snd toy_share)) = snd toy_share"
    using assms by (cases fs) (simp_all add: viewer_write_def viewer_send_def guard_valid_def)
  then have "viewer_write toy_world True Written vw (snd toy_share) = (toy_next vw, snd toy_share)"
    by (simp add: toy_next_def prod_eq_iff)
  with v_move [OF v_write [OF assms(1)], of toy_parse "\<lambda>_. []" unit_emulator toy_world "snd toy_share" True Written]
  show ?thesis by simp
qed

lemma toy_next_fields:
  "vw_phase vw = Sending fs Then_loop \<Longrightarrow> vw_lease vw = None \<Longrightarrow>
   vw_lease (toy_next vw) = None \<and>
   vw_phase (toy_next vw) = (case fs of [] \<Rightarrow> Looping | f # fs' \<Rightarrow> Sending fs' Then_loop)"
  by (cases fs) (simp_all add: toy_next_def viewer_write_def viewer_send_def guard_valid_def taken_def)

theorem viewer_stream_exact_witness:
  "vw_phase shared_viewer = Looping \<and> frame_bytes (map snd (vw_out shared_viewer)) = []"
proof -
  let ?v = "fst (viewer_open toy_world (fst toy_share) True None (snd toy_share))"
  have open': "viewer_open toy_world (fst toy_share) True None (snd toy_share) = (?v, snd toy_share)"
    by (simp add: viewer_open_def)
  have v: "vw_phase ?v = Sending [Text_frame (hello_json None (fst toy_share)), Binary_frame (at_replay (fst toy_share))] Then_loop"
    "vw_lease ?v = None" by (simp_all add: viewer_open_def)
  note v1 = toy_next_fields [OF v]
  note v2 = toy_next_fields [OF v1 [THEN conjunct2, unfolded list.case] v1 [THEN conjunct1]]
  note v3 = toy_next_fields [OF v2 [THEN conjunct2, unfolded list.case] v2 [THEN conjunct1]]
  have loop: "vw_phase shared_viewer = Looping" using v3 by (simp add: shared_viewer_def)
  have "(viewer_step toy_parse (\<lambda>_. []) unit_emulator)\<^sup>*\<^sup>* (toy_world, ?v, snd toy_share) (toy_world, shared_viewer, snd toy_share)"
    unfolding shared_viewer_def
    using toy_next_step [OF v] toy_next_step [OF v1 [THEN conjunct2, unfolded list.case] v1 [THEN conjunct1]]
      toy_next_step [OF v2 [THEN conjunct2, unfolded list.case] v2 [THEN conjunct1]]
    by (meson rtranclp.rtrancl_into_rtrancl rtranclp.rtrancl_refl)
  from viewer_stream_exact [OF toy_attached_reach toy_share open' this loop] show ?thesis
    using loop by (simp add: toy_share_log)
qed

end
