(* ===== verification/Ident.thy ===== *)
theory Ident
  imports Text
begin

text \<open>
  Login identities (\<open>src/src/identity.rs\<close>): the provider enum, the normalised
  \<open>provider:subject\<close> pair, its string form and parser, and the validation of the allowlist.
\<close>

subsection \<open>Data and operations\<close>

datatype provider = Local | Google | Microsoft | Apple

fun provider_as_str :: "provider \<Rightarrow> string" where
  "provider_as_str Local = ''local''"
| "provider_as_str Google = ''google''"
| "provider_as_str Microsoft = ''microsoft''"
| "provider_as_str Apple = ''apple''"

definition supported :: "provider \<Rightarrow> bool" where
  "supported p \<longleftrightarrow> p = Local \<or> p = Google"

definition provider_parse :: "string \<Rightarrow> provider option" where
  "provider_parse s =
    (if s = ''local'' then Some Local
     else if s = ''google'' then Some Google
     else if s = ''microsoft'' then Some Microsoft
     else if s = ''apple'' then Some Apple
     else None)"

record identity =
  provider :: provider
  subject :: string

definition identity_new :: "provider \<Rightarrow> string \<Rightarrow> identity" where
  "identity_new p s = \<lparr>provider = p, subject = to_lowercase (trim s)\<rparr>"

definition identity_str :: "identity \<Rightarrow> string" where
  "identity_str i = provider_as_str (provider i) @ '':'' @ subject i"

datatype parse_error = MissingPrefix | UnknownProvider | EmptySubject

definition identity_parse :: "string \<Rightarrow> parse_error + identity" where
  "identity_parse s0 =
    (let s = trim s0
     in case split_once CHR '':'' s of
       None \<Rightarrow> Inl MissingPrefix
     | Some (prov, subj) \<Rightarrow>
        (case provider_parse (to_lowercase (trim prov)) of
           None \<Rightarrow> Inl UnknownProvider
         | Some p \<Rightarrow> if trim subj = [] then Inl EmptySubject else Inr (identity_new p subj)))"

datatype validate_error = NoUsers | Unsupported identity | Duplicate identity

text \<open>The two loops of \<open>validate\<close>: first over the providers, then over the duplicates. The second
  compares each user with the ones before it.\<close>

fun first_unsupported :: "identity list \<Rightarrow> identity option" where
  "first_unsupported [] = None"
| "first_unsupported (u # us) = (if supported (provider u) then first_unsupported us else Some u)"

fun first_duplicate :: "identity list \<Rightarrow> identity list \<Rightarrow> identity option" where
  "first_duplicate seen [] = None"
| "first_duplicate seen (u # us) =
    (if u \<in> set seen then Some u else first_duplicate (seen @ [u]) us)"

definition validate_users :: "identity list \<Rightarrow> validate_error + unit" where
  "validate_users users =
    (if users = [] then Inl NoUsers
     else case first_unsupported users of
       Some u \<Rightarrow> Inl (Unsupported u)
     | None \<Rightarrow> (case first_duplicate [] users of
         Some u \<Rightarrow> Inl (Duplicate u)
       | None \<Rightarrow> Inr ()))"

subsection \<open>Normal form\<close>

text \<open>The identities the program ever holds: made by \<open>identity_new\<close> from a non-blank subject.\<close>

definition identity_ok :: "identity \<Rightarrow> bool" where
  "identity_ok i \<longleftrightarrow> subject i \<noteq> [] \<and> trimmed (subject i) \<and> to_lowercase (subject i) = subject i"

lemma identity_new_ok: "trim s \<noteq> [] \<Longrightarrow> identity_ok (identity_new p s)"
  by (simp add: identity_ok_def identity_new_def) (simp add: to_lowercase_def)

lemma identity_new_subject: "identity_ok i \<Longrightarrow> identity_new (provider i) (subject i) = i"
  by (simp add: identity_ok_def identity_new_def trim_trimmed)

lemma provider_parse_as_str: "provider_parse (provider_as_str p) = Some p"
  by (cases p) (simp_all add: provider_parse_def)

lemma provider_parse_Some: "provider_parse s = Some p \<longleftrightarrow> s = provider_as_str p"
  by (cases p) (auto simp: provider_parse_def)

lemma provider_str_chars:
  "c \<in> set (provider_as_str p) \<Longrightarrow> is_ascii_lower c"
  by (cases p) (auto simp: is_ascii_lower_def code_def)

lemma provider_str_nonempty [simp]: "provider_as_str p \<noteq> []"
  by (cases p) simp_all

lemma provider_str_props:
  "CHR '':'' \<notin> set (provider_as_str p)" "trim (provider_as_str p) = provider_as_str p"
  "to_lowercase (provider_as_str p) = provider_as_str p"
  "\<not> is_whitespace (hd (provider_as_str p))"
proof -
  show "CHR '':'' \<notin> set (provider_as_str p)" by (cases p) simp_all
  have lower: "\<And>c. c \<in> set (provider_as_str p) \<Longrightarrow> \<not> is_whitespace c \<and> char_lower c = c"
    by (auto dest!: provider_str_chars
        simp: is_whitespace_def is_ascii_lower_def char_lower_def has_lower_def is_ascii_upper_def)
  then show "\<not> is_whitespace (hd (provider_as_str p))" by simp
  then show "trim (provider_as_str p) = provider_as_str p"
    using lower by (intro trim_trimmed) (simp add: trimmed_def)
  show "to_lowercase (provider_as_str p) = provider_as_str p"
    using lower by (simp add: to_lowercase_def map_idI)
qed

lemma identity_str_inj:
  assumes "identity_str i = identity_str j"
  shows "i = j"
proof -
  have "split_once CHR '':'' (identity_str k) = Some (provider_as_str (provider k), subject k)" for k
    using provider_str_props(1) by (simp add: identity_str_def split_once_append)
  then have "provider_as_str (provider i) = provider_as_str (provider j)" "subject i = subject j"
    using assms by (metis option.inject prod.inject)+
  then have "provider i = provider j" by (metis provider_parse_as_str option.inject)
  with \<open>subject i = subject j\<close> show ?thesis by simp
qed

lemma identity_parse_ok: "identity_parse s = Inr i \<Longrightarrow> identity_ok i"
  by (auto simp: identity_parse_def Let_def identity_new_ok split: option.splits if_splits)

lemma identity_str_trimmed: "identity_ok i \<Longrightarrow> trim (identity_str i) = identity_str i"
  using provider_str_props(4) [of "provider i"]
  by (intro trim_trimmed) (auto simp: trimmed_def identity_str_def identity_ok_def)

text \<open>printing a normalised identity and parsing it back gives the same identity.\<close>

theorem identity_roundtrip:
  assumes "identity_ok i"
  shows "identity_parse (identity_str i) = Inr i"
proof -
  have "split_once CHR '':'' (identity_str i) = Some (provider_as_str (provider i), subject i)"
    using provider_str_props(1) by (simp add: identity_str_def split_once_append)
  moreover have "trim (subject i) \<noteq> []" using assms by (simp add: identity_ok_def trim_trimmed)
  ultimately show ?thesis
    using assms
    by (simp add: identity_parse_def identity_str_trimmed provider_str_props
        provider_parse_as_str identity_new_subject)
qed

theorem identity_roundtrip_witness:
  "identity_parse (identity_str \<lparr>provider = Google, subject = ''a@b.c''\<rparr>)
    = Inr \<lparr>provider = Google, subject = ''a@b.c''\<rparr>"
  by (rule identity_roundtrip)
    (simp add: identity_ok_def trimmed_def is_whitespace_def code_def to_lowercase_def
      char_lower_def has_lower_def is_ascii_upper_def)

text \<open>What parsing accepts, in full: case and padding do not matter, only the first colon separates.\<close>

lemma identity_parse_spec:
  "identity_parse s = Inr i \<longleftrightarrow>
    (\<exists>a b. trim s = a @ CHR '':'' # b \<and> CHR '':'' \<notin> set a \<and>
       to_lowercase (trim a) = provider_as_str (provider i) \<and> trim b \<noteq> [] \<and>
       subject i = to_lowercase (trim b))"
proof
  assume "identity_parse s = Inr i"
  then show "\<exists>a b. trim s = a @ CHR '':'' # b \<and> CHR '':'' \<notin> set a \<and>
       to_lowercase (trim a) = provider_as_str (provider i) \<and> trim b \<noteq> [] \<and>
       subject i = to_lowercase (trim b)"
    by (fastforce simp: identity_parse_def Let_def identity_new_def provider_parse_Some
        split: option.splits if_splits dest: split_once_SomeD)
next
  assume "\<exists>a b. trim s = a @ CHR '':'' # b \<and> CHR '':'' \<notin> set a \<and>
       to_lowercase (trim a) = provider_as_str (provider i) \<and> trim b \<noteq> [] \<and>
       subject i = to_lowercase (trim b)"
  then show "identity_parse s = Inr i"
    by (auto simp: identity_parse_def identity_new_def split_once_append provider_parse_as_str)
qed

subsection \<open>The allowlist\<close>

lemma first_unsupported_None: "first_unsupported us = None \<longleftrightarrow> (\<forall>u \<in> set us. supported (provider u))"
  by (induction us) auto

lemma first_duplicate_None:
  "first_duplicate seen us = None \<longleftrightarrow> distinct us \<and> set us \<inter> set seen = {}"
  by (induction us arbitrary: seen) auto

text \<open>the allowlist is accepted exactly when it is not empty, every entry's provider can be
  authenticated against, and no identity is listed twice.\<close>

theorem validate_users_spec:
  "validate_users us = Inr () \<longleftrightarrow>
    us \<noteq> [] \<and> list_all (\<lambda>u. supported (provider u)) us \<and> distinct us"
  using first_unsupported_None [of us] first_duplicate_None [of "[]" us]
  by (cases "first_unsupported us"; cases "first_duplicate [] us")
    (auto simp: validate_users_def list_all_iff)

end
