(* ===== verification/Disk.thy ===== *)
theory Disk
  imports Prelude
begin

text \<open>
  The atomic file replacement the three stores share: \<open>DeviceStore::write\<close> (\<open>src/src/devices.rs\<close>),
  \<open>EnrollmentStore::write\<close> (\<open>src/src/enrollment.rs\<close>) and \<open>write_atomic\<close> (\<open>src/src/session.rs\<close>).

  A file is its visible content and whether that content has been synced. Every call may fail (the
  list of outcomes decides), a failing write may leave any prefix behind, and the states between the
  calls are recorded: another process may read, or the machine may stop, in each of them.
\<close>

type_synonym path = "string \<times> string"
type_synonym dfile = "string \<times> bool"
type_synonym fs = "(path, dfile) hmap"

datatype fs_call =
    Create_new path
  | Write_all path string
  | Sync_all path
  | Rename path path

datatype outcome = Done | Failed nat

fun fs_effect :: "fs_call \<Rightarrow> fs \<Rightarrow> fs option" where
  "fs_effect (Create_new p) fs =
     (if hm_get fs p = None then Some (hm_insert p ('''', False) fs) else None)"
| "fs_effect (Write_all p body) fs = Some (hm_insert p (body, False) fs)"
| "fs_effect (Sync_all p) fs =
     map_option (\<lambda>(c, _). hm_insert p (c, True) fs) (hm_get fs p)"
| "fs_effect (Rename p q) fs =
     map_option (\<lambda>f. hm_insert q f (hm_remove p fs)) (hm_get fs p)"

fun fs_failure :: "fs_call \<Rightarrow> nat \<Rightarrow> fs \<Rightarrow> fs" where
  "fs_failure (Write_all p body) n fs = hm_insert p (take n body, False) fs"
| "fs_failure _ n fs = fs"

fun fs_run :: "fs_call list \<Rightarrow> outcome list \<Rightarrow> fs \<Rightarrow> bool \<times> fs list" where
  "fs_run [] outs fs = (True, [fs])"
| "fs_run (c # cs) outs fs =
    (case (outs, fs_effect c fs) of
      (Failed n # _, _) \<Rightarrow> (False, [fs, fs_failure c n fs])
    | (_, None) \<Rightarrow> (False, [fs])
    | (_, Some fs') \<Rightarrow> (let (ok, seen) = fs_run cs (tl outs) fs' in (ok, fs # seen)))"

definition tmp_path :: "path \<Rightarrow> string \<Rightarrow> path" where
  "tmp_path p rnd = (fst p, ''.'' @ snd p @ ''.'' @ rnd @ ''.tmp'')"

text \<open>\<open>mk\<close>: whether \<open>create_dir_all\<close> succeeded; \<open>rm\<close>: whether removing the temporary file did. The
  result is the outcome and every state on the way, the last one being the final state.\<close>

definition write_atomic ::
  "bool \<Rightarrow> path \<Rightarrow> string \<Rightarrow> string \<Rightarrow> outcome list \<Rightarrow> bool \<Rightarrow> fs \<Rightarrow> bool \<times> fs list" where
  "write_atomic mk p rnd body outs rm fs =
    (if \<not> mk then (False, [fs])
     else
       let tmp = tmp_path p rnd;
           (ok, seen) = fs_run [Create_new tmp, Write_all tmp body, Sync_all tmp, Rename tmp p] outs fs
       in if ok then (True, seen)
          else (False, seen @ [if rm then hm_remove tmp (last seen) else last seen]))"

lemma tmp_path_neq [simp]: "tmp_path p rnd \<noteq> p" "p \<noteq> tmp_path p rnd"
proof -
  have "length (snd (tmp_path p rnd)) > length (snd p)" by (simp add: tmp_path_def)
  then show "tmp_path p rnd \<noteq> p" "p \<noteq> tmp_path p rnd" by auto
qed

lemma fs_run_nonempty: "snd (fs_run cs outs fs) \<noteq> []"
  by (induction cs outs fs rule: fs_run.induct) (auto split: list.splits option.splits outcome.splits prod.splits)

lemma write_atomic_cases:
  assumes "write_atomic mk p rnd body outs rm fs = (ok, seen)"
  shows "list_all (\<lambda>st. hm_get st p = hm_get fs p \<or> hm_get st p = Some (body, True)) seen \<and>
    hm_get (last seen) p = (if ok then Some (body, True) else hm_get fs p) \<and> seen \<noteq> []"
proof -
  note defs = write_atomic_def Let_def hm.get_ins hm.get_rem
  show ?thesis
  proof (cases "mk \<and> hm_get fs (tmp_path p rnd) = None")
    case False
    then show ?thesis
      using assms by (auto simp: defs split: list.splits outcome.splits if_splits)
  next
    case True
    show ?thesis
      using assms True
      by (auto simp: defs split: list.splits outcome.splits if_splits prod.splits)
  qed
qed

text \<open>replacing a file is atomic: in every state another process can see, or a crash can leave, the target
  is its old self or the complete new text, already synced; it is the new one exactly when the write
  reports success.\<close>

theorem write_atomic_safe:
  "let (ok, seen) = write_atomic mk p rnd body outs rm fs
   in list_all (\<lambda>st. hm_get st p = hm_get fs p \<or> hm_get st p = Some (body, True)) seen \<and>
      hm_get (last seen) p = (if ok then Some (body, True) else hm_get fs p)"
  using write_atomic_cases [of mk p rnd body outs rm fs] by (simp split: prod.splits)

text \<open>A reported failure leaves no temporary file, when removing it works.\<close>

lemma write_atomic_no_litter:
  "fst (write_atomic True p rnd body outs True fs) = False \<Longrightarrow>
    hm_get (last (snd (write_atomic True p rnd body outs True fs))) (tmp_path p rnd) = None"
  by (auto simp: write_atomic_def Let_def split: prod.splits if_splits)

end
