(* ===== verification/Config.thy ===== *)
theory Config
  imports Ident Disk
begin

text \<open>
  Configuration (\<open>src/src/config.rs\<close>): the tables of the file with their defaults, the resolution into
  the runtime configuration with its clamps, the zero-config mode, the login methods that are usable,
  and the normalisation and matching of origins.

  Parameters: the TOML parser and serialiser, the \<open>WEBSHELL_SECRET\<close> variable, the passwd entry of the
  effective user. The runtime TLS mode, a record of \<open>src/src/certs.rs\<close>, is declared here because the
  runtime configuration holds it.
\<close>

subsection \<open>Settings\<close>

record network =
  n_bind :: string
  n_public_base_url :: "string option"
  n_allowed_origins :: "string list"
  n_strict_origin :: bool
  n_cookie_secure :: bool

record auth =
  a_users :: "identity list"
  a_login_methods :: "string list"
  a_session_ttl_secs :: nat
  a_session_path :: "string option"
  a_secret_base64 :: "string option"

record mfa =
  m_required :: bool
  m_enrollment_path :: string
  m_remember_device :: bool
  m_remember_device_days :: nat
  m_device_path :: string
  m_max_devices :: nat

record google =
  go_client_id :: "string option"
  go_client_secret :: "string option"

record terminal_settings =
  t_max_sessions :: nat
  t_scrollback_bytes :: nat
  t_login_cmd :: "string list"
  t_redraw_secs :: nat
  t_envs :: "(string \<times> string) list"

record sharing =
  sh_enabled :: bool
  sh_max_secs :: nat

record certs =
  ce_enabled :: bool
  ce_store_dir :: string
  ce_staging :: bool
  ce_contact :: "string option"

record settings =
  st_network :: network
  st_auth :: auth
  st_mfa :: mfa
  st_google :: google
  st_terminals :: terminal_settings
  st_sharing :: sharing
  st_certs :: certs
  st_local_passwords :: "(string, string) hmap"

definition network_default :: network where
  "network_default = \<lparr>n_bind = ''127.0.0.1:8080'', n_public_base_url = None, n_allowed_origins = [],
     n_strict_origin = False, n_cookie_secure = False\<rparr>"

definition auth_default :: auth where
  "auth_default = \<lparr>a_users = [], a_login_methods = [''local''], a_session_ttl_secs = 8 * 3600,
     a_session_path = None, a_secret_base64 = None\<rparr>"

definition mfa_default :: mfa where
  "mfa_default = \<lparr>m_required = True, m_enrollment_path = ''enrollment.toml'', m_remember_device = False,
     m_remember_device_days = 30, m_device_path = ''devices.toml'', m_max_devices = 10\<rparr>"

definition terminals_default :: terminal_settings where
  "terminals_default = \<lparr>t_max_sessions = 10, t_scrollback_bytes = 128 * 1024, t_login_cmd = [],
     t_redraw_secs = 30, t_envs = []\<rparr>"

definition sharing_default :: sharing where
  "sharing_default = \<lparr>sh_enabled = True, sh_max_secs = 30 * 24 * 3600\<rparr>"

definition certs_default :: certs where
  "certs_default = \<lparr>ce_enabled = False, ce_store_dir = ''certs'', ce_staging = False, ce_contact = None\<rparr>"

definition settings_default :: settings where
  "settings_default = \<lparr>st_network = network_default, st_auth = auth_default, st_mfa = mfa_default,
     st_google = \<lparr>go_client_id = None, go_client_secret = None\<rparr>, st_terminals = terminals_default,
     st_sharing = sharing_default, st_certs = certs_default, st_local_passwords = []\<rparr>"

datatype load_error = ReadError | ParseError

text \<open>\<open>content\<close> is what reading the file gives; \<open>parse\<close> is the TOML parser for settings.\<close>

definition settings_load ::
  "(string \<Rightarrow> settings option) \<Rightarrow> string option option \<Rightarrow> load_error + settings" where
  "settings_load parse content =
    (case content of
      None \<Rightarrow> Inr settings_default
    | Some None \<Rightarrow> Inl ReadError
    | Some (Some body) \<Rightarrow> (case parse body of None \<Rightarrow> Inl ParseError | Some s \<Rightarrow> Inr s))"

definition settings_save ::
  "(settings \<Rightarrow> string option) \<Rightarrow> settings \<Rightarrow> path \<Rightarrow> string \<Rightarrow> outcome list \<Rightarrow> bool \<Rightarrow> fs \<Rightarrow> bool \<times> fs list" where
  "settings_save ser s p rnd outs rm fs =
    (case ser s of None \<Rightarrow> (False, [fs]) | Some body \<Rightarrow> write_atomic True p rnd body outs rm fs)"

datatype config_choice = Use string | Missing string

definition choose_config :: "(string \<Rightarrow> bool) \<Rightarrow> string \<Rightarrow> config_choice" where
  "choose_config exists_file requested = (if exists_file requested then Use requested else Missing requested)"

subsection \<open>Origins\<close>

definition normalize_origin :: "string \<Rightarrow> string" where
  "normalize_origin url0 =
    (let url = trim url0
     in case str_find ''://'' url of
       Some i \<Rightarrow>
        (let after = drop (i + 3) url;
             end = (case str_find ''/'' after of Some e \<Rightarrow> e | None \<Rightarrow> length after)
         in take i url @ ''://'' @ take end after)
     | None \<Rightarrow>
        (let end = (case str_find ''/'' url of Some e \<Rightarrow> e | None \<Rightarrow> length url) in take end url))"

definition origin_matches :: "string \<Rightarrow> string \<Rightarrow> bool" where
  "origin_matches allowed origin =
    (if allowed = origin then True
     else \<not> str_contains ''://'' allowed \<and> nth_piece (split_str ''://'' origin) 1 = Some allowed)"

subsection \<open>Runtime configuration\<close>

record tls_config =
  tls_hostname :: string
  tls_store_dir :: string
  tls_staging :: bool
  tls_contact :: "string option"

record config =
  bind_addr :: string
  users :: "identity list"
  login_methods :: "provider list"
  local_passwords :: "(string, string) hmap"
  mfa_required :: bool
  google_client_id :: "string option"
  google_client_secret :: "string option"
  mfa_enrollment_path :: string
  remember_device :: bool
  remember_device_window :: nat
  device_path :: string
  max_devices_per_identity :: nat
  owner :: string
  owner_home :: string
  slots_per_user :: nat
  max_share_secs :: nat
  sharing_enabled :: bool
  public_base_url :: "string option"
  login_cmd :: "string list"
  envs :: "(string \<times> string) list"
  scrollback_cap :: nat
  redraw_interval :: "nat option"
  session_ttl_secs :: nat
  session_path :: "string option"
  cookie_secure :: bool
  allowed_origins :: "string list"
  strict_origin :: bool
  ws_message_limit :: nat
  secret_base64 :: "string option"
  tls :: "tls_config option"

record owner_info =
  oi_name :: string
  oi_home :: string
  oi_shell :: string

text \<open>\<open>pw\<close> is the passwd entry (name, directory, shell) of the effective user, if there is one; \<open>env_user\<close> the
  \<open>USER\<close> variable.\<close>

definition owner_info_of :: "(string \<times> string \<times> string) option \<Rightarrow> string option \<Rightarrow> nat \<Rightarrow> owner_info" where
  "owner_info_of pw env_user uid =
    (case pw of
      None \<Rightarrow> \<lparr>oi_name = (case env_user of Some u \<Rightarrow> u | None \<Rightarrow> show_nat uid), oi_home = ''/'', oi_shell = ''/bin/sh''\<rparr>
    | Some (name, dir, shell) \<Rightarrow>
        \<lparr>oi_name = name, oi_home = (if dir = [] then ''/'' else dir),
         oi_shell = (if shell = [] then ''/bin/sh'' else shell)\<rparr>)"

definition dedup :: "'a list \<Rightarrow> 'a list" where
  "dedup xs = foldl (\<lambda>acc x. if x \<in> set acc then acc else acc @ [x]) [] xs"

definition login_method :: "string \<Rightarrow> provider option" where
  "login_method name =
    (let m = to_lowercase (trim name)
     in if m = ''local'' then Some Local else if m = ''google'' then Some Google else None)"

definition from_settings :: "owner_info \<Rightarrow> string option \<Rightarrow> settings \<Rightarrow> config" where
  "from_settings oi env_secret s =
    (let base = map_option (trim_end_matches CHR ''/'') (n_public_base_url (st_network s));
         slots = clamp 1 64 (t_max_sessions (st_terminals s));
         requested = clamp (4 * 1024) (16 * 1024 * 1024) (t_scrollback_bytes (st_terminals s));
         budget = 256 * 1024 * 1024
     in \<lparr>bind_addr = n_bind (st_network s),
         users = a_users (st_auth s),
         login_methods = dedup (List.map_filter login_method (a_login_methods (st_auth s))),
         local_passwords = st_local_passwords s,
         mfa_required = m_required (st_mfa s),
         google_client_id = go_client_id (st_google s),
         google_client_secret = go_client_secret (st_google s),
         mfa_enrollment_path = m_enrollment_path (st_mfa s),
         remember_device = m_required (st_mfa s) \<and> m_remember_device (st_mfa s),
         remember_device_window = clamp 1 90 (m_remember_device_days (st_mfa s)) * 24 * 3600,
         device_path = m_device_path (st_mfa s),
         max_devices_per_identity = clamp 1 64 (m_max_devices (st_mfa s)),
         owner = oi_name oi,
         owner_home = oi_home oi,
         slots_per_user = slots,
         max_share_secs = max (sh_max_secs (st_sharing s)) 1,
         sharing_enabled = sh_enabled (st_sharing s),
         public_base_url = base,
         login_cmd = (if t_login_cmd (st_terminals s) = [] then [oi_shell oi, ''-l'']
                      else t_login_cmd (st_terminals s)),
         envs = t_envs (st_terminals s),
         scrollback_cap = min requested (budget div slots),
         redraw_interval = (if t_redraw_secs (st_terminals s) = 0 then None
                            else Some (clamp 1 3600 (t_redraw_secs (st_terminals s)))),
         session_ttl_secs = max (a_session_ttl_secs (st_auth s)) 60,
         session_path = a_session_path (st_auth s),
         cookie_secure = (n_cookie_secure (st_network s) \<or>
           (case base of None \<Rightarrow> False | Some u \<Rightarrow> starts_with ''https://'' (to_ascii_lowercase u))),
         allowed_origins = dedup (filter (\<lambda>o'. o' \<noteq> []) (map normalize_origin
           (n_allowed_origins (st_network s) @ (case base of None \<Rightarrow> [] | Some u \<Rightarrow> [u])))),
         strict_origin = n_strict_origin (st_network s),
         ws_message_limit = 64 * 1024,
         secret_base64 = (case env_secret of Some v \<Rightarrow> Some v | None \<Rightarrow> a_secret_base64 (st_auth s)),
         tls = None\<rparr>)"

definition config_simple :: "owner_info \<Rightarrow> string option \<Rightarrow> string \<Rightarrow> string \<Rightarrow> string \<Rightarrow> config" where
  "config_simple oi env_secret user password bind =
    (let ident = identity_new Local user
     in from_settings oi env_secret (settings_default
       \<lparr>st_network := network_default\<lparr>n_bind := bind\<rparr>,
        st_auth := auth_default\<lparr>a_users := [ident], a_login_methods := [''local'']\<rparr>,
        st_mfa := mfa_default\<lparr>m_required := False\<rparr>,
        st_local_passwords := hm_insert (identity_str ident) password []\<rparr>))"

definition local_password :: "config \<Rightarrow> identity \<Rightarrow> string option" where
  "local_password c i =
    map_option snd (find (\<lambda>(k, _). to_lowercase (trim k) = identity_str i) (local_passwords c))"

definition local_usable :: "config \<Rightarrow> bool" where
  "local_usable c \<longleftrightarrow> Local \<in> set (login_methods c) \<and> list_ex (\<lambda>u. provider u = Local) (users c)"

definition redirect_uri :: "config \<Rightarrow> string option" where
  "redirect_uri c = map_option (\<lambda>base. base @ ''/webshell/oauth/callback'') (public_base_url c)"

definition google_usable :: "config \<Rightarrow> bool" where
  "google_usable c \<longleftrightarrow> Google \<in> set (login_methods c) \<and> google_client_id c \<noteq> None \<and>
     google_client_secret c \<noteq> None \<and> redirect_uri c \<noteq> None"

definition permits :: "config \<Rightarrow> identity \<Rightarrow> bool" where
  "permits c i \<longleftrightarrow> i \<in> set (users c)"

definition ensure_unprivileged_uid :: "nat \<Rightarrow> unit + unit" where
  "ensure_unprivileged_uid euid = (if euid = 0 then Inl () else Inr ())"

subsection \<open>Bounds\<close>

text \<open>whatever the file says, the runtime configuration stays inside its bounds: between 1 and 64 slots (the
  wire format has one byte for the slot), at most 256 MiB of scrollback over all slots of a user, a
  trust window of 1 to 90 days, 1 to 64 devices, redraw ticks between a second and an hour, sessions
  and links of positive life; devices are remembered only where a second factor is required, and an
  https base URL forces the Secure flag.\<close>

theorem from_settings_bounds:
  "let c = from_settings oi secret s in
    1 \<le> slots_per_user c \<and> slots_per_user c \<le> 64 \<and>
    4096 \<le> scrollback_cap c \<and> scrollback_cap c * slots_per_user c \<le> 256 * 1024 * 1024 \<and>
    24 * 3600 \<le> remember_device_window c \<and> remember_device_window c \<le> 90 * 24 * 3600 \<and>
    1 \<le> max_devices_per_identity c \<and> max_devices_per_identity c \<le> 64 \<and>
    (case redraw_interval c of None \<Rightarrow> t_redraw_secs (st_terminals s) = 0 | Some d \<Rightarrow> 1 \<le> d \<and> d \<le> 3600) \<and>
    60 \<le> session_ttl_secs c \<and> 1 \<le> max_share_secs c \<and>
    remember_device c = (mfa_required c \<and> m_remember_device (st_mfa s)) \<and>
    cookie_secure c = (n_cookie_secure (st_network s) \<or>
      (case public_base_url c of None \<Rightarrow> False | Some u \<Rightarrow> starts_with ''https://'' (to_ascii_lowercase u)))"
proof -
  let ?c = "from_settings oi secret s"
  let ?slots = "clamp (1::nat) 64 (t_max_sessions (st_terminals s))"
  have slots: "1 \<le> ?slots" "?slots \<le> 64" using clamp_bounds [of 1 "64::nat"] by auto
  have req: "4096 \<le> clamp (4 * 1024) (16 * 1024 * 1024) (t_scrollback_bytes (st_terminals s))"
    using clamp_bounds [of "4 * 1024" "16 * 1024 * 1024 :: nat"] by simp
  have "268435456 div 64 \<le> (268435456 :: nat) div ?slots"
    using slots by (intro div_le_mono2) auto
  then have cap: "4096 \<le> scrollback_cap ?c"
    using req by (simp add: from_settings_def Let_def)
  have "scrollback_cap ?c * slots_per_user ?c \<le> 268435456 div ?slots * ?slots"
    by (simp add: from_settings_def Let_def)
  also have "... \<le> 268435456" by (rule div_times_less_eq_dividend)
  finally have total: "scrollback_cap ?c * slots_per_user ?c \<le> 268435456" .
  have days: "1 \<le> clamp (1::nat) 90 d" "clamp (1::nat) 90 d \<le> 90" for d
    using clamp_bounds [of 1 "90::nat" d] by auto
  have devs: "1 \<le> clamp (1::nat) 64 d" "clamp (1::nat) 64 d \<le> 64" for d
    using clamp_bounds [of 1 "64::nat" d] by auto
  have redraw: "1 \<le> clamp (1::nat) 3600 d" "clamp (1::nat) 3600 d \<le> 3600" for d
    using clamp_bounds [of 1 "3600::nat" d] by auto
  show ?thesis
    using cap total slots days [of "m_remember_device_days (st_mfa s)"] devs redraw
    by (simp add: Let_def from_settings_def)
qed

subsection \<open>Who may log in, and how\<close>

lemma set_dedup: "set (dedup xs) = set xs"
proof -
  have "set (foldl (\<lambda>acc x. if x \<in> set acc then acc else acc @ [x]) acc xs) = set acc \<union> set xs" for acc
    by (induction xs arbitrary: acc) auto
  then show ?thesis by (simp add: dedup_def)
qed

lemma distinct_dedup: "distinct (dedup xs)"
proof -
  have "distinct acc \<Longrightarrow> distinct (foldl (\<lambda>acc x. if x \<in> set acc then acc else acc @ [x]) acc xs)" for acc
    by (induction xs arbitrary: acc) auto
  then show ?thesis by (simp add: dedup_def)
qed

lemma identity_str_lower: "to_lowercase (subject i) = subject i \<Longrightarrow> to_lowercase (identity_str i) = identity_str i"
  using provider_str_props(3) [of "provider i"]
  by (simp add: identity_str_def to_lowercase_def char_lower_def has_lower_def is_ascii_upper_def code_def)

lemma identity_new_key:
  "to_lowercase (trim (identity_str (identity_new p s))) = identity_str (identity_new p s)"
proof -
  let ?i = "identity_new p s"
  have "trimmed (subject ?i)" "to_lowercase (subject ?i) = subject ?i"
    by (simp_all add: identity_new_def)
  moreover have "trimmed (identity_str ?i)"
    using provider_str_props(4) [of p] \<open>trimmed (subject ?i)\<close>
    by (cases "subject ?i = []")
      (auto simp: trimmed_def identity_str_def identity_new_def is_whitespace_def code_def)
  ultimately show ?thesis using identity_str_lower by (simp add: trim_trimmed)
qed

text \<open>the zero-config mode lets exactly the one given user in, by password only: the local method is
  usable and the stored value is the given password, Google sign-in and the second factor are off, and
  no device can be remembered.\<close>

theorem config_simple_spec:
  "let c = config_simple oi secret user pw bind in
    (permits c i \<longleftrightarrow> i = identity_new Local user) \<and> local_usable c \<and> \<not> google_usable c \<and>
    local_password c (identity_new Local user) = Some pw \<and> \<not> mfa_required c \<and> \<not> remember_device c \<and>
    bind_addr c = bind"
proof -
  have l: "login_method ''local'' = Some Local"
    by (simp add: login_method_def trim_def trim_start_def trim_end_def is_whitespace_def to_lowercase_def
        char_lower_def has_lower_def is_ascii_upper_def code_def)
  have p: "provider (identity_new Local user) = Local" by (simp add: identity_new_def)
  show ?thesis
    by (simp add: config_simple_def from_settings_def Let_def permits_def local_usable_def google_usable_def
        local_password_def mfa_default_def auth_default_def network_default_def settings_default_def
        hm_insert_def identity_new_key l p dedup_def List.map_filter_simps set_dedup)
qed

lemma google_usable_needs:
  "google_usable c \<Longrightarrow> \<exists>base. redirect_uri c = Some (base @ ''/webshell/oauth/callback'') \<and> public_base_url c = Some base"
  by (auto simp: google_usable_def redirect_uri_def)

lemma login_methods_known:
  "set (login_methods (from_settings oi secret s)) \<subseteq> {Local, Google}"
  by (auto simp: from_settings_def Let_def set_dedup List.map_filter_def login_method_def split: if_splits)

subsection \<open>Origins\<close>

lemma str_find_None: "str_find pat s = None \<longleftrightarrow> (\<forall>a b. s \<noteq> a @ pat @ b)"
proof (induction s)
  case Nil
  then show ?case by auto
next
  case (Cons c cs)
  show ?case
  proof
    assume none: "str_find pat (c # cs) = None"
    then have s: "\<not> starts_with pat (c # cs)" "str_find pat cs = None" by (auto split: if_splits)
    show "\<forall>a b. c # cs \<noteq> a @ pat @ b"
    proof (intro allI notI)
      fix a b assume eq: "c # cs = a @ pat @ b"
      show False
      proof (cases a)
        case Nil
        with eq s(1) show False by (auto simp: starts_with_iff)
      next
        case (Cons x a')
        with eq s(2) Cons.IH show False by auto
      qed
    qed
  next
    assume all: "\<forall>a b. c # cs \<noteq> a @ pat @ b"
    then have "\<not> starts_with pat (c # cs)" by (auto simp: starts_with_iff) (metis append_Nil)
    moreover have "\<forall>a b. cs \<noteq> a @ pat @ b" using all by (metis append_Cons)
    ultimately show "str_find pat (c # cs) = None" using Cons.IH by simp
  qed
qed

lemma str_find_first:
  "str_find pat s = Some i \<Longrightarrow> s = take i s @ pat @ drop (i + length pat) s"
  by (metis add.commute append_take_drop_id drop_drop str_find_take)

lemma str_contains_iff: "str_contains pat s \<longleftrightarrow> (\<exists>a b. s = a @ pat @ b)"
  using str_find_None [of pat s] by (auto simp: str_contains_def)

lemma split_str_nth1:
  assumes "nth_piece (split_str ''://'' origin) 1 = Some h"
  shows "\<exists>scheme rest. origin = scheme @ ''://'' @ h @ rest \<and> (rest = [] \<or> starts_with ''://'' rest)"
proof -
  obtain i where i: "str_find ''://'' origin = Some i"
    using assms by (cases "str_find ''://'' origin") (auto simp: split_str.simps [of _ origin] nth_piece_def)
  let ?r = "drop (i + 3) origin"
  have o: "origin = take i origin @ ''://'' @ ?r" using str_find_first [OF i] by (simp add: numeral_eq_Suc)
  have split: "split_str ''://'' origin = take i origin # split_str ''://'' ?r"
    by (subst split_str.simps) (simp add: i numeral_eq_Suc)
  show ?thesis
  proof (cases "str_find ''://'' ?r")
    case None
    then have "h = ?r" using assms split by (simp add: nth_piece_def split_str.simps [of _ ?r])
    with o show ?thesis by (intro exI [of _ "take i origin"] exI [of _ "[]"]) simp
  next
    case (Some j)
    then have "h = take j ?r" using assms split by (simp add: nth_piece_def split_str.simps [of _ ?r])
    moreover have "?r = take j ?r @ ''://'' @ drop (j + 3) ?r"
      using str_find_first [OF Some] by (simp add: numeral_eq_Suc)
    ultimately have "origin = take i origin @ ''://'' @ h @ (''://'' @ drop (j + 3) ?r)"
      using o by metis
    moreover have "starts_with ''://'' (''://'' @ drop (j + 3) ?r)" by (simp only: starts_with_iff) blast
    ultimately show ?thesis by blast
  qed
qed

text \<open>an accepted origin is never a different site: either it is the configured entry, character by
  character, or the entry is a bare authority and is exactly what follows the scheme of the origin; and
  a browser's origin for a bare authority is accepted under every scheme.\<close>

theorem origin_matches_spec:
  assumes "\<not> str_contains ''://'' host" and "CHR '':'' \<notin> set scheme"
  shows "(origin_matches allowed origin \<longrightarrow> allowed = origin \<or>
      \<not> str_contains ''://'' allowed \<and>
      (\<exists>s rest. origin = s @ ''://'' @ allowed @ rest \<and> (rest = [] \<or> starts_with ''://'' rest))) \<and>
    origin_matches host (scheme @ ''://'' @ host) \<and>
    (origin_matches allowed (scheme @ ''://'' @ host) \<longleftrightarrow> allowed = scheme @ ''://'' @ host \<or> allowed = host)"
proof -
  have split: "split_str ''://'' (scheme @ ''://'' @ host) = [scheme, host]"
  proof -
    have "str_find ''://'' (scheme @ ''://'' @ host) = Some (length scheme)"
      using assms(2)
    proof (induction scheme)
      case Nil
      then show ?case by (simp add: starts_with_def)
    next
      case (Cons c scheme)
      then have "\<not> starts_with ''://'' ((c # scheme) @ ''://'' @ host)" by (auto simp: starts_with_def)
      then show ?case using Cons by simp
    qed
    moreover have "str_find ''://'' host = None" using assms(1) by (simp add: str_contains_def)
    ultimately show ?thesis
      by (subst split_str.simps) (simp add: split_str.simps [of _ host] numeral_eq_Suc)
  qed
  have "origin_matches host (scheme @ ''://'' @ host)"
    using assms(1) by (simp add: origin_matches_def split [simplified] nth_piece_def)
  moreover have "origin_matches allowed (scheme @ ''://'' @ host) \<longleftrightarrow> allowed = scheme @ ''://'' @ host \<or> allowed = host"
    using assms(1) by (auto simp: origin_matches_def split [simplified] nth_piece_def)
  ultimately show ?thesis
    using split_str_nth1 [of origin allowed] by (auto simp: origin_matches_def split: if_splits)
qed

theorem origin_matches_spec_witness:
  "origin_matches ''a.b'' (''https'' @ ''://'' @ ''a.b'') \<and>
   (origin_matches ''evil'' (''https'' @ ''://'' @ ''a.b'') \<longleftrightarrow> ''evil'' = ''https'' @ ''://'' @ ''a.b'' \<or> ''evil'' = ''a.b'')"
  using origin_matches_spec [of "''a.b''" "''https''" "''evil''" "''x''"]
  by (simp add: str_contains_def starts_with_def)

text \<open>Normalising keeps nothing behind the authority, and is stable.\<close>

lemma normalize_origin_full:
  assumes "CHR '':'' \<notin> set scheme" "CHR ''/'' \<notin> set host" "trimmed (scheme @ ''://'' @ host @ rest)"
    "rest = [] \<or> hd rest = CHR ''/''" 
  shows "normalize_origin (scheme @ ''://'' @ host @ rest) = scheme @ ''://'' @ host"
proof -
  have f: "str_find ''://'' (scheme @ ''://'' @ x) = Some (length scheme)" for x
    using assms(1)
  proof (induction scheme)
    case Nil
    then show ?case by (simp add: starts_with_def)
  next
    case (Cons c scheme)
    then have "\<not> starts_with ''://'' ((c # scheme) @ ''://'' @ x)" by (auto simp: starts_with_def)
    then show ?case using Cons by simp
  qed
  have slash: "take (case str_find ''/'' (host @ rest) of Some e \<Rightarrow> e | None \<Rightarrow> length (host @ rest)) (host @ rest) = host"
    using assms(2)
  proof (induction host)
    case Nil
    then show ?case using assms(4) by (cases rest) (auto simp: starts_with_def)
  next
    case (Cons c host)
    then show ?case by (auto simp: starts_with_def split: option.splits)
  qed
  have "drop (length scheme + 3) (scheme @ ''://'' @ host @ rest) = host @ rest"
    by (simp add: numeral_eq_Suc)
  then show ?thesis
    using slash by (simp add: normalize_origin_def trim_trimmed [OF assms(3)] f del: append_Cons append_assoc)
qed

end
