(* ===== verification/Oidc.thy ===== *)
theory Oidc
  imports Ident
begin

text \<open>
  Google sign-in (\<open>src/src/oidc.rs\<close>): the per-login secrets, the authorization URL, the exchange of
  the callback's code, and the validation of the ID token's claims. Percent-encoding, which
  \<open>src/src/totp.rs\<close> repeats for its provisioning URI, is here as well.

  Parameters: the S256 hash of the verifier, the HTTP client, the base64 decoder and the JSON parsers.
\<close>

subsection \<open>Percent-encoding\<close>

definition byte_char :: "u8 \<Rightarrow> char" where
  "byte_char b = char_of (unat b)"

definition hex_upper :: "nat \<Rightarrow> char" where
  "hex_upper n = (if n < 10 then char_of (48 + n) else char_of (55 + n))"

definition pct_byte :: "string \<Rightarrow> u8 \<Rightarrow> string" where
  "pct_byte extra b =
    (if is_ascii_alphanumeric (byte_char b) \<or> byte_char b \<in> set extra then [byte_char b]
     else [CHR ''%'', hex_upper (unat b div 16), hex_upper (unat b mod 16)])"

definition pct_encode :: "string \<Rightarrow> string \<Rightarrow> string" where
  "pct_encode extra s = concat (map (pct_byte extra) (utf8 s))"

definition urlencode :: "string \<Rightarrow> string" where
  "urlencode s = pct_encode ''-_.~'' s"

text \<open>The standard decoder, as the receiver of the URL applies it.\<close>

definition unhex :: "char \<Rightarrow> nat" where
  "unhex c = (if code c < 58 then code c - 48 else code c - 55)"

fun pct_decode :: "string \<Rightarrow> u8 list" where
  "pct_decode [] = []"
| "pct_decode (c # s) =
    (case s of
      h # l # r \<Rightarrow> if c = CHR ''%'' then word_of_nat (unhex h * 16 + unhex l) # pct_decode r
                  else word_of_nat (code c) # pct_decode s
    | _ \<Rightarrow> word_of_nat (code c) # pct_decode s)"

lemma unat_u8_less: "unat (b :: u8) < 256"
  using unsigned_less [of b] by simp

lemma code_byte_char [simp]: "code (byte_char b) = unat b"
  by (simp add: byte_char_def code_char_of unat_u8_less)

lemma unhex_hex_upper: "n < 16 \<Longrightarrow> unhex (hex_upper n) = n"
  by (auto simp: unhex_def hex_upper_def code_char_of)

lemma hex_upper_alnum: "n < 16 \<Longrightarrow> is_ascii_alphanumeric (hex_upper n)"
  by (auto simp: hex_upper_def is_ascii_alphanumeric_def is_ascii_digit_def is_ascii_upper_def
      code_char_of)

lemma unat_u8_nibbles: "unat (b :: u8) div 16 < 16" "unat b mod 16 < 16"
  using unat_u8_less [of b] by auto

lemma pct_decode_byte:
  "CHR ''%'' \<notin> set extra \<Longrightarrow> pct_decode (pct_byte extra b @ s) = b # pct_decode s"
proof -
  assume extra: "CHR ''%'' \<notin> set extra"
  have "unat b div 16 * 16 + unat b mod 16 = unat b" by simp
  then have hex: "word_of_nat (unhex (hex_upper (unat b div 16)) * 16 + unhex (hex_upper (unat b mod 16))) = b"
    by (simp only: unhex_hex_upper unat_u8_nibbles) simp
  have "is_ascii_alphanumeric (CHR ''%'') = False"
    by (simp add: is_ascii_alphanumeric_def is_ascii_digit_def is_ascii_upper_def is_ascii_lower_def code_def)
  with extra show ?thesis
    by (cases s; cases "tl s") (auto simp: pct_byte_def hex simp del: of_nat_add of_nat_mult split: list.splits)
qed

lemma pct_decode_encode: "CHR ''%'' \<notin> set extra \<Longrightarrow> pct_decode (pct_encode extra s) = utf8 s"
proof -
  assume extra: "CHR ''%'' \<notin> set extra"
  have "pct_decode (concat (map (pct_byte extra) bs)) = bs" for bs
    by (induction bs) (simp_all add: pct_decode_byte [OF extra])
  then show ?thesis by (simp add: pct_encode_def)
qed

lemma pct_encode_chars:
  "c \<in> set (pct_encode extra s) \<Longrightarrow> is_ascii_alphanumeric c \<or> c \<in> set extra \<or> c = CHR ''%''"
  by (auto simp: pct_encode_def pct_byte_def hex_upper_alnum unat_u8_nibbles split: if_splits)

text \<open>percent-encoding loses nothing and leaves nothing to misread: the receiver decodes exactly the
  bytes of the value, and an encoded value has no character that structures a URL or a header.\<close>

theorem urlencode_faithful:
  "pct_decode (urlencode s) = utf8 s \<and>
   list_all (\<lambda>c. is_ascii_alphanumeric c \<or> c \<in> set ''-_.~%'') (urlencode s)"
  unfolding urlencode_def
  using pct_decode_encode [of "''-_.~''" s] pct_encode_chars [of _ "''-_.~''" s]
  by (auto simp: list_all_iff)

subsection \<open>The flow\<close>

record flow =
  f_state :: string
  f_nonce :: string
  f_verifier :: string

definition auth_endpoint :: string where
  "auth_endpoint = ''https://accounts.google.com/o/oauth2/v2/auth''"

definition issuers :: "string list" where
  "issuers = [''https://accounts.google.com'', ''accounts.google.com'']"

text \<open>\<open>Flow::new\<close>: three random tokens, of 24, 24 and 32 bytes.\<close>

definition flow_new :: "(nat \<Rightarrow> nat \<Rightarrow> string) \<Rightarrow> flow" where
  "flow_new random_token = \<lparr>f_state = random_token 0 24, f_nonce = random_token 1 24,
     f_verifier = random_token 2 32\<rparr>"

definition authorize_url :: "(string \<Rightarrow> string) \<Rightarrow> string \<Rightarrow> string \<Rightarrow> flow \<Rightarrow> string" where
  "authorize_url s256 client_id redirect_uri fl =
     auth_endpoint @ ''?client_id='' @ urlencode client_id @ ''&redirect_uri='' @ urlencode redirect_uri @
     ''&response_type=code'' @ ''&scope='' @ urlencode ''openid email profile'' @
     ''&state='' @ urlencode (f_state fl) @ ''&nonce='' @ urlencode (f_nonce fl) @
     ''&code_challenge='' @ urlencode (s256 (f_verifier fl)) @ ''&code_challenge_method=S256'' @
     ''&access_type=online&prompt=select_account''"

text \<open>How a server reads a URL: the part before the question mark, and the decoded query parameters.\<close>

definition query_params :: "string \<Rightarrow> (string \<times> (string \<times> u8 list) option list) option" where
  "query_params url = map_option (\<lambda>(base, q). (base,
     map (\<lambda>p. map_option (\<lambda>(k, v). (k, pct_decode v)) (split_once CHR ''='' p)) (split_on CHR ''&'' q)))
     (split_once CHR ''?'' url)"

lemma urlencode_free:
  "\<not> is_ascii_alphanumeric c \<Longrightarrow> c \<notin> set ''-_.~%'' \<Longrightarrow> c \<notin> set (urlencode s)"
  unfolding urlencode_def using pct_encode_chars [of c "''-_.~''" s] by auto

lemma urlencode_no_amp [simp]: "CHR ''&'' \<notin> set (urlencode s)"
  by (rule urlencode_free) (simp_all add: is_ascii_alphanumeric_def is_ascii_digit_def
      is_ascii_upper_def is_ascii_lower_def code_def)

lemma split_on_param:
  "split_on CHR ''&'' (CHR ''&'' # s) = [] # split_on CHR ''&'' s"
  by (simp add: split_on_def)

lemma split_on_step: "c \<notin> set a \<Longrightarrow> split_on c (a @ c # b) = a # split_on c b"
  by (rule split_on_append)

lemma split_on_params:
  "list_all (\<lambda>p. c \<notin> set p) ps \<Longrightarrow> ps \<noteq> [] \<Longrightarrow> split_on c (join [c] ps) = ps"
proof (induction "[c]" ps rule: join.induct)
  case 1
  then show ?case by simp
next
  case (2 p)
  then show ?case by (simp add: split_on_free)
next
  case (3 p q ps)
  then show ?case by (simp add: split_on_append)
qed

definition param :: "string \<Rightarrow> string \<Rightarrow> string" where
  "param k v = k @ ''='' @ urlencode v"

lemma param_split: "CHR ''='' \<notin> set k \<Longrightarrow>
    map_option (\<lambda>(k, v). (k, pct_decode v)) (split_once CHR ''='' (param k v)) = Some (k, utf8 v)"
  unfolding param_def urlencode_def
  by (simp add: split_once_append pct_decode_encode)

lemma pct_encode_plain:
  "list_all (\<lambda>c. code c < 128 \<and> (is_ascii_alphanumeric c \<or> c \<in> set extra)) s \<Longrightarrow> pct_encode extra s = s"
proof (induction s)
  case Nil
  then show ?case by (simp add: pct_encode_def utf8_def)
next
  case (Cons c s)
  then have c: "code c < 128" by simp
  then have "unat (word_of_nat (code c) :: u8) = code c"
    by (simp add: unat_of_nat take_bit_eq_mod)
  then have "byte_char (word_of_nat (code c)) = c"
    by (simp add: byte_char_def code_def)
  then show ?case
    using Cons c by (simp add: pct_encode_def utf8_def utf8_char_def pct_byte_def)
qed

lemma urlencode_plain: "urlencode ''code'' = ''code''" "urlencode ''S256'' = ''S256''"
  "urlencode ''online'' = ''online''" "urlencode ''select_account'' = ''select_account''"
  unfolding urlencode_def
  by (rule pct_encode_plain; simp add: is_ascii_alphanumeric_def is_ascii_digit_def
      is_ascii_upper_def is_ascii_lower_def code_def)+

definition auth_params :: "(string \<Rightarrow> string) \<Rightarrow> string \<Rightarrow> string \<Rightarrow> flow \<Rightarrow> (string \<times> string) list" where
  "auth_params s256 client_id redirect_uri fl =
    [(''client_id'', client_id), (''redirect_uri'', redirect_uri), (''response_type'', ''code''),
     (''scope'', ''openid email profile''), (''state'', f_state fl), (''nonce'', f_nonce fl),
     (''code_challenge'', s256 (f_verifier fl)), (''code_challenge_method'', ''S256''),
     (''access_type'', ''online''), (''prompt'', ''select_account'')]"

lemma authorize_url_alt:
  "authorize_url s256 cid uri fl =
     auth_endpoint @ CHR ''?'' # join ''&'' (map (\<lambda>(k, v). param k v) (auth_params s256 cid uri fl))"
  by (simp add: authorize_url_def auth_params_def param_def urlencode_plain)

text \<open>whatever the client id, the redirect URI and the secrets contain, the sign-in URL is read back by
  the provider as exactly the intended parameters: the code flow with the S256 challenge of this
  flow's verifier, its state and its nonce.\<close>

theorem authorize_url_params:
  "query_params (authorize_url s256 client_id redirect_uri fl) =
     Some (auth_endpoint, map (\<lambda>(k, v). Some (k, utf8 v)) (auth_params s256 client_id redirect_uri fl))"
proof -
  let ?ps = "map (\<lambda>(k, v). param k v) (auth_params s256 client_id redirect_uri fl)"
  have base: "CHR ''?'' \<notin> set auth_endpoint" by (simp add: auth_endpoint_def)
  have "split_on CHR ''&'' (join ''&'' ?ps) = ?ps"
    by (rule split_on_params) (simp_all add: auth_params_def param_def)
  moreover have "map (\<lambda>p. map_option (\<lambda>(k, v). (k, pct_decode v)) (split_once CHR ''='' p)) ?ps
      = map (\<lambda>(k, v). Some (k, utf8 v)) (auth_params s256 client_id redirect_uri fl)"
    by (simp add: auth_params_def param_split del: map_option_eq_Some)
  ultimately show ?thesis
    unfolding authorize_url_alt query_params_def split_once_append [OF base] by simp
qed

subsection \<open>Claims\<close>

record claims =
  cl_iss :: string
  cl_aud :: string
  cl_exp :: nat
  cl_sub :: string
  cl_nonce :: "string option"
  cl_email :: "string option"
  cl_email_verified :: bool

datatype oidc_error =
    Unreachable string
  | Unreadable string
  | BadStatus nat string
  | BadResponse
  | Malformed
  | NotBase64
  | BadClaims
  | BadIssuer string
  | BadAudience
  | ExpiredToken
  | BadNonce
  | UnverifiedEmail
  | NoEmail

definition validate_claims :: "nat \<Rightarrow> claims \<Rightarrow> string \<Rightarrow> flow \<Rightarrow> oidc_error + unit" where
  "validate_claims now c client_id fl =
    (if cl_iss c \<notin> set issuers then Inl (BadIssuer (cl_iss c))
     else if cl_aud c \<noteq> client_id then Inl BadAudience
     else if cl_exp c \<le> now then Inl ExpiredToken
     else if cl_nonce c \<noteq> Some (f_nonce fl) then Inl BadNonce
     else if \<not> cl_email_verified c then Inl UnverifiedEmail
     else Inr ())"

text \<open>\<open>b64\<close> decodes base64url and \<open>json\<close> parses the claims.\<close>

definition decode_claims ::
  "(string \<Rightarrow> u8 list option) \<Rightarrow> (u8 list \<Rightarrow> claims option) \<Rightarrow> string \<Rightarrow> oidc_error + claims" where
  "decode_claims b64 json id_token =
    (case split_on CHR ''.'' id_token of
      _ # payload # _ \<Rightarrow>
        (case b64 payload of
          None \<Rightarrow> Inl NotBase64
        | Some raw \<Rightarrow> (case json raw of None \<Rightarrow> Inl BadClaims | Some c \<Rightarrow> Inr c))
    | _ \<Rightarrow> Inl Malformed)"

record verified =
  v_identity :: identity
  v_sub :: string

text \<open>The answer of the token endpoint to a posted form: a transport error, or a status with the body or the
  error of reading it.\<close>

type_synonym http_answer = "string + (nat \<times> (string + string))"

record oidc_env =
  o_post :: "(string \<times> string) list \<Rightarrow> http_answer"
  o_token :: "string \<Rightarrow> string option"
  o_b64 :: "string \<Rightarrow> u8 list option"
  o_json :: "u8 list \<Rightarrow> claims option"

definition token_form :: "string \<Rightarrow> string \<Rightarrow> string \<Rightarrow> string \<Rightarrow> flow \<Rightarrow> (string \<times> string) list" where
  "token_form client_id client_secret redirect_uri auth_code fl =
    [(''code'', auth_code), (''client_id'', client_id), (''client_secret'', client_secret),
     (''redirect_uri'', redirect_uri), (''grant_type'', ''authorization_code''),
     (''code_verifier'', f_verifier fl)]"

definition exchange ::
  "oidc_env \<Rightarrow> nat \<Rightarrow> string \<Rightarrow> string \<Rightarrow> string \<Rightarrow> string \<Rightarrow> flow \<Rightarrow> oidc_error + verified" where
  "exchange env now client_id client_secret redirect_uri auth_code fl =
    (case o_post env (token_form client_id client_secret redirect_uri auth_code fl) of
      Inl e \<Rightarrow> Inl (Unreachable e)
    | Inr (status, Inl e) \<Rightarrow> Inl (Unreadable e)
    | Inr (status, Inr body) \<Rightarrow>
        if \<not> (200 \<le> status \<and> status < 300) then Inl (BadStatus status body)
        else (case o_token env body of
          None \<Rightarrow> Inl BadResponse
        | Some id_token \<Rightarrow>
            (case decode_claims (o_b64 env) (o_json env) id_token of
              Inl e \<Rightarrow> Inl e
            | Inr c \<Rightarrow>
                (case validate_claims now c client_id fl of
                  Inl e \<Rightarrow> Inl e
                | Inr _ \<Rightarrow>
                    (case cl_email c of
                      None \<Rightarrow> Inl NoEmail
                    | Some email \<Rightarrow> Inr \<lparr>v_identity = identity_new Google email, v_sub = cl_sub c\<rparr>)))))"

lemma validate_claims_ok:
  "validate_claims now c client_id fl = Inr () \<longleftrightarrow>
    cl_iss c \<in> set issuers \<and> cl_aud c = client_id \<and> now < cl_exp c \<and>
    cl_nonce c = Some (f_nonce fl) \<and> cl_email_verified c"
  by (auto simp: validate_claims_def)

lemma exchange_Inr:
  "exchange env now client_id client_secret redirect_uri auth_code fl = Inr v \<longleftrightarrow>
    (\<exists>status body id_token c email.
      o_post env (token_form client_id client_secret redirect_uri auth_code fl) = Inr (status, Inr body) \<and>
      200 \<le> status \<and> status < 300 \<and> o_token env body = Some id_token \<and>
      decode_claims (o_b64 env) (o_json env) id_token = Inr c \<and>
      validate_claims now c client_id fl = Inr () \<and> cl_email c = Some email \<and>
      v = \<lparr>v_identity = identity_new Google email, v_sub = cl_sub c\<rparr>)"
  by (auto simp: exchange_def split: sum.splits prod.splits option.splits if_splits)

text \<open>C27: a Google sign-in is believed only on the strength of one token: the one the endpoint returned for
  this code with this flow's verifier, issued by Google for this client, not expired, carrying this
  flow's nonce and a verified address. The identity is that address, normalised; a token made for
  another login attempt of the same client is refused.\<close>

theorem oidc_exchange_sound:
  assumes "exchange env now client_id client_secret redirect_uri auth_code fl = Inr v"
  shows "\<exists>c email. cl_iss c \<in> set issuers \<and> cl_aud c = client_id \<and> now < cl_exp c \<and>
      cl_nonce c = Some (f_nonce fl) \<and> cl_email_verified c \<and> cl_email c = Some email \<and>
      v_identity v = identity_new Google email \<and> v_sub v = cl_sub c \<and>
      (\<exists>status body id_token. o_post env (token_form client_id client_secret redirect_uri auth_code fl)
          = Inr (status, Inr body) \<and> o_token env body = Some id_token \<and>
         decode_claims (o_b64 env) (o_json env) id_token = Inr c) \<and>
      (\<forall>fl'. f_nonce fl' \<noteq> f_nonce fl \<longrightarrow> validate_claims now c client_id fl' = Inl BadNonce)"
proof -
  obtain status body id_token c email where a:
    "o_post env (token_form client_id client_secret redirect_uri auth_code fl) = Inr (status, Inr body)"
    "o_token env body = Some id_token" "decode_claims (o_b64 env) (o_json env) id_token = Inr c"
    "validate_claims now c client_id fl = Inr ()" "cl_email c = Some email"
    "v = \<lparr>v_identity = identity_new Google email, v_sub = cl_sub c\<rparr>"
    using assms unfolding exchange_Inr by blast
  have v: "cl_iss c \<in> set issuers" "cl_aud c = client_id" "now < cl_exp c"
    "cl_nonce c = Some (f_nonce fl)" "cl_email_verified c"
    using a(4) by (simp_all add: validate_claims_ok)
  then have "\<forall>fl'. f_nonce fl' \<noteq> f_nonce fl \<longrightarrow> validate_claims now c client_id fl' = Inl BadNonce"
    by (auto simp: validate_claims_def)
  then show ?thesis using a v by (intro exI [of _ c] exI [of _ email]) auto
qed

definition toy_flow :: flow where
  "toy_flow = \<lparr>f_state = ''s'', f_nonce = ''n'', f_verifier = ''v''\<rparr>"

definition toy_claims :: claims where
  "toy_claims = \<lparr>cl_iss = ''accounts.google.com'', cl_aud = ''cid'', cl_exp = 100, cl_sub = ''1'',
     cl_nonce = Some ''n'', cl_email = Some ''A@b'', cl_email_verified = True\<rparr>"

definition toy_oidc :: oidc_env where
  "toy_oidc = \<lparr>o_post = (\<lambda>_. Inr (200, Inr ''h.p.s'')), o_token = Some, o_b64 = (\<lambda>s. Some (utf8 s)),
     o_json = (\<lambda>_. Some toy_claims)\<rparr>"

lemma toy_exchange:
  "exchange toy_oidc 50 ''cid'' ''sec'' ''uri'' ''code'' toy_flow
    = Inr \<lparr>v_identity = identity_new Google ''A@b'', v_sub = ''1''\<rparr>"
  by (simp add: exchange_def toy_oidc_def decode_claims_def split_on_def validate_claims_def toy_claims_def
      toy_flow_def issuers_def)

theorem oidc_exchange_sound_witness:
  "\<exists>(c :: claims) email. cl_iss c \<in> set issuers \<and> cl_aud c = ''cid'' \<and> 50 < cl_exp c \<and> cl_email c = Some email"
  using oidc_exchange_sound [OF toy_exchange] by blast

end
