(* ===== verification/Sessions.thy ===== *)
theory Sessions
  imports Oidc Disk Contracts
begin

text \<open>
  Server-side sessions (\<open>src/src/session.rs\<close>): creation with its ceiling, lookup with expiry, the
  promotions that replace the session id, logout, the sweep, the file, and loading it.

  Instants of the monotonic clock and durations are nanoseconds, instants counted from the earliest
  one the platform can represent; wall-clock times are seconds. \<open>sk\<close> hashes a session id to its key
  (base64 of SHA-256), a parameter; ids, CSRF tokens and watch channels are drawn by the caller.
  \<open>ok\<close> is the outcome of the write an operation makes under the lock.
\<close>

record session =
  s_authenticated :: bool
  s_mfa_pending :: bool
  s_username :: string
  s_oauth :: "flow option"
  s_csrf :: string
  s_created :: nat
  s_created_unix :: nat
  s_chan :: nat

record disk_session =
  k_authenticated :: bool
  k_mfa_pending :: bool
  k_username :: string
  k_oauth :: "flow option"
  k_csrf :: string
  k_created_unix :: nat

record session_store =
  ss_map :: "(string, session) hmap"
  ss_ttl :: nat
  ss_path :: bool
  ss_disk :: "(string \<times> disk_session) list option"

definition nanos :: nat where "nanos = 1000000000"
definition preauth_ttl :: nat where "preauth_ttl = 30 * 60 * nanos"
definition max_sessions :: nat where "max_sessions = 10000"

definition session_ttl :: "nat \<Rightarrow> session \<Rightarrow> nat" where
  "session_ttl auth_ttl s = (if s_authenticated s then auth_ttl else preauth_ttl)"

definition session_expired :: "nat \<Rightarrow> nat \<Rightarrow> session \<Rightarrow> bool" where
  "session_expired auth_ttl now s \<longleftrightarrow> now - s_created s \<ge> session_ttl auth_ttl s"

definition session_remaining :: "nat \<Rightarrow> nat \<Rightarrow> session \<Rightarrow> nat" where
  "session_remaining auth_ttl now s = session_ttl auth_ttl s - (now - s_created s)"

definition meaningful :: "session \<Rightarrow> bool" where
  "meaningful s \<longleftrightarrow> s_authenticated s \<or> s_mfa_pending s \<or> s_oauth s \<noteq> None"

definition disk_meaningful :: "disk_session \<Rightarrow> bool" where
  "disk_meaningful d \<longleftrightarrow> k_authenticated d \<or> k_mfa_pending d \<or> k_oauth d \<noteq> None"

definition to_disk :: "session \<Rightarrow> disk_session" where
  "to_disk s = \<lparr>k_authenticated = s_authenticated s, k_mfa_pending = s_mfa_pending s,
     k_username = s_username s, k_oauth = s_oauth s, k_csrf = s_csrf s, k_created_unix = s_created_unix s\<rparr>"

definition session_image :: "nat \<Rightarrow> nat \<Rightarrow> (string, session) hmap \<Rightarrow> (string \<times> disk_session) list" where
  "session_image auth_ttl now m =
     map (\<lambda>(k, s). (k, to_disk s)) (filter (\<lambda>(_, s). meaningful s \<and> \<not> session_expired auth_ttl now s) m)"

definition persist_locked :: "nat \<Rightarrow> bool \<Rightarrow> session_store \<Rightarrow> session_store" where
  "persist_locked now ok st =
    (if \<not> ss_path st then st
     else if ok then st\<lparr>ss_disk := Some (session_image (ss_ttl st) now (ss_map st))\<rparr> else st)"

subsection \<open>Operations\<close>

definition session_new :: "nat \<Rightarrow> session_store" where
  "session_new ttl = \<lparr>ss_map = [], ss_ttl = ttl, ss_path = False, ss_disk = None\<rparr>"

text \<open>One entry of the file while loading; \<open>ch\<close> is the fresh channel of its session.\<close>

definition load_entry :: "nat \<Rightarrow> nat \<Rightarrow> nat \<Rightarrow> disk_session \<Rightarrow> nat \<Rightarrow> session option" where
  "load_entry auth_ttl now unix d ch =
    (if \<not> disk_meaningful d then None
     else if unix - k_created_unix d \<ge> (if k_authenticated d then auth_ttl else preauth_ttl) div nanos then None
     else Some \<lparr>s_authenticated = k_authenticated d, s_mfa_pending = k_mfa_pending d,
       s_username = k_username d, s_oauth = k_oauth d, s_csrf = k_csrf d,
       s_created = (case checked_sub now ((unix - k_created_unix d) * nanos) of Some t \<Rightarrow> t | None \<Rightarrow> now),
       s_created_unix = k_created_unix d, s_chan = ch\<rparr>)"

definition session_load ::
  "nat \<Rightarrow> nat \<Rightarrow> nat \<Rightarrow> nat \<Rightarrow> bool \<Rightarrow> ('e + (string \<times> disk_session) list) option \<Rightarrow> 'e + session_store" where
  "session_load auth_ttl now unix ch ok content =
    (case content of
      None \<Rightarrow> Inr \<lparr>ss_map = [], ss_ttl = auth_ttl, ss_path = True, ss_disk = None\<rparr>
    | Some (Inl e) \<Rightarrow> Inl e
    | Some (Inr entries) \<Rightarrow> Inr (persist_locked now ok
        \<lparr>ss_map = foldl (\<lambda>m (k, d). case load_entry auth_ttl now unix d (ch + length m) of
                      None \<Rightarrow> m | Some s \<Rightarrow> hm_insert k s m) [] entries,
         ss_ttl = auth_ttl, ss_path = True, ss_disk = Some entries\<rparr>))"

fun min_by_key :: "('a \<Rightarrow> nat) \<Rightarrow> 'a list \<Rightarrow> 'a option" where
  "min_by_key f [] = None"
| "min_by_key f (x # xs) =
    (case min_by_key f xs of None \<Rightarrow> Some x | Some y \<Rightarrow> if f x \<le> f y then Some x else Some y)"

definition create_victim :: "(string, session) hmap \<Rightarrow> string option" where
  "create_victim m =
    map_option fst
      (case min_by_key (\<lambda>(_, s). s_created s) (filter (\<lambda>(_, s). \<not> s_authenticated s) m) of
        Some e \<Rightarrow> Some e
      | None \<Rightarrow> min_by_key (\<lambda>(_, s). s_created s) m)"

definition session_fresh :: "bool \<Rightarrow> bool \<Rightarrow> string \<Rightarrow> string \<Rightarrow> nat \<Rightarrow> nat \<Rightarrow> nat \<Rightarrow> session" where
  "session_fresh auth mfa user csrf now unix ch =
     \<lparr>s_authenticated = auth, s_mfa_pending = mfa, s_username = user, s_oauth = None, s_csrf = csrf,
      s_created = now, s_created_unix = unix, s_chan = ch\<rparr>"

text \<open>The operations return the revoked channels and the new store.\<close>

definition chan_of :: "(string, session) hmap \<Rightarrow> string \<Rightarrow> nat list" where
  "chan_of m k = (case hm_get m k of None \<Rightarrow> [] | Some s \<Rightarrow> [s_chan s])"

definition session_create ::
  "(string \<Rightarrow> string) \<Rightarrow> string \<Rightarrow> string \<Rightarrow> nat \<Rightarrow> nat \<Rightarrow> nat \<Rightarrow> session_store \<Rightarrow> nat list \<times> session_store" where
  "session_create sk new_id csrf now unix ch st =
    (let (gone, m) =
       (if length (ss_map st) \<ge> max_sessions then
          (case create_victim (ss_map st) of
            None \<Rightarrow> ([], ss_map st)
          | Some k \<Rightarrow> (chan_of (ss_map st) k, hm_remove k (ss_map st)))
        else ([], ss_map st))
     in (gone, st\<lparr>ss_map := hm_insert (sk new_id) (session_fresh False False '''' csrf now unix ch) m\<rparr>))"

definition session_get ::
  "(string \<Rightarrow> string) \<Rightarrow> string \<Rightarrow> nat \<Rightarrow> bool \<Rightarrow> session_store \<Rightarrow> session option \<times> nat list \<times> session_store" where
  "session_get sk sid now ok st =
    (case hm_get (ss_map st) (sk sid) of
      None \<Rightarrow> (None, [], st)
    | Some s \<Rightarrow>
        if \<not> session_expired (ss_ttl st) now s then (Some s, [], st)
        else (None, chan_of (ss_map st) (sk sid),
              persist_locked now ok (st\<lparr>ss_map := hm_remove (sk sid) (ss_map st)\<rparr>)))"

definition session_remove ::
  "(string \<Rightarrow> string) \<Rightarrow> string \<Rightarrow> nat \<Rightarrow> bool \<Rightarrow> session_store \<Rightarrow> nat list \<times> session_store" where
  "session_remove sk sid now ok st =
    (case hm_get (ss_map st) (sk sid) of
      None \<Rightarrow> ([], st)
    | Some s \<Rightarrow> ([s_chan s], persist_locked now ok (st\<lparr>ss_map := hm_remove (sk sid) (ss_map st)\<rparr>)))"

text \<open>\<open>login\<close> and \<open>begin_mfa\<close> replace the old id by a new one; they differ in the two flags.\<close>

definition session_promote ::
  "bool \<Rightarrow> bool \<Rightarrow> (string \<Rightarrow> string) \<Rightarrow> string \<Rightarrow> string \<Rightarrow> string \<Rightarrow> string \<Rightarrow> nat \<Rightarrow> nat \<Rightarrow> nat \<Rightarrow> bool
    \<Rightarrow> session_store \<Rightarrow> nat list \<times> session_store" where
  "session_promote auth mfa sk old_id user new_id csrf now unix ch ok st =
    (let m = hm_remove (sk old_id) (ss_map st)
     in (chan_of (ss_map st) (sk old_id),
         persist_locked now ok
           (st\<lparr>ss_map := hm_insert (sk new_id) (session_fresh auth mfa user csrf now unix ch) m\<rparr>)))"

definition session_login ::
  "(string \<Rightarrow> string) \<Rightarrow> string \<Rightarrow> string \<Rightarrow> string \<Rightarrow> string \<Rightarrow> nat \<Rightarrow> nat \<Rightarrow> nat \<Rightarrow> bool
    \<Rightarrow> session_store \<Rightarrow> nat list \<times> session_store" where
  "session_login = session_promote True False"

definition session_begin_mfa ::
  "(string \<Rightarrow> string) \<Rightarrow> string \<Rightarrow> string \<Rightarrow> string \<Rightarrow> string \<Rightarrow> nat \<Rightarrow> nat \<Rightarrow> nat \<Rightarrow> bool
    \<Rightarrow> session_store \<Rightarrow> nat list \<times> session_store" where
  "session_begin_mfa = session_promote False True"

definition session_sweep :: "nat \<Rightarrow> bool \<Rightarrow> session_store \<Rightarrow> nat list \<times> session_store" where
  "session_sweep now ok st =
    (let dead = filter (\<lambda>s. session_expired (ss_ttl st) now s) (hm_values (ss_map st));
         st' = st\<lparr>ss_map := hm_retain (\<lambda>s. \<not> session_expired (ss_ttl st) now s) (ss_map st)\<rparr>
     in (map s_chan dead, if dead \<noteq> [] then persist_locked now ok st' else st'))"

definition session_set_oauth ::
  "(string \<Rightarrow> string) \<Rightarrow> string \<Rightarrow> flow option \<Rightarrow> nat \<Rightarrow> bool \<Rightarrow> session_store \<Rightarrow> session_store" where
  "session_set_oauth sk sid fl now ok st =
    (case hm_get (ss_map st) (sk sid) of
      None \<Rightarrow> st
    | Some s \<Rightarrow> persist_locked now ok (st\<lparr>ss_map := hm_insert (sk sid) (s\<lparr>s_oauth := fl\<rparr>) (ss_map st)\<rparr>))"

subsection \<open>Steps and traces\<close>

datatype session_op =
    S_create string string nat nat nat
  | S_get string nat
  | S_remove string nat
  | S_login string string string string nat nat nat
  | S_mfa string string string string nat nat nat
  | S_sweep nat
  | S_oauth string "flow option" nat

fun session_step :: "(string \<Rightarrow> string) \<Rightarrow> session_op \<Rightarrow> bool \<Rightarrow> session_store \<Rightarrow> session_store" where
  "session_step sk (S_create new_id csrf now unix ch) ok st = snd (session_create sk new_id csrf now unix ch st)"
| "session_step sk (S_get sid now) ok st = snd (snd (session_get sk sid now ok st))"
| "session_step sk (S_remove sid now) ok st = snd (session_remove sk sid now ok st)"
| "session_step sk (S_login old_id user new_id csrf now unix ch) ok st =
     snd (session_login sk old_id user new_id csrf now unix ch ok st)"
| "session_step sk (S_mfa old_id user new_id csrf now unix ch) ok st =
     snd (session_begin_mfa sk old_id user new_id csrf now unix ch ok st)"
| "session_step sk (S_sweep now) ok st = snd (session_sweep now ok st)"
| "session_step sk (S_oauth sid fl now) ok st = session_set_oauth sk sid fl now ok st"

definition session_run ::
  "(string \<Rightarrow> string) \<Rightarrow> (session_op \<times> bool) list \<Rightarrow> session_store \<Rightarrow> session_store" where
  "session_run sk ps st = foldl (\<lambda>st (p, ok). session_step sk p ok st) st ps"

lemma persist_locked_simps [simp]:
  "ss_map (persist_locked now ok st) = ss_map st"
  "ss_ttl (persist_locked now ok st) = ss_ttl st"
  "ss_path (persist_locked now ok st) = ss_path st"
  by (simp_all add: persist_locked_def)

lemmas session_ops = session_create_def session_get_def session_remove_def session_login_def
  session_begin_mfa_def session_promote_def session_sweep_def session_set_oauth_def Let_def

lemma session_step_const [simp]:
  "ss_ttl (session_step sk p ok st) = ss_ttl st"
  "ss_path (session_step sk p ok st) = ss_path st"
  by (cases p; auto simp: session_ops split: option.splits prod.splits)+

lemma session_run_ttl [simp]: "ss_ttl (session_run sk ps st) = ss_ttl st"
  unfolding session_run_def by (induction ps arbitrary: st) auto

lemma session_step_ok: "hm_ok (ss_map st) \<Longrightarrow> hm_ok (ss_map (session_step sk p ok st))"
  by (cases p) (auto simp: session_ops hm_laws split: option.splits prod.splits)

lemma session_run_ok: "hm_ok (ss_map st) \<Longrightarrow> hm_ok (ss_map (session_run sk ps st))"
  unfolding session_run_def by (induction ps arbitrary: st) (auto intro: session_step_ok)

text \<open>The facts about a session that no operation changes; only the OIDC flow may.\<close>

definition same_session :: "session \<Rightarrow> session \<Rightarrow> bool" where
  "same_session s s' \<longleftrightarrow> s_oauth_update (\<lambda>_. None) s = s_oauth_update (\<lambda>_. None) s'"

lemma same_session_refl [simp]: "same_session s s"
  by (simp add: same_session_def)

lemma same_session_fields:
  "same_session s s' \<Longrightarrow> s_authenticated s = s_authenticated s' \<and> s_mfa_pending s = s_mfa_pending s' \<and>
    s_username s = s_username s' \<and> s_created s = s_created s' \<and> s_csrf s = s_csrf s' \<and> s_chan s = s_chan s'"
  by (cases s; cases s') (simp add: same_session_def)

definition ends :: "(string \<Rightarrow> string) \<Rightarrow> session_op \<Rightarrow> string \<Rightarrow> bool" where
  "ends sk p k \<longleftrightarrow> (case p of S_remove sid _ \<Rightarrow> sk sid = k | _ \<Rightarrow> False)"

definition makes :: "(string \<Rightarrow> string) \<Rightarrow> session_op \<Rightarrow> string \<Rightarrow> bool" where
  "makes sk p k \<longleftrightarrow> (case p of S_create new_id _ _ _ _ \<Rightarrow> sk new_id = k
     | S_login _ _ new_id _ _ _ _ \<Rightarrow> sk new_id = k | S_mfa _ _ new_id _ _ _ _ \<Rightarrow> sk new_id = k | _ \<Rightarrow> False)"

lemma session_step_get:
  assumes "hm_ok (ss_map st)" and "hm_get (ss_map (session_step sk p ok st)) k = Some s"
  obtains (kept) s0 where "hm_get (ss_map st) k = Some s0" "same_session s0 s" "\<not> ends sk p k"
  | (made) "makes sk p k" "s_created s = (case p of S_create _ _ now _ _ \<Rightarrow> now
        | S_login _ _ _ _ now _ _ \<Rightarrow> now | S_mfa _ _ _ _ now _ _ \<Rightarrow> now | _ \<Rightarrow> 0)"
      "s_authenticated s \<longleftrightarrow> (case p of S_login _ _ _ _ _ _ _ \<Rightarrow> True | _ \<Rightarrow> False)"
      "s_mfa_pending s \<longleftrightarrow> (case p of S_mfa _ _ _ _ _ _ _ \<Rightarrow> True | _ \<Rightarrow> False)"
      "s_username s = (case p of S_login _ u _ _ _ _ _ \<Rightarrow> u | S_mfa _ u _ _ _ _ _ \<Rightarrow> u | _ \<Rightarrow> '''')"
      "s_oauth s = None"
proof (cases "makes sk p k")
  case True
  with assms made show thesis
    by (cases p) (auto simp: session_ops makes_def session_fresh_def hm_laws split: option.splits prod.splits if_splits)
next
  case False
  show thesis
  proof (cases p)
    case (S_oauth sid fl now)
    then show thesis
      using assms kept
      by (fastforce simp: session_ops same_session_def ends_def hm_laws split: option.splits if_splits)
  next
    case (S_create new_id csrf now unix ch)
    then have "hm_get (ss_map st) k = Some s"
      using assms False by (auto simp: session_ops makes_def hm_laws split: option.splits prod.splits if_splits)
    with S_create show thesis by (intro kept) (auto simp: ends_def)
  next
    case (S_remove sid now)
    then have "hm_get (ss_map st) k = Some s \<and> sk sid \<noteq> k"
      using assms by (auto simp: session_ops hm_laws split: option.splits if_splits)
    with S_remove show thesis by (intro kept) (auto simp: ends_def)
  next
    case (S_get sid now)
    then have "hm_get (ss_map st) k = Some s"
      using assms by (auto simp: session_ops hm_laws split: option.splits if_splits)
    with S_get show thesis by (intro kept) (auto simp: ends_def)
  next
    case (S_login old_id user new_id csrf now unix ch)
    then have "hm_get (ss_map st) k = Some s"
      using assms False by (auto simp: session_ops makes_def hm_laws split: if_splits)
    with S_login show thesis by (intro kept) (auto simp: ends_def)
  next
    case (S_mfa old_id user new_id csrf now unix ch)
    then have "hm_get (ss_map st) k = Some s"
      using assms False by (auto simp: session_ops makes_def hm_laws split: if_splits)
    with S_mfa show thesis by (intro kept) (auto simp: ends_def)
  next
    case (S_sweep now)
    then have "hm_get (ss_map st) k = Some s"
      using assms by (auto simp: session_ops hm_laws split: option.splits if_splits)
    with S_sweep show thesis by (intro kept) (auto simp: ends_def)
  qed
qed

lemma session_run_snoc:
  "session_run sk (ps @ [(p, ok)]) st = session_step sk p ok (session_run sk ps st)"
  by (simp add: session_run_def)

lemma session_run_get:
  assumes "hm_ok (ss_map st)" "hm_get (ss_map st) k = None"
    "hm_get (ss_map (session_run sk ps st)) k = Some s"
  shows "\<exists>pre p ok post. ps = pre @ (p, ok) # post \<and> makes sk p k \<and>
    list_all (\<lambda>(q, _). \<not> ends sk q k) post \<and>
    s_created s = (case p of S_create _ _ now _ _ \<Rightarrow> now
        | S_login _ _ _ _ now _ _ \<Rightarrow> now | S_mfa _ _ _ _ now _ _ \<Rightarrow> now | _ \<Rightarrow> 0) \<and>
    (s_authenticated s \<longleftrightarrow> (case p of S_login _ _ _ _ _ _ _ \<Rightarrow> True | _ \<Rightarrow> False)) \<and>
    (s_mfa_pending s \<longleftrightarrow> (case p of S_mfa _ _ _ _ _ _ _ \<Rightarrow> True | _ \<Rightarrow> False)) \<and>
    s_username s = (case p of S_login _ u _ _ _ _ _ \<Rightarrow> u | S_mfa _ u _ _ _ _ _ \<Rightarrow> u | _ \<Rightarrow> '''')"
  using assms(3)
proof (induction ps arbitrary: s rule: rev_induct)
  case Nil
  then show ?case using assms(2) by (simp add: session_run_def)
next
  case (snoc q ps)
  obtain p ok where q: "q = (p, ok)" by (cases q)
  have last: "hm_get (ss_map (session_step sk p ok (session_run sk ps st))) k = Some s"
    using snoc.prems by (simp add: session_run_snoc q)
  from session_run_ok [OF assms(1)] last show ?case
  proof (cases rule: session_step_get)
    case (kept s0)
    from snoc.IH [OF kept(1)] obtain pre p' ok' post where h:
      "ps = pre @ (p', ok') # post" "makes sk p' k" "list_all (\<lambda>(q, _). \<not> ends sk q k) post"
      "s_created s0 = (case p' of S_create _ _ now _ _ \<Rightarrow> now
        | S_login _ _ _ _ now _ _ \<Rightarrow> now | S_mfa _ _ _ _ now _ _ \<Rightarrow> now | _ \<Rightarrow> 0)"
      "s_authenticated s0 \<longleftrightarrow> (case p' of S_login _ _ _ _ _ _ _ \<Rightarrow> True | _ \<Rightarrow> False)"
      "s_mfa_pending s0 \<longleftrightarrow> (case p' of S_mfa _ _ _ _ _ _ _ \<Rightarrow> True | _ \<Rightarrow> False)"
      "s_username s0 = (case p' of S_login _ u _ _ _ _ _ \<Rightarrow> u | S_mfa _ u _ _ _ _ _ \<Rightarrow> u | _ \<Rightarrow> '''')"
      by blast
    then show ?thesis
      using same_session_fields [OF kept(2)] kept(3) q
      by (intro exI [of _ pre] exI [of _ p'] exI [of _ ok'] exI [of _ "post @ [q]"]) simp
  next
    case made
    then show ?thesis using q
      by (intro exI [of _ ps] exI [of _ p] exI [of _ ok] exI [of _ "[]"]) simp
  qed
qed

text \<open>a cookie only names an authenticated session if its id was issued by a login of that very user,
  less than the session lifetime ago, and was not logged out since; sessions awaiting the second
  factor and anonymous ones are never authenticated, however they are used.\<close>

theorem session_authenticated_by_login:
  assumes "fst (session_get sk sid now ok (session_run sk ps (session_new ttl))) = Some s"
    and "s_authenticated s"
  shows "\<exists>pre old new_id csrf t0 unix ch ok' post.
    ps = pre @ (S_login old (s_username s) new_id csrf t0 unix ch, ok') # post \<and>
    sk new_id = sk sid \<and> now - t0 < ttl \<and> list_all (\<lambda>(q, _). \<not> ends sk q (sk sid)) post"
proof -
  let ?st = "session_run sk ps (session_new ttl)"
  have get: "hm_get (ss_map ?st) (sk sid) = Some s" "\<not> session_expired ttl now s"
    using assms(1) by (auto simp: session_get_def session_new_def split: option.splits if_splits)
  then have "now - s_created s < ttl"
    using assms(2) by (simp add: session_expired_def session_ttl_def)
  moreover have "hm_ok (ss_map (session_new ttl))" "hm_get (ss_map (session_new ttl)) (sk sid) = None"
    by (simp_all add: session_new_def)
  note session_run_get [OF this get(1)]
  ultimately show ?thesis
    using assms(2) by (fastforce simp: makes_def split: session_op.splits)
qed

theorem session_authenticated_by_login_witness:
  "\<exists>pre old new_id csrf t0 unix ch ok' post.
    [(S_create ''a'' ''c'' 1 1 1, True), (S_login ''a'' ''u'' ''b'' ''d'' 2 1 2, True)]
      = pre @ (S_login old ''u'' new_id csrf t0 unix ch, ok') # post \<and>
    id new_id = id ''b'' \<and> 5 - t0 < (10 :: nat) \<and> list_all (\<lambda>(q, _). \<not> ends id q (id ''b'')) post"
proof -
  have "fst (session_get id ''b'' 5 True (session_run id
      [(S_create ''a'' ''c'' 1 1 1, True), (S_login ''a'' ''u'' ''b'' ''d'' 2 1 2, True)] (session_new 10)))
    = Some (session_fresh True False ''u'' ''d'' 2 1 2)"
    by (simp add: session_run_def session_ops session_new_def max_sessions_def hm_get_def hm_insert_def
        hm_remove_def session_fresh_def persist_locked_def session_expired_def session_ttl_def)
  from session_authenticated_by_login [OF this] show ?thesis
    by (simp add: session_fresh_def)
qed

lemma session_run_absent:
  assumes "hm_ok (ss_map st)" "hm_get (ss_map st) k = None" "list_all (\<lambda>(p, _). \<not> makes sk p k) ps"
  shows "hm_get (ss_map (session_run sk ps st)) k = None"
proof (rule ccontr)
  assume "hm_get (ss_map (session_run sk ps st)) k \<noteq> None"
  then obtain s where "hm_get (ss_map (session_run sk ps st)) k = Some s" by auto
  from session_run_get [OF assms(1,2) this] assms(3) show False by auto
qed

text \<open>The file never lists a key again that is gone from memory and from the file.\<close>

definition on_disk :: "string \<Rightarrow> session_store \<Rightarrow> bool" where
  "on_disk k st \<longleftrightarrow> (case ss_disk st of None \<Rightarrow> False | Some es \<Rightarrow> k \<in> set (map fst es))"

lemma session_image_keys: "k \<in> set (map fst (session_image ttl now m)) \<Longrightarrow> k \<in> set (map fst m)"
  by (force simp: session_image_def)

lemma hm_get_key: "hm_get m k = None \<longleftrightarrow> k \<notin> set (map fst m)"
  by (simp add: hm_get_def map_of_eq_None_iff)

lemma persist_on_disk:
  "on_disk k (persist_locked now ok st) \<Longrightarrow> on_disk k st \<or> hm_get (ss_map st) k \<noteq> None"
  using session_image_keys [of k "ss_ttl st" now "ss_map st"]
  by (auto simp: persist_locked_def on_disk_def hm_get_key split: if_splits option.splits)

lemma on_disk_map [simp]: "on_disk k (st\<lparr>ss_map := m\<rparr>) = on_disk k st"
  by (simp add: on_disk_def)

lemma session_step_disk:
  "on_disk k (session_step sk p ok st) \<Longrightarrow>
    on_disk k st \<or> hm_get (ss_map (session_step sk p ok st)) k \<noteq> None"
  by (cases p) (auto simp: session_ops dest!: persist_on_disk split: option.splits prod.splits if_splits)

lemma session_run_disk_absent:
  assumes "hm_ok (ss_map st)" "hm_get (ss_map st) k = None" "\<not> on_disk k st"
    "list_all (\<lambda>(p, _). \<not> makes sk p k) ps"
  shows "\<not> on_disk k (session_run sk ps st)"
  using assms(4)
proof (induction ps rule: rev_induct)
  case Nil
  then show ?case using assms(3) by (simp add: session_run_def)
next
  case (snoc q ps)
  obtain p ok where q: "q = (p, ok)" by (cases q)
  have "hm_get (ss_map (session_run sk (ps @ [q]) st)) k = None"
    by (rule session_run_absent [OF assms(1,2) snoc.prems])
  then show ?case
    using snoc session_step_disk [of k sk p ok "session_run sk ps st"] by (auto simp: session_run_snoc q)
qed

lemma session_load_get:
  assumes "session_load ttl now unix ch ok (Some (Inr es)) = Inr st" "k \<notin> set (map fst es)"
  shows "hm_get (ss_map st) k = None"
proof -
  let ?f = "\<lambda>m (k, d). case load_entry ttl now unix d (ch + length m) of
     None \<Rightarrow> m | Some s \<Rightarrow> hm_insert k s m"
  have "hm_get m k = None \<Longrightarrow> k \<notin> set (map fst es) \<Longrightarrow> hm_get (foldl ?f m es) k = None" for m
    by (induction es arbitrary: m) (auto simp: hm.get_ins split: option.splits)
  with assms show ?thesis by (auto simp: session_load_def)
qed

text \<open>C31: logging out is final: the id names no session in any later state in which it is not issued again,
  its viewers are told, and once the removal reached the file no restart brings the session back,
  whatever later writes do.\<close>

theorem session_logout_final:
  assumes "hm_ok (ss_map st)" and "hm_get (ss_map st) (sk sid) = Some s" and "ss_path st"
    and "session_remove sk sid now True st = (told, st')"
    and "list_all (\<lambda>(p, _). \<not> makes sk p (sk sid)) ps"
  shows "told = [s_chan s] \<and>
    fst (session_get sk sid now' ok (session_run sk ps st')) = None \<and>
    (case ss_disk (session_run sk ps st') of
      None \<Rightarrow> False
    | Some es \<Rightarrow> (case session_load (ss_ttl st) now' unix ch ok (Some (Inr es)) of
        Inl _ \<Rightarrow> False
      | Inr loaded \<Rightarrow> fst (session_get sk sid now' ok loaded) = None))"
proof -
  have st': "told = [s_chan s]" "ss_map st' = hm_remove (sk sid) (ss_map st)"
    "ss_disk st' = Some (session_image (ss_ttl st) now (hm_remove (sk sid) (ss_map st)))"
    using assms(2-4) by (auto simp: session_remove_def persist_locked_def)
  have none: "hm_get (ss_map st') (sk sid) = None" by (simp add: st')
  have ok': "hm_ok (ss_map st')" using assms(1) by (simp add: st' hm.ok_rem)
  have "sk sid \<notin> set (map fst (session_image (ss_ttl st) now (ss_map st')))"
    using session_image_keys [of "sk sid" "ss_ttl st" now "ss_map st'"] none unfolding hm_get_key by blast
  then have off: "\<not> on_disk (sk sid) st'" by (simp add: on_disk_def st'(2,3))
  have disk: "ss_disk (session_run sk ps st') \<noteq> None"
  proof -
    have step: "ss_disk z \<noteq> None \<Longrightarrow> ss_disk (session_step sk p ok z) \<noteq> None" for p ok z
      by (cases p) (auto simp: session_ops persist_locked_def split: option.splits prod.splits)
    have "ss_disk z \<noteq> None \<Longrightarrow> ss_disk (session_run sk ps z) \<noteq> None" for z
      unfolding session_run_def
    proof (induction ps arbitrary: z)
      case (Cons q ps)
      then show ?case using Cons.IH [OF step [OF Cons.prems]] by (cases q) simp
    qed simp
    then show ?thesis by (simp add: st'(3))
  qed
  then obtain es where es: "ss_disk (session_run sk ps st') = Some es" by auto
  with session_run_disk_absent [OF ok' none off assms(5)]
  have "sk sid \<notin> set (map fst es)" by (simp add: on_disk_def)
  then have load: "fst (session_get sk sid now' ok loaded) = None"
    if "session_load (ss_ttl st) now' unix ch ok (Some (Inr es)) = (Inr loaded :: 'e + session_store)" for loaded
    using session_load_get [OF that] by (simp add: session_get_def)
  have "hm_get (ss_map (session_run sk ps st')) (sk sid) = None"
    by (rule session_run_absent [OF ok' none assms(5)])
  then show ?thesis
    using st'(1) es load by (auto simp: session_get_def session_load_def split: sum.splits)
qed

definition toy_sessions :: session_store where
  "toy_sessions = snd (session_login id ''a'' ''u'' ''b'' ''d'' 2 1 2 True
     \<lparr>ss_map = [], ss_ttl = 10, ss_path = True, ss_disk = None\<rparr>)"

theorem session_logout_final_witness:
  "fst (session_get id ''b'' 5 True (session_run id [(S_sweep 4, True)]
     (snd (session_remove id ''b'' 3 True toy_sessions)))) = None"
proof -
  have a: "hm_ok (ss_map toy_sessions)" and b: "ss_path toy_sessions"
    and c: "hm_get (ss_map toy_sessions) (id ''b'') = Some (session_fresh True False ''u'' ''d'' 2 1 2)"
    by (simp_all add: toy_sessions_def session_ops hm_ok_def hm_get_def hm_insert_def hm_remove_def
        persist_locked_def)
  have d: "list_all (\<lambda>(p, _). \<not> makes id p (id ''b'')) [(S_sweep 4, True)]" by (simp add: makes_def)
  from session_logout_final [OF a c b prod.collapse [symmetric] d, of 3 5 True 0 0] show ?thesis by blast
qed

text \<open>When an operation reads the clock for the file.\<close>

definition op_time :: "session_op \<Rightarrow> nat" where
  "op_time p = (case p of S_create _ _ now _ _ \<Rightarrow> now | S_get _ now \<Rightarrow> now | S_remove _ now \<Rightarrow> now
     | S_login _ _ _ _ now _ _ \<Rightarrow> now | S_mfa _ _ _ _ now _ _ \<Rightarrow> now | S_sweep now \<Rightarrow> now | S_oauth _ _ now \<Rightarrow> now)"

lemma session_step_written:
  "ss_disk (session_step sk p ok st) = ss_disk st \<or>
   ss_disk (session_step sk p ok st) = Some (session_image (ss_ttl st) (op_time p) (ss_map (session_step sk p ok st)))"
  by (cases p) (auto simp: session_ops persist_locked_def op_time_def split: option.splits prod.splits)

text \<open>The file lists a session, up to its OIDC flow.\<close>

definition listed :: "string \<Rightarrow> session \<Rightarrow> session_store \<Rightarrow> bool" where
  "listed k s st \<longleftrightarrow> (case ss_disk st of None \<Rightarrow> False | Some es \<Rightarrow> distinct (map fst es) \<and>
     (\<exists>x. (k, x) \<in> set es \<and> x\<lparr>k_oauth := None\<rparr> = (to_disk s)\<lparr>k_oauth := None\<rparr>))"

lemma image_distinct: "hm_ok m \<Longrightarrow> distinct (map fst (session_image ttl now m))"
  by (auto simp: session_image_def hm_ok_def split_def comp_def distinct_map_filter)

lemma image_lists:
  assumes "hm_ok m" "hm_get m k = Some s'" "same_session s s'" "s_authenticated s" "\<not> session_expired ttl now s"
    and "ss_disk st = Some (session_image ttl now m)"
  shows "listed k s st"
proof -
  have m: "(k, s') \<in> set m" using assms(1,2) by (simp add: hm_get_mem)
  have f: "s_authenticated s'" "\<not> session_expired ttl now s'"
    using assms(4,5) same_session_fields [OF assms(3)] by (simp_all add: session_expired_def session_ttl_def)
  have "(k, to_disk s') \<in> set (session_image ttl now m)"
    using m f by (force simp: session_image_def meaningful_def)
  moreover have "(to_disk s')\<lparr>k_oauth := None\<rparr> = (to_disk s)\<lparr>k_oauth := None\<rparr>"
    using assms(3) by (cases s; cases s') (simp add: same_session_def to_disk_def)
  ultimately show ?thesis using image_distinct [OF assms(1)] assms(6) by (auto simp: listed_def)
qed

lemma session_run_listed:
  assumes "hm_ok (ss_map st)" "hm_get (ss_map st) k = Some s" "s_authenticated s" "listed k s st"
    and "list_all (\<lambda>(p, _). \<not> makes sk p k \<and> \<not> session_expired (ss_ttl st) (op_time p) s) ps"
    and "hm_get (ss_map (session_run sk ps st)) k \<noteq> None"
  shows "(\<exists>s'. hm_get (ss_map (session_run sk ps st)) k = Some s' \<and> same_session s s') \<and> listed k s (session_run sk ps st)"
  using assms(5,6)
proof (induction ps rule: rev_induct)
  case Nil
  then show ?case using assms(2,4) by (simp add: session_run_def)
next
  case (snoc q ps)
  obtain p ok where q: "q = (p, ok)" by (cases q)
  let ?st = "session_run sk ps st" and ?st' = "session_step sk p ok (session_run sk ps st)"
  have run: "session_run sk (ps @ [q]) st = ?st'" by (simp add: session_run_snoc q)
  have ok': "hm_ok (ss_map ?st)" by (rule session_run_ok [OF assms(1)])
  obtain s' where s': "hm_get (ss_map ?st') k = Some s'" using snoc.prems(2) by (auto simp: run)
  have nm: "\<not> makes sk p k" and ne: "\<not> session_expired (ss_ttl st) (op_time p) s" using snoc.prems(1) by (simp_all add: q)
  from session_step_get [OF ok' s'] nm obtain s0 where s0: "hm_get (ss_map ?st) k = Some s0" "same_session s0 s'"
    by blast
  then have IH: "same_session s s0" "listed k s ?st" using snoc by auto
  then have same: "same_session s s'" using s0(2) by (simp add: same_session_def)
  have "listed k s ?st'"
    using session_step_written [of sk p ok ?st]
  proof
    assume "ss_disk ?st' = ss_disk ?st"
    then show ?thesis using IH(2) by (simp add: listed_def)
  next
    assume "ss_disk ?st' = Some (session_image (ss_ttl ?st) (op_time p) (ss_map ?st'))"
    then show ?thesis
      using image_lists [OF session_step_ok [OF ok'] s' same assms(3), of "ss_ttl ?st" "op_time p"] ne by simp
  qed
  then show ?case using s' same by (simp add: run)
qed

text \<open>promoting a session (after the first factor, or after the second) fixes the id: the old id is dead
  and its watchers told, the new one has a fresh CSRF token, starts its lifetime now, has no OIDC flow
  left, and is authenticated exactly after the last factor.\<close>

theorem session_promotion:
  "let (told, st') = session_promote auth mfa sk old_id user new_id csrf now unix ch ok st
   in hm_get (ss_map st') (sk new_id) = Some (session_fresh auth mfa user csrf now unix ch) \<and>
      (sk old_id = sk new_id \<or> fst (session_get sk old_id now' ok' st') = None) \<and>
      told = chan_of (ss_map st) (sk old_id) \<and>
      (k = sk old_id \<or> k = sk new_id \<or> hm_get (ss_map st') k = hm_get (ss_map st) k)"
  by (simp add: session_promote_def session_get_def Let_def hm.get_ins hm.get_rem)


lemma min_by_key_None [simp]: "min_by_key f xs = None \<longleftrightarrow> xs = []"
  by (cases xs) (auto split: option.splits)

lemma min_by_key_Some: "min_by_key f xs = Some y \<Longrightarrow> y \<in> set xs \<and> (\<forall>x \<in> set xs. f y \<le> f x)"
  by (induction xs arbitrary: y) (fastforce split: option.splits if_splits)+

lemma create_victim_spec:
  assumes "hm_ok m" "create_victim m = Some k"
  shows "\<exists>s. hm_get m k = Some s \<and>
    (\<forall>k' s'. hm_get m k' = Some s' \<and> s_authenticated s' = s_authenticated s \<longrightarrow> s_created s \<le> s_created s') \<and>
    (s_authenticated s \<longrightarrow> (\<forall>k' s'. hm_get m k' = Some s' \<longrightarrow> s_authenticated s'))"
proof -
  let ?f = "\<lambda>(_ :: string, s). s_created s"
  let ?anon = "filter (\<lambda>(_, s). \<not> s_authenticated s) m"
  show ?thesis
  proof (cases "min_by_key ?f ?anon")
    case (Some e)
    obtain s where e: "e = (k, s)"
      using assms(2) Some by (cases e) (auto simp: create_victim_def)
    from min_by_key_Some [OF Some] have "(k, s) \<in> set m" "\<not> s_authenticated s"
      and least: "\<forall>x \<in> set ?anon. s_created s \<le> ?f x" by (auto simp: e)
    then show ?thesis using assms(1) by (intro exI [of _ s]) (auto simp: hm_get_mem)
  next
    case None
    then have all: "\<forall>(k, s) \<in> set m. s_authenticated s" by (auto simp: filter_empty_conv)
    obtain s where s: "min_by_key ?f m = Some (k, s)"
      using assms(2) None by (auto simp: create_victim_def)
    from min_by_key_Some [OF s] all show ?thesis
      using assms(1) by (intro exI [of _ s]) (fastforce simp: hm_get_mem)
  qed
qed

lemma hm_length_remove_less: "hm_get m k \<noteq> None \<Longrightarrow> length (hm_remove k m) < length m"
proof -
  assume "hm_get m k \<noteq> None"
  then have "k \<in> fst ` set m" by (simp add: hm_get_key)
  then obtain e where "e \<in> set m" "fst e = k" by auto
  then show ?thesis unfolding hm_remove_def by (intro length_filter_less [of e]) auto
qed

text \<open>creating a session never lets the store outgrow its ceiling, and at the ceiling an authenticated
  session is only evicted when there is no anonymous one, the victim being the oldest of its kind.\<close>

theorem session_create_ceiling:
  assumes "hm_ok (ss_map st)" and "session_create sk new_id csrf now unix ch st = (told, st')"
  shows "length (ss_map st') \<le> max max_sessions (length (ss_map st)) \<and>
    (\<forall>k s. hm_get (ss_map st) k = Some s \<and> hm_get (ss_map st') k = None \<longrightarrow>
      told = [s_chan s] \<and> max_sessions \<le> length (ss_map st) \<and>
      (\<forall>k' s'. hm_get (ss_map st) k' = Some s' \<and> s_authenticated s' = s_authenticated s \<longrightarrow>
        s_created s \<le> s_created s') \<and>
      (s_authenticated s \<longrightarrow> (\<forall>k' s'. hm_get (ss_map st) k' = Some s' \<longrightarrow> s_authenticated s')))"
proof (cases "max_sessions \<le> length (ss_map st)")
  case False
  then show ?thesis
    using assms(2) hm_length_insert [of "sk new_id" "session_fresh False False '''' csrf now unix ch" "ss_map st"]
    by (auto simp: session_create_def hm.get_ins split: if_splits)
next
  case True
  then have "ss_map st \<noteq> []" by (auto simp: max_sessions_def)
  then have "create_victim (ss_map st) \<noteq> None"
    using min_by_key_None [of "\<lambda>(_, s). s_created s" "ss_map st"]
    by (simp add: create_victim_def split: option.splits del: min_by_key_None)
  then obtain v where v: "create_victim (ss_map st) = Some v" by blast
  obtain s where s: "hm_get (ss_map st) v = Some s"
    "\<forall>k' s'. hm_get (ss_map st) k' = Some s' \<and> s_authenticated s' = s_authenticated s \<longrightarrow> s_created s \<le> s_created s'"
    "s_authenticated s \<longrightarrow> (\<forall>k' s'. hm_get (ss_map st) k' = Some s' \<longrightarrow> s_authenticated s')"
    using create_victim_spec [OF assms(1) v] by blast
  have st': "told = [s_chan s]" "ss_map st' = hm_insert (sk new_id)
      (session_fresh False False '''' csrf now unix ch) (hm_remove v (ss_map st))"
    using assms(2) True v s(1) by (auto simp: session_create_def chan_of_def)
  have "length (ss_map st') \<le> length (ss_map st)"
    using hm_length_remove_less [of "ss_map st" v] s(1)
    by (simp add: st'(2) hm_length_insert)
  moreover have "told = [s_chan z] \<and> z = s" if "hm_get (ss_map st) k = Some z" "hm_get (ss_map st') k = None" for k z
    using that s(1) by (auto simp: st' hm.get_ins hm.get_rem split: if_splits)
  ultimately show ?thesis using True s(2,3) by fastforce
qed

theorem session_create_ceiling_witness:
  "length (ss_map (snd (session_create id ''z'' ''c'' 5 1 9 toy_sessions)))
     \<le> max max_sessions (length (ss_map toy_sessions))"
proof -
  have "hm_ok (ss_map toy_sessions)"
    by (simp add: toy_sessions_def session_ops hm_ok_def hm_insert_def hm_remove_def)
  from session_create_ceiling [OF this prod.collapse [symmetric]] show ?thesis by blast
qed

interpretation sessions: expiring "\<lambda>t s. session_expired ttl t s"
  "\<lambda>t m. ss_map (snd (session_sweep t True \<lparr>ss_map = m, ss_ttl = ttl, ss_path = False, ss_disk = None\<rparr>))" for ttl
  by unfold_locales (auto simp: session_sweep_def session_expired_def Let_def hm_laws split: option.splits)

subsection \<open>Evictions and the file\<close>

lemma min_by_key_const: "\<forall>x \<in> set xs. f x = c \<Longrightarrow> xs \<noteq> [] \<Longrightarrow> min_by_key f xs = Some (hd xs)"
proof (induction xs)
  case (Cons x xs)
  then show ?case
    by (cases "xs = []") (auto dest: hd_in_set split: option.splits)
qed simp

definition full_store :: session_store where
  "full_store =
    (let m = map (\<lambda>i. (show_nat i, session_fresh False True ''u'' ''c'' 7 7 i)) [0..<max_sessions]
     in \<lparr>ss_map = m, ss_ttl = 10, ss_path = True, ss_disk = Some (map (\<lambda>(k, s). (k, to_disk s)) m)\<rparr>)"

text \<open>creating a session at the ceiling may evict one that awaits its second factor; the eviction is not
  written, so the file still lists the session that memory has dropped and whose watchers were told
  it is revoked, and a restart within its lifetime brings it back.\<close>

theorem eviction_not_persisted:
  "let (told, st') = session_create id ''new'' ''c'' 8 8 77 full_store
   in told = [0] \<and> fst (session_get id (show_nat 0) 8 True st') = None \<and>
      (case ss_disk st' of None \<Rightarrow> False | Some es \<Rightarrow>
        map_of es (show_nat 0) = Some (to_disk (session_fresh False True ''u'' ''c'' 7 7 0))) \<and>
      load_entry 10 9 9 (to_disk (session_fresh False True ''u'' ''c'' 7 7 0)) 0 \<noteq> None"
proof -
  let ?s = "\<lambda>i. session_fresh False True ''u'' ''c'' 7 7 i"
  let ?m = "map (\<lambda>i. (show_nat i, ?s i)) [0..<max_sessions]"
  have pos: "0 < max_sessions" by (simp add: max_sessions_def)
  then have split: "[0..<max_sessions] = 0 # [1..<max_sessions]" by (simp add: upt_rec)
  have m: "ss_map full_store = ?m" "ss_disk full_store = Some (map (\<lambda>(k, s). (k, to_disk s)) ?m)"
    by (simp_all add: full_store_def Let_def)
  have all: "filter (\<lambda>(_, s). \<not> s_authenticated s) ?m = ?m"
    by (auto simp: session_fresh_def filter_id_conv)
  have "min_by_key (\<lambda>(_, s). s_created s) ?m = Some (hd ?m)"
    by (rule min_by_key_const [where c = 7]) (auto simp: session_fresh_def pos)
  then have victim: "create_victim ?m = Some (show_nat 0)"
    by (simp add: create_victim_def all) (simp add: split)
  have first: "hm_get ?m (show_nat 0) = Some (?s 0)"
    by (simp add: split hm_get_def)
  have "show_nat 0 \<noteq> ''new''" by (simp add: show_nat.simps digit_char_def char_of_def)
  then have "hm_get (hm_insert ''new'' x (hm_remove (show_nat 0) ?m)) (show_nat 0) = None" for x
    by (simp add: hm.get_ins hm.get_rem)
  moreover have "map_of (map (\<lambda>(k, s). (k, to_disk s)) ?m) (show_nat 0) = Some (to_disk (?s 0))"
    by (simp add: split)
  moreover have "load_entry 10 9 9 (to_disk (?s 0)) 0 \<noteq> None"
    by (simp add: load_entry_def disk_meaningful_def to_disk_def session_fresh_def preauth_ttl_def nanos_def)
  moreover have "chan_of ?m (show_nat 0) = [0]"
    unfolding chan_of_def first by (simp add: session_fresh_def)
  then have "session_create id ''new'' ''c'' 8 8 77 full_store = ([0], full_store\<lparr>ss_map :=
      hm_insert (id ''new'') (session_fresh False False '''' ''c'' 8 8 77) (hm_remove (show_nat 0) ?m)\<rparr>)"
    unfolding session_create_def m victim by simp
  ultimately show ?thesis
    by (simp add: session_get_def m del: map_map)
qed

end
