(* ===== verification/Totp.thy ===== *)
theory Totp
  imports Oidc
begin

text \<open>
  One-time codes (\<open>src/src/totp.rs\<close>): base32 seeds on 32-bit accumulators, the code of a time step, the
  verification window, the replay guard, and the provisioning URI.

  Parameters: \<open>hm\<close> is HMAC-SHA1 (key, message), whose digests have 20 bytes; the random bytes of a new
  seed; the clock. Rendering the QR code is a library call and not modelled.
\<close>

unbundle bit_operations_syntax

type_synonym u32 = "32 word"

subsection \<open>Base32\<close>

definition b32 :: string where
  "b32 = ''ABCDEFGHIJKLMNOPQRSTUVWXYZ234567''"

definition b32_char :: "u32 \<Rightarrow> char" where
  "b32_char v = b32 ! unat v"

text \<open>The inner loop of the encoder: while there are five bits, one character comes out.\<close>

fun enc_drain :: "u32 \<Rightarrow> nat \<Rightarrow> string \<Rightarrow> nat \<times> string" where
  "enc_drain acc bits out =
    (if bits \<ge> 5 then enc_drain acc (bits - 5) (out @ [b32_char (drop_bit (bits - 5) acc AND 31)])
     else (bits, out))"

declare enc_drain.simps [simp del]

fun enc_bytes :: "u32 \<Rightarrow> nat \<Rightarrow> string \<Rightarrow> u8 list \<Rightarrow> u32 \<times> nat \<times> string" where
  "enc_bytes acc bits out [] = (acc, bits, out)"
| "enc_bytes acc bits out (b # bs) =
    (let acc' = push_bit 8 acc OR ucast b;
         (bits', out') = enc_drain acc' (bits + 8) out
     in enc_bytes acc' bits' out' bs)"

definition encode_base32 :: "u8 list \<Rightarrow> string" where
  "encode_base32 data =
    (let (acc, bits, out) = enc_bytes 0 0 [] data
     in if bits > 0 then out @ [b32_char (push_bit (5 - bits) acc AND 31)] else out)"

definition position :: "('a \<Rightarrow> bool) \<Rightarrow> 'a list \<Rightarrow> nat option" where
  "position P xs = (let n = length (takeWhile (\<lambda>x. \<not> P x) xs) in if n < length xs then Some n else None)"

fun dec_bytes :: "u8 list \<Rightarrow> u32 \<Rightarrow> nat \<Rightarrow> u8 list \<Rightarrow> u8 list option" where
  "dec_bytes out acc bits [] = Some out"
| "dec_bytes out acc bits (b # bs) =
    (case position (\<lambda>x. x = ascii_upper (byte_char b)) b32 of
      None \<Rightarrow> None
    | Some value \<Rightarrow>
        let acc1 = push_bit 5 acc OR word_of_nat value; bits1 = bits + 5
        in if bits1 \<ge> 8 then
             let bits2 = bits1 - 8
             in dec_bytes (out @ [ucast (drop_bit bits2 acc1)]) (acc1 AND (push_bit bits2 1 - 1)) bits2 bs
           else dec_bytes out acc1 bits1 bs)"

definition decode_base32 :: "string \<Rightarrow> u8 list option" where
  "decode_base32 s =
     dec_bytes [] 0 0 (filter (\<lambda>b. \<not> is_ascii_whitespace (byte_char b) \<and> byte_char b \<noteq> CHR ''='') (utf8 s))"

definition valid_seed :: "string \<Rightarrow> bool" where
  "valid_seed seed = (case decode_base32 seed of None \<Rightarrow> False | Some bytes \<Rightarrow> length bytes \<ge> 16)"

definition generate_seed :: "u8 list \<Rightarrow> string" where
  "generate_seed random_bytes = encode_base32 random_bytes"

subsection \<open>Both directions as operations on bit lists\<close>

definition bits8 :: "u8 \<Rightarrow> bool list" where
  "bits8 b = map (bit b) (rev [0..<8])"

definition bits5 :: "u32 \<Rightarrow> bool list" where
  "bits5 v = map (bit v) (rev [0..<5])"

definition of_bits :: "bool list \<Rightarrow> 'a::len word" where
  "of_bits bs = horner_sum of_bool 2 (rev bs)"

lemma bit_of_bits: "bit (of_bits bs :: 'a::len word) n \<longleftrightarrow> n < LENGTH('a) \<and> n < length bs \<and> bs ! (length bs - Suc n)"
  by (auto simp: of_bits_def bit_horner_sum_bit_word_iff rev_nth)

text \<open>\<open>pending bs n acc\<close>: the low \<open>n\<close> bits of the accumulator are the list, most significant first.\<close>

definition pending :: "bool list \<Rightarrow> u32 \<Rightarrow> bool" where
  "pending bs acc \<longleftrightarrow> length bs \<le> 32 \<and> (\<forall>i < length bs. bit acc i = bs ! (length bs - Suc i))"

fun quints :: "bool list \<Rightarrow> u32 list" where
  "quints bs = (if bs = [] then [] else of_bits (take 5 (bs @ replicate 4 False)) # quints (drop 5 bs))"

declare quints.simps [simp del]

lemma pending_append_byte:
  assumes "pending bs acc" "length bs \<le> 4"
  shows "pending (bs @ bits8 b) (push_bit 8 acc OR ucast b)"
  unfolding pending_def
proof (intro conjI allI impI)
  show "length (bs @ bits8 b) \<le> 32" using assms(2) by (simp add: bits8_def)
  fix i assume i: "i < length (bs @ bits8 b)"
  then have i32: "i < 32" using assms(2) by (simp add: bits8_def)
  show "bit (push_bit 8 acc OR ucast b) i = (bs @ bits8 b) ! (length (bs @ bits8 b) - Suc i)"
  proof (cases "i < 8")
    case True
    then have "\<not> 7 + length bs - i < length bs" by simp
    then show ?thesis using i32 True
      by (simp add: bit_simps nth_append bits8_def rev_nth)
  next
    case False
    then have "\<not> bit b i" using bit_imp_le_length [of b i] by auto
    then show ?thesis using assms(1) False i i32
      by (auto simp: bit_simps nth_append bits8_def pending_def)
  qed
qed

lemma take5_eq: "length bs = 5 \<Longrightarrow> bs = [bs ! 0, bs ! 1, bs ! 2, bs ! 3, bs ! 4]"
  by (auto simp: list_eq_iff_nth_eq less_Suc_eq numeral_eq_Suc)

lemma and_31: "bit (v AND (31 :: u32)) i \<longleftrightarrow> bit v i \<and> i < 5"
proof -
  have "(31 :: u32) = mask 5" by (simp add: mask_eq_exp_minus_1)
  then have "bit (v AND 31) i \<longleftrightarrow> bit v i \<and> bit (mask 5 :: u32) i" by (simp only: bit_and_iff)
  then show ?thesis using bit_imp_le_length [of v i] by (auto simp: bit_mask_iff)
qed

lemma pending_quint:
  assumes "pending bs acc" "length bs \<ge> 5"
  shows "drop_bit (length bs - 5) acc AND 31 = of_bits (take 5 bs)"
proof (rule bit_word_eqI)
  fix n assume n: "n < LENGTH(32)"
  show "bit (drop_bit (length bs - 5) acc AND 31) n \<longleftrightarrow> bit (of_bits (take 5 bs) :: u32) n"
  proof (cases "n < 5")
    case True
    then have "length bs - 5 + n < length bs" using assms(2) by simp
    then have "bit acc (length bs - 5 + n) = bs ! (length bs - Suc (length bs - 5 + n))"
      using assms(1) by (simp add: pending_def)
    moreover have "length bs - Suc (length bs - 5 + n) = 4 - n" using assms(2) True by simp
    ultimately show ?thesis using True assms(2) n
      by (simp add: and_31 bit_of_bits bit_drop_bit_eq)
  next
    case False
    then show ?thesis using assms(2) by (simp add: and_31 bit_of_bits)
  qed
qed

lemma pending_drop: "pending bs acc \<Longrightarrow> pending (drop n bs) acc"
  by (auto simp: pending_def)

lemma enc_drain_quints:
  assumes "pending bs acc"
  shows "\<exists>as rest. bs = as @ rest \<and> length as mod 5 = 0 \<and> length rest \<le> 4 \<and>
    enc_drain acc (length bs) out = (length rest, out @ map b32_char (quints as))"
  using assms
proof (induction "length bs" arbitrary: bs out rule: less_induct)
  case less
  show ?case
  proof (cases "5 \<le> length bs")
    case False
    then show ?thesis
      by (intro exI [of _ "[]"] exI [of _ bs]) (simp add: enc_drain.simps quints.simps)
  next
    case True
    let ?d = "drop 5 bs"
    have len: "length ?d = length bs - 5" "length ?d < length bs" using True by auto
    obtain as rest where h: "?d = as @ rest" "length as mod 5 = 0" "length rest \<le> 4"
      "enc_drain acc (length ?d) (out @ [b32_char (of_bits (take 5 bs))])
        = (length rest, (out @ [b32_char (of_bits (take 5 bs))]) @ map b32_char (quints as))"
      using less.hyps [OF len(2) pending_drop [OF less.prems], of "out @ [b32_char (of_bits (take 5 bs))]"]
      by (elim exE conjE) (rule that)
    have "bs = (take 5 bs @ as) @ rest" using h(1) append_take_drop_id [of 5 bs] by simp
    moreover have "length (take 5 bs @ as) mod 5 = 0" using True h(2) by simp
    moreover have "quints (take 5 bs @ as) = of_bits (take 5 bs) # quints as"
      using True by (subst quints.simps) auto
    moreover have "enc_drain acc (length bs) out
        = enc_drain acc (length ?d) (out @ [b32_char (of_bits (take 5 bs))])"
      using True by (subst enc_drain.simps) (simp add: pending_quint [OF less.prems True] len)
    ultimately show ?thesis
      using h(3,4) by (intro exI [of _ "take 5 bs @ as"] exI [of _ rest]) simp
  qed
qed

lemma quints_append:
  "length as mod 5 = 0 \<Longrightarrow> quints (as @ bs) = quints as @ quints bs"
proof (induction as rule: quints.induct)
  case (1 as)
  show ?case
  proof (cases "as = []")
    case True
    then show ?thesis by (simp add: quints.simps [of "[]"])
  next
    case False
    then have five: "5 \<le> length as" using 1(2) by (cases "length as < 5") auto
    then have "length (drop 5 as) mod 5 = 0" using 1(2) by (simp add: le_mod_geq)
    from 1(1) [OF False this] show ?thesis
      using False five by (simp add: quints.simps [of "as @ bs"] quints.simps [of as])
  qed
qed

lemma enc_bytes_quints:
  assumes "pending bs acc" "length bs \<le> 4"
  shows "\<exists>acc' as rest. bs @ concat (map bits8 data) = as @ rest \<and> length as mod 5 = 0 \<and>
    length rest \<le> 4 \<and> pending rest acc' \<and>
    enc_bytes acc (length bs) out data = (acc', length rest, out @ map b32_char (quints as))"
  using assms
proof (induction data arbitrary: bs acc out)
  case Nil
  then show ?case by (intro exI [of _ acc] exI [of _ "[]"] exI [of _ bs]) (simp add: quints.simps)
next
  case (Cons b data)
  let ?p = "bs @ bits8 b"
  let ?acc = "push_bit 8 acc OR ucast b :: u32"
  have p: "pending ?p ?acc" by (rule pending_append_byte [OF Cons.prems])
  have lp: "length ?p = length bs + 8" by (simp add: bits8_def)
  obtain as1 r1 where h1: "?p = as1 @ r1" "length as1 mod 5 = 0" "length r1 \<le> 4"
    "enc_drain ?acc (length ?p) out = (length r1, out @ map b32_char (quints as1))"
    using enc_drain_quints [OF p, of out] by (elim exE conjE) (rule that)
  have "pending (drop (length as1) ?p) ?acc" by (rule pending_drop [OF p])
  then have p1: "pending r1 ?acc" by (simp add: h1(1))
  obtain acc' as2 rest where h2: "r1 @ concat (map bits8 data) = as2 @ rest" "length as2 mod 5 = 0"
    "length rest \<le> 4" "pending rest acc'"
    "enc_bytes ?acc (length r1) (out @ map b32_char (quints as1)) data
      = (acc', length rest, (out @ map b32_char (quints as1)) @ map b32_char (quints as2))"
    using Cons.IH [OF p1 h1(3), of "out @ map b32_char (quints as1)"] by (elim exE conjE) (rule that)
  have "bs @ concat (map bits8 (b # data)) = (as1 @ as2) @ rest"
    using h1(1) h2(1) by (metis append.assoc concat.simps(2) list.simps(9))
  moreover have "length (as1 @ as2) mod 5 = 0" using h1(2) h2(2) by (simp add: mod_add_eq [symmetric])
  moreover have "enc_bytes acc (length bs) out (b # data)
      = enc_bytes ?acc (length r1) (out @ map b32_char (quints as1)) data"
    using h1(4) unfolding lp by (simp add: Let_def)
  ultimately show ?case
    using h2 quints_append [OF h1(2), of as2]
    by (intro exI [of _ acc'] exI [of _ "as1 @ as2"] exI [of _ rest]) simp
qed

lemma encode_quints:
  "\<exists>pad. length pad \<le> 4 \<and> list_all Not pad \<and> (8 * length data + length pad) mod 5 = 0 \<and>
    encode_base32 data = map b32_char (quints (concat (map bits8 data) @ pad))"
proof -
  have len: "length (concat (map bits8 data)) = 8 * length data"
    by (induction data) (simp_all add: bits8_def)
  have "pending [] 0" by (simp add: pending_def)
  from enc_bytes_quints [OF this, where out = "[]" and data = data] obtain acc as rest where h:
    "concat (map bits8 data) = as @ rest" "length as mod 5 = 0" "length rest \<le> 4" "pending rest acc"
    "enc_bytes 0 0 [] data = (acc, length rest, map b32_char (quints as))"
    by auto
  show ?thesis
  proof (cases "rest = []")
    case True
    then show ?thesis using h len
      by (intro exI [of _ "[]"]) (simp add: encode_base32_def)
  next
    case False
    let ?pad = "replicate (5 - length rest) False"
    have "length rest > 0" using False by simp
    have fits: "length rest + (5 - length rest) = 5" using h(3) by simp
    have "push_bit (5 - length rest) acc AND 31 = of_bits (rest @ ?pad)"
    proof (rule bit_word_eqI)
      fix n assume n: "n < LENGTH(32)"
      show "bit (push_bit (5 - length rest) acc AND 31) n \<longleftrightarrow> bit (of_bits (rest @ ?pad) :: u32) n"
      proof (cases "n < 5 - length rest")
        case True
        then have "\<not> (rest @ ?pad) ! (5 - Suc n)" using h(3) by (auto simp: nth_append)
        then show ?thesis using True fits by (simp add: and_31 bit_of_bits bit_push_bit_iff)
      next
        case False
        show ?thesis
        proof (cases "n < 5")
          case True
          have i: "n - (5 - length rest) < length rest" using False True h(3) by auto
          then have "bit acc (n - (5 - length rest)) = rest ! (length rest - Suc (n - (5 - length rest)))"
            using h(4) by (simp add: pending_def)
          moreover have "length rest - Suc (n - (5 - length rest)) = 5 - Suc n"
            using False True h(3) by auto
          moreover have "5 - Suc n < length rest" using False True by auto
          ultimately show ?thesis using False True fits n
            by (simp add: and_31 bit_of_bits bit_push_bit_iff nth_append)
        qed (use fits in \<open>simp add: and_31 bit_of_bits\<close>)
      qed
    qed
    moreover have "quints (as @ rest @ ?pad) = quints as @ [of_bits (rest @ ?pad)]"
      using quints_append [OF h(2), of "rest @ ?pad"] False fits
      by (simp add: quints.simps [of "rest @ ?pad"] quints.simps [of "[]"])
    ultimately have "encode_base32 data = map b32_char (quints (concat (map bits8 data) @ ?pad))"
      using \<open>length rest > 0\<close> h(1,5) by (simp add: encode_base32_def)
    moreover have "(8 * length data + length ?pad) mod 5 = 0"
    proof -
      have "8 * length data + length ?pad = length as + 5"
        using len h(1) fits by simp
      then show ?thesis using h(2) by simp
    qed
    moreover have "length ?pad \<le> 4" using \<open>length rest > 0\<close> by (cases rest) auto
    moreover have "list_all Not ?pad" by (simp add: list_all_iff)
    ultimately show ?thesis by (intro exI [of _ ?pad] conjI)
  qed
qed

subsection \<open>Decoding\<close>

text \<open>The bytes in a bit list; a remainder of less than eight bits is dropped.\<close>

fun octets :: "bool list \<Rightarrow> u8 list" where
  "octets bs = (if length bs \<ge> 8 then of_bits (take 8 bs) # octets (drop 8 bs) else [])"

declare octets.simps [simp del]

lemma bits8_of: "of_bits (bits8 b) = b"
proof (rule bit_word_eqI)
  fix n assume "n < LENGTH(8)"
  then have n: "n < 8" by simp
  then have "bits8 b ! (7 - n) = bit b n" by (simp add: bits8_def rev_nth)
  then show "bit (of_bits (bits8 b) :: u8) n = bit b n"
    using n by (simp add: bit_of_bits bits8_def)
qed

lemma octets_bits8: "length r < 8 \<Longrightarrow> octets (concat (map bits8 data) @ r) = data"
proof (induction data)
  case Nil
  then show ?case by (simp add: octets.simps)
next
  case (Cons b data)
  have "length (bits8 b) = 8" by (simp add: bits8_def)
  then show ?case using Cons
    by (subst octets.simps) (simp add: bits8_of)
qed

lemma octets_append8: "length as = 8 \<Longrightarrow> octets (as @ bs) = of_bits as # octets bs"
  by (subst octets.simps) simp

lemma b32_index: "v < 32 \<Longrightarrow> position (\<lambda>x. x = b32 ! v) b32 = Some v"
proof -
  have all: "list_all (\<lambda>v. position (\<lambda>x. x = b32 ! v) b32 = Some v) [0..<32]"
    by (simp add: upt_rec b32_def position_def)
  assume "v < 32"
  with all show ?thesis by (simp add: list_all_iff)
qed

lemma b32_plain:
  "v < 32 \<Longrightarrow> code (b32 ! v) < 128 \<and> ascii_upper (b32 ! v) = b32 ! v \<and>
    \<not> is_ascii_whitespace (b32 ! v) \<and> b32 ! v \<noteq> CHR ''=''"
proof -
  have all: "list_all (\<lambda>c. code c < 128 \<and> ascii_upper c = c \<and> \<not> is_ascii_whitespace c \<and> c \<noteq> CHR ''='') b32"
    by (simp add: b32_def ascii_upper_def is_ascii_whitespace_def is_ascii_lower_def code_def)
  assume "v < 32"
  then have "b32 ! v \<in> set b32" by (intro nth_mem) (simp add: b32_def)
  with all show ?thesis by (simp add: list_all_iff)
qed

lemma unat_quint: "length bs = 5 \<Longrightarrow> unat (of_bits bs :: u32) < 32"
proof -
  assume "length bs = 5"
  then have "of_bits bs AND 31 = (of_bits bs :: u32)"
    by (intro bit_word_eqI) (auto simp: and_31 bit_of_bits)
  then have "unat (of_bits bs :: u32) = unat (of_bits bs AND 31 :: u32)" by simp
  also have "... \<le> unat (31 :: u32)" by (rule word_le_nat_alt [THEN iffD1, OF word_and_le1])
  finally show ?thesis by simp
qed

text \<open>The decoder, on a text of base32 characters: its accumulator holds exactly the pending bits.\<close>


lemma of_bits_append5:
  assumes "length q = 5" "length bs \<le> 8"
  shows "push_bit 5 (of_bits bs :: u32) OR of_bits q = of_bits (bs @ q)"
proof (rule bit_word_eqI)
  fix n assume n: "n < LENGTH(32)"
  show "bit (push_bit 5 (of_bits bs :: u32) OR of_bits q) n \<longleftrightarrow> bit (of_bits (bs @ q) :: u32) n"
  proof (cases "n < 5")
    case True
    then have "length bs + 5 - Suc n = length bs + (4 - n)" "\<not> length bs + 4 - n < length bs" by simp_all
    then show ?thesis using True assms n by (simp add: bit_of_bits bit_or_iff bit_push_bit_iff nth_append)
  next
    case False
    then have "n - 5 < length bs \<Longrightarrow> length bs + 5 - Suc n = length bs - Suc (n - 5)" by simp
    then show ?thesis using False assms n
      by (auto simp: bit_of_bits bit_or_iff bit_push_bit_iff nth_append)
  qed
qed

lemma of_bits_split8:
  assumes "length as = 8" "length r \<le> 8"
  shows "ucast (drop_bit (length r) (of_bits (as @ r) :: u32)) = (of_bits as :: u8)"
    and "(of_bits (as @ r) :: u32) AND (push_bit (length r) 1 - 1) = of_bits r"
proof -
  show "ucast (drop_bit (length r) (of_bits (as @ r) :: u32)) = (of_bits as :: u8)"
  proof (rule bit_word_eqI)
    fix n assume "n < LENGTH(8)"
    then have n: "n < 8" by simp
    then have "length r + n < 32" "8 + length r - Suc (length r + n) = 7 - n" "7 - n < 8"
      using assms by simp_all
    with n show "bit (ucast (drop_bit (length r) (of_bits (as @ r) :: u32)) :: u8) n = bit (of_bits as :: u8) n"
      using assms by (simp add: bit_of_bits bit_ucast_iff bit_drop_bit_eq nth_append)
  qed
  have m: "push_bit (length r) 1 - 1 = (mask (length r) :: u32)"
    by (simp add: mask_eq_exp_minus_1 push_bit_eq_mult)
  show "(of_bits (as @ r) :: u32) AND (push_bit (length r) 1 - 1) = of_bits r"
  proof (rule bit_word_eqI)
    fix n assume n: "n < LENGTH(32)"
    show "bit ((of_bits (as @ r) :: u32) AND (push_bit (length r) 1 - 1)) n \<longleftrightarrow> bit (of_bits r :: u32) n"
    proof (cases "n < length r")
      case True
      then have "8 + length r - Suc n = 8 + (length r - Suc n)" "\<not> 7 + length r - n < 8" by simp_all
      then show ?thesis using True assms n
        unfolding m by (simp add: bit_and_iff bit_mask_iff bit_of_bits nth_append)
    next
      case False
      then show ?thesis unfolding m by (simp add: bit_and_iff bit_mask_iff bit_of_bits)
    qed
  qed
qed

definition char_byte :: "char \<Rightarrow> u8" where
  "char_byte c = word_of_nat (code c)"

lemma byte_char_byte [simp]: "byte_char (char_byte c) = c"
  by (simp add: byte_char_def char_byte_def unat_of_nat take_bit_eq_mod) (simp add: code_def)

lemma dec_bytes_bits:
  assumes "list_all (\<lambda>q. length q = 5) qs" "length bs < 8"
  shows "dec_bytes out (of_bits bs) (length bs) (map (\<lambda>q. char_byte (b32_char (of_bits q))) qs)
    = Some (out @ octets (bs @ concat qs))"
  using assms
proof (induction qs arbitrary: bs out)
  case Nil
  then show ?case by (simp add: octets.simps)
next
  case (Cons q qs)
  then have q: "length q = 5" "unat (of_bits q :: u32) < 32" by (simp_all add: unat_quint)
  have pos: "position (\<lambda>x. x = ascii_upper (b32_char (of_bits q))) b32 = Some (unat (of_bits q :: u32))"
    using b32_index [OF q(2)] b32_plain [OF q(2)] by (simp add: b32_char_def)
  have acc: "push_bit 5 (of_bits bs :: u32) OR of_bits q = of_bits (bs @ q)"
    using of_bits_append5 [OF q(1)] Cons.prems(2) by simp
  show ?case
  proof (cases "8 \<le> length (bs @ q)")
    case False
    then show ?thesis
      using Cons.IH [of "bs @ q" out] Cons.prems q(1) by (simp add: pos acc Let_def)
  next
    case True
    define as where "as = take 8 (bs @ q)"
    define r where "r = drop 8 (bs @ q)"
    have split: "bs @ q = as @ r" "length as = 8" "length bs + 5 - 8 = length r" "length r < 8"
      using True q(1) Cons.prems(2) by (simp_all add: as_def r_def)
    have "octets (bs @ concat (q # qs)) = of_bits as # octets (r @ concat qs)"
    proof -
      have "bs @ concat (q # qs) = as @ (r @ concat qs)" using split(1) by (metis append.assoc concat.simps(2))
      then show ?thesis using octets_append8 [OF split(2)] by (simp only:)
    qed
    moreover have "dec_bytes (out @ [of_bits as]) (of_bits r) (length r)
        (map (\<lambda>q. char_byte (b32_char (of_bits q))) qs) = Some ((out @ [of_bits as]) @ octets (r @ concat qs))"
      using Cons.IH [of r "out @ [of_bits as]"] Cons.prems(1) split(4) by simp
    moreover have "3 \<le> length bs" using True q(1) by simp
    ultimately show ?thesis
      using q(1) of_bits_split8 [OF split(2), of r] split(3,4)
      by (simp add: pos acc split(1) Let_def)
  qed
qed

lemma utf8_ascii: "list_all (\<lambda>c. code c < 128) s \<Longrightarrow> utf8 s = map char_byte s"
  by (induction s) (simp_all add: utf8_def utf8_char_def char_byte_def)

fun fives :: "bool list \<Rightarrow> bool list list" where
  "fives bs = (if length bs \<ge> 5 then take 5 bs # fives (drop 5 bs) else [])"

declare fives.simps [simp del]

lemma fives_quints:
  "length bs mod 5 = 0 \<Longrightarrow> quints bs = map of_bits (fives bs) \<and> concat (fives bs) = bs \<and>
    list_all (\<lambda>q. length q = 5) (fives bs)"
proof (induction bs rule: quints.induct)
  case (1 bs)
  show ?case
  proof (cases "bs = []")
    case True
    then show ?thesis by (simp add: fives.simps quints.simps)
  next
    case False
    then have five: "5 \<le> length bs" using 1(2) by (cases "length bs < 5") auto
    then have "length (drop 5 bs) mod 5 = 0" using 1(2) by (simp add: le_mod_geq)
    from 1(1) [OF False this] show ?thesis
      using False five by (simp add: quints.simps [of bs] fives.simps [of bs])
  qed
qed

lemma decode_encode_base32:
  "decode_base32 (encode_base32 data) = Some data"
proof -
  obtain pad where pad: "length pad \<le> 4" "(8 * length data + length pad) mod 5 = 0"
    "encode_base32 data = map b32_char (quints (concat (map bits8 data) @ pad))"
    using encode_quints [of data] by (elim exE conjE) (rule that)
  let ?bs = "concat (map bits8 data) @ pad"
  have "length (concat (map bits8 data)) = 8 * length data"
    by (induction data) (simp_all add: bits8_def)
  then have f: "quints ?bs = map of_bits (fives ?bs)" "concat (fives ?bs) = ?bs"
    "list_all (\<lambda>q. length q = 5) (fives ?bs)"
    using fives_quints [of ?bs] pad(2) by auto
  let ?text = "map (\<lambda>q. b32_char (of_bits q)) (fives ?bs)"
  have plain: "list_all (\<lambda>c. code c < 128 \<and> \<not> is_ascii_whitespace c \<and> c \<noteq> CHR ''='') ?text"
    using f(3) b32_plain unat_quint by (auto simp: list_all_iff b32_char_def)
  then have utf8: "utf8 ?text = map char_byte ?text"
    by (intro utf8_ascii) (auto simp: list_all_iff)
  have "decode_base32 ?text = dec_bytes [] 0 0 (map char_byte ?text)"
    unfolding decode_base32_def utf8 using plain
    by (subst filter_True) (auto simp: list_all_iff)
  also have "... = Some (octets ?bs)"
    using dec_bytes_bits [OF f(3), of "[]" "[]"] by (simp add: f(2) of_bits_def o_def)
  also have "octets ?bs = data" using pad(1) by (intro octets_bits8) simp
  finally show ?thesis using pad(3) f(1) by (simp add: o_def)
qed

text \<open>base32 loses nothing: decoding the encoding of any byte string gives the byte string back; the
  left-over padding bits of the last character are never mistaken for data.\<close>

theorem base32_roundtrip:
  "decode_base32 (encode_base32 data) = Some data"
  by (rule decode_encode_base32)

subsection \<open>Codes\<close>

definition be_bytes :: "nat \<Rightarrow> u8 list" where
  "be_bytes n = map (\<lambda>i. word_of_nat (n div 256 ^ (7 - i))) [0..<8]"

definition be_u32 :: "u8 list \<Rightarrow> u32" where
  "be_u32 bs = word_of_nat (foldl (\<lambda>a b. a * 256 + unat b) 0 bs)"

definition pad6 :: "nat \<Rightarrow> string" where
  "pad6 n = replicate (6 - length (show_nat n)) CHR ''0'' @ show_nat n"

definition code_at :: "(u8 list \<Rightarrow> u8 list \<Rightarrow> u8 list) \<Rightarrow> string \<Rightarrow> nat \<Rightarrow> string option" where
  "code_at hm seed counter =
    Option.bind (decode_base32 seed) (\<lambda>key.
      let digest = hm key (be_bytes counter);
          offset = unat (digest ! 19 AND 15);
          value = (be_u32 (take 4 (drop offset digest)) AND 2147483647) mod 1000000
      in Some (pad6 (unat value)))"

definition totp_verify :: "(u8 list \<Rightarrow> u8 list \<Rightarrow> u8 list) \<Rightarrow> string \<Rightarrow> string \<Rightarrow> nat \<Rightarrow> bool" where
  "totp_verify hm seed provided0 unix =
    (let provided = trim provided0 in
     if length (utf8 provided) \<noteq> 6 \<or> \<not> list_all (\<lambda>b. is_ascii_digit (byte_char b)) (utf8 provided) then False
     else
       let now = unix div 30
       in list_ex (\<lambda>c. utf8 c = utf8 provided)
            (List.map_filter (code_at hm seed) [now - 1, now, sat_add64 now 1]))"

lemma show_nat_len: "n < 10 ^ k \<Longrightarrow> 0 < k \<Longrightarrow> length (show_nat n) \<le> k"
proof (induction k arbitrary: n)
  case (Suc k)
  show ?case
  proof (cases "n < 10")
    case False
    then have "n div 10 < 10 ^ k" "0 < k" using Suc.prems(1) by (cases k; simp add: less_mult_imp_div_less)+
    then show ?thesis using Suc.IH [of "n div 10"] False by (subst show_nat.simps) simp
  qed (simp add: show_nat.simps)
qed simp

lemma pad6_digits: "n < 1000000 \<Longrightarrow> length (pad6 n) = 6 \<and> list_all is_ascii_digit (pad6 n)"
proof -
  assume "n < 1000000"
  then have "length (show_nat n) \<le> 6" using show_nat_len [of n 6] by simp
  moreover have "is_ascii_digit (CHR ''0'')" by (simp add: is_ascii_digit_def code_def)
  ultimately show ?thesis
    by (auto simp: pad6_def list_all_iff dest: show_nat_digits)
qed

lemma code_at_digits: "code_at hm seed counter = Some c \<Longrightarrow> length c = 6 \<and> list_all is_ascii_digit c"
proof -
  assume "code_at hm seed counter = Some c"
  then obtain v :: u32 where "c = pad6 (unat (v mod 1000000))"
    by (auto simp: code_at_def bind_eq_Some_conv Let_def)
  moreover have "unat (v mod 1000000) < 1000000"
    by (simp add: unat_mod_distrib)
  ultimately show ?thesis using pad6_digits by blast
qed

lemma ascii_digit_plain: "is_ascii_digit c \<Longrightarrow> code c < 128"
  by (simp add: is_ascii_digit_def)

lemma utf8_digits:
  "list_all is_ascii_digit s \<Longrightarrow> length (utf8 s) = length s \<and> list_all (\<lambda>b. is_ascii_digit (byte_char b)) (utf8 s)"
  using utf8_ascii [of s] ascii_digit_plain by (auto simp: list_all_iff)

lemma totp_verify_iff:
  "totp_verify hm seed provided unix \<longleftrightarrow>
     list_ex (\<lambda>step. code_at hm seed step = Some (trim provided))
       [unix div 30 - 1, unix div 30, sat_add64 (unix div 30) 1]"
proof -
  have shape: "code_at hm seed step = Some (trim provided) \<Longrightarrow>
      length (utf8 (trim provided)) = 6 \<and> list_all (\<lambda>b. is_ascii_digit (byte_char b)) (utf8 (trim provided))" for step
    using code_at_digits utf8_digits by fastforce
  have "list_ex (\<lambda>c. utf8 c = utf8 (trim provided)) (List.map_filter (code_at hm seed) xs)
      \<longleftrightarrow> list_ex (\<lambda>step. code_at hm seed step = Some (trim provided)) xs" for xs
    by (induction xs) (auto simp: map_filter_simps split: option.splits)
  note in_window = this [of "[unix div 30 - 1, unix div 30, sat_add64 (unix div 30) 1]"]
  show ?thesis
  proof (cases "length (utf8 (trim provided)) \<noteq> 6 \<or>
      \<not> list_all (\<lambda>b. is_ascii_digit (byte_char b)) (utf8 (trim provided))")
    case True
    then have "code_at hm seed step \<noteq> Some (trim provided)" for step using shape by blast
    with True show ?thesis by (simp add: totp_verify_def Let_def)
  next
    case False
    then show ?thesis unfolding totp_verify_def Let_def in_window by simp
  qed
qed

text \<open>C25: a code is accepted exactly when it is, up to surrounding white space, the code of the current
  thirty-second step or of one of its two neighbours; the shape check in front never rejects one.\<close>

theorem totp_verify_window:
  "totp_verify hm seed provided unix \<longleftrightarrow>
     list_ex (\<lambda>step. code_at hm seed step = Some (trim provided))
       [unix div 30 - 1, unix div 30, sat_add64 (unix div 30) 1]"
  by (rule totp_verify_iff)

subsection \<open>The replay guard\<close>

definition replay_memory :: nat where "replay_memory = 3"
definition replay_window :: nat where "replay_window = 90"

definition accept_at :: "string \<Rightarrow> nat \<Rightarrow> (string \<times> nat) list \<Rightarrow> bool \<times> (string \<times> nat) list" where
  "accept_at code0 now recent0 =
    (let c = trim code0;
         recent = filter (\<lambda>(_, at). now - at < replay_window) recent0
     in if list_ex (\<lambda>(seen, _). seen = c) recent then (False, recent)
        else (True, (if length recent = replay_memory then tl recent else recent) @ [(c, now)]))"

fun accept_run :: "(string \<times> nat) list \<Rightarrow> (string \<times> nat) list \<Rightarrow> bool list \<times> (string \<times> nat) list" where
  "accept_run [] recent = ([], recent)"
| "accept_run ((c, now) # cs) recent =
    (let (b, recent') = accept_at c now recent; (bs, recent'') = accept_run cs recent'
     in (b # bs, recent''))"

definition guard_ok :: "(string \<times> nat) list \<Rightarrow> bool" where
  "guard_ok recent \<longleftrightarrow> length recent \<le> replay_memory \<and> distinct (map fst recent)"

lemma accept_at_ok: "guard_ok recent \<Longrightarrow> guard_ok (snd (accept_at c now recent))"
proof -
  assume g: "guard_ok recent"
  let ?r = "filter (\<lambda>(_, at). now - at < replay_window) recent"
  have r: "length ?r \<le> replay_memory" "distinct (map fst ?r)"
    using g by (auto simp: guard_ok_def distinct_map_filter intro: order_trans [OF length_filter_le])
  show ?thesis
  proof (cases "list_ex (\<lambda>(seen, _). seen = trim c) ?r")
    case True
    then show ?thesis using r by (simp add: accept_at_def guard_ok_def)
  next
    case False
    then have new: "trim c \<notin> set (map fst ?r)" by (auto simp: list_ex_iff)
    show ?thesis
    proof (cases "length ?r = replay_memory")
      case full: True
      then have "distinct (map fst (tl ?r) @ [trim c])"
        using r(2) new by (cases ?r) (auto simp: replay_memory_def)
      then show ?thesis using False full
        by (simp add: accept_at_def guard_ok_def replay_memory_def Let_def)
    next
      case nf: False
      then show ?thesis using False r new
        by (simp add: accept_at_def guard_ok_def replay_memory_def Let_def)
    qed
  qed
qed

text \<open>An entry is \<open>j\<close> places from being evicted while at least \<open>j\<close> entries precede it or the list is that short.\<close>

definition remembered :: "string \<Rightarrow> nat \<Rightarrow> nat \<Rightarrow> (string \<times> nat) list \<Rightarrow> bool" where
  "remembered c t room recent \<longleftrightarrow> (\<exists>as bs. recent = as @ (c, t) # bs \<and> length bs + room < replay_memory)"

lemma accept_at_remembers:
  assumes "remembered (trim c) t room recent" "t \<le> now" "now - t < replay_window"
  shows "(fst (accept_at c' now recent) \<longrightarrow> trim c' \<noteq> trim c) \<and>
    (case fst (accept_at c' now recent) of
      False \<Rightarrow> remembered (trim c) t room (snd (accept_at c' now recent))
    | True \<Rightarrow> 0 < room \<longrightarrow> remembered (trim c) t (room - 1) (snd (accept_at c' now recent)))"
proof -
  let ?P = "\<lambda>(_ :: string, at). now - at < replay_window"
  obtain as bs where r: "recent = as @ (trim c, t) # bs" "length bs + room < replay_memory"
    using assms(1) by (auto simp: remembered_def)
  let ?as = "filter ?P as" let ?bs = "filter ?P bs"
  have f: "filter ?P recent = ?as @ (trim c, t) # ?bs" using r(1) assms(3) by simp
  have lb: "length ?bs + room < replay_memory" using r(2) length_filter_le [of ?P bs] by linarith
  have rem: "remembered (trim c) t room (filter ?P recent)"
    unfolding remembered_def f using lb by blast
  show ?thesis
  proof (cases "list_ex (\<lambda>(seen, _). seen = trim c') (filter ?P recent)")
    case True
    then show ?thesis using rem by (simp add: accept_at_def)
  next
    case False
    then have neq: "trim c' \<noteq> trim c" unfolding f by auto
    have "remembered (trim c) t (room - 1) (snd (accept_at c' now recent))" if "0 < room"
    proof (cases "length (filter ?P recent) = replay_memory")
      case full: True
      then have "?as \<noteq> []" using lb that unfolding f by auto
      then have "snd (accept_at c' now recent) = tl ?as @ (trim c, t) # (?bs @ [(trim c', now)])"
        using False full unfolding f by (simp add: accept_at_def f Let_def)
      then show ?thesis unfolding remembered_def using lb that by fastforce
    next
      case nf: False
      then have "snd (accept_at c' now recent) = ?as @ (trim c, t) # (?bs @ [(trim c', now)])"
        using False unfolding f by (simp add: accept_at_def f Let_def)
      then show ?thesis unfolding remembered_def using lb that by fastforce
    qed
    with False neq show ?thesis by (simp add: accept_at_def Let_def)
  qed
qed

lemma accept_run_remembers:
  "remembered (trim c) t room recent \<Longrightarrow> list_all (\<lambda>(_, at). t \<le> at \<and> at - t < replay_window) cs \<Longrightarrow>
    length (filter id (fst (accept_run cs recent))) \<le> room \<Longrightarrow>
    remembered (trim c) t 0 (snd (accept_run cs recent))"
proof (induction cs arbitrary: recent room)
  case Nil
  then obtain as bs where "recent = as @ (trim c, t) # bs" "length bs + room < replay_memory"
    by (auto simp: remembered_def)
  then show ?case unfolding remembered_def by (intro exI [of _ as] exI [of _ bs]) simp
next
  case (Cons e cs)
  obtain c' now where e: "e = (c', now)" by (cases e)
  obtain b recent' where a: "accept_at c' now recent = (b, recent')" by (cases "accept_at c' now recent")
  from accept_at_remembers [OF Cons.prems(1), of now c'] Cons.prems(2)
  have step: "case b of False \<Rightarrow> remembered (trim c) t room recent'
      | True \<Rightarrow> 0 < room \<longrightarrow> remembered (trim c) t (room - 1) recent'"
    by (cases b) (simp_all add: e a)
  show ?case
  proof (cases b)
    case True
    then have n: "Suc (length (filter id (fst (accept_run cs recent')))) \<le> room"
      using Cons.prems(3) by (simp add: e a id_def split: prod.splits)
    then have "remembered (trim c) t (room - 1) recent'" using step True by simp
    moreover have "list_all (\<lambda>(_, at). t \<le> at \<and> at - t < replay_window) cs"
      using Cons.prems(2) by (simp add: e)
    moreover have "length (filter id (fst (accept_run cs recent'))) \<le> room - 1" using n by linarith
    ultimately have "remembered (trim c) t 0 (snd (accept_run cs recent'))" by (rule Cons.IH)
    then show ?thesis by (cases "accept_run cs recent'") (simp add: e a)
  next
    case False
    then have n: "length (filter id (fst (accept_run cs recent'))) \<le> room"
      using Cons.prems(3) by (simp add: e a id_def split: prod.splits)
    have "remembered (trim c) t room recent'" using step False by simp
    moreover have "list_all (\<lambda>(_, at). t \<le> at \<and> at - t < replay_window) cs"
      using Cons.prems(2) by (simp add: e)
    ultimately have "remembered (trim c) t 0 (snd (accept_run cs recent'))" using n by (rule Cons.IH)
    then show ?thesis by (cases "accept_run cs recent'") (simp add: e a)
  qed
qed

lemma accept_at_stores:
  assumes "guard_ok recent" "accept_at c t recent = (True, recent')"
  shows "remembered (trim c) t 2 recent'"
  using assms(2) by (auto simp: accept_at_def remembered_def replay_memory_def Let_def split: if_splits)

text \<open>C26: an accepted code is refused for the next ninety seconds, however it is spaced, as long as at most two
  other codes are accepted in between.\<close>

theorem replay_refused:
  assumes "guard_ok recent" and "accept_at c t recent = (True, recent')"
    and "list_all (\<lambda>(_, at). t \<le> at \<and> at - t < 90) later"
    and "length (filter id (fst (accept_run later recent'))) \<le> 2"
    and "trim c' = trim c" and "t \<le> t'" and "t' - t < 90"
  shows "fst (accept_at c' t' (snd (accept_run later recent'))) = False"
proof -
  have "remembered (trim c) t 0 (snd (accept_run later recent'))"
    by (rule accept_run_remembers [OF accept_at_stores [OF assms(1,2)]])
      (use assms(3,4) in \<open>simp_all add: replay_window_def\<close>)
  from accept_at_remembers [OF this, of t' c'] assms(5-7) show ?thesis
    by (simp add: replay_window_def)
qed

theorem replay_refused_witness:
  "fst (accept_at '' 111111'' 150 (snd (accept_run [(''222222'', 110), (''222222'', 115), (''333333'', 120)]
     [(''111111'', 100)]))) = False"
  by (rule replay_refused [where recent = "[]" and c = "''111111''" and t = 100])
    (simp_all add: guard_ok_def accept_at_def replay_window_def replay_memory_def trim_def trim_start_def
      trim_end_def is_whitespace_def code_def)

definition toy_hmac :: "u8 list \<Rightarrow> u8 list \<Rightarrow> u8 list" where
  "toy_hmac k m = drop 4 m @ replicate 16 0"

definition toy_seed :: string where
  "toy_seed = encode_base32 (replicate 20 7)"

lemma toy_code:
  "code_at toy_hmac toy_seed n = Some (pad6 (unat ((be_u32 (drop 4 (be_bytes n)) AND 2147483647) mod 1000000)))"
proof -
  have len: "length (be_bytes n) = 8" by (simp add: be_bytes_def)
  then have "toy_hmac k (be_bytes n) ! 19 = 0" for k
    by (simp add: toy_hmac_def nth_append)
  moreover have "take 4 (drop 0 (toy_hmac k (be_bytes n))) = drop 4 (be_bytes n)" for k
    using len by (simp add: toy_hmac_def)
  ultimately show ?thesis
    by (simp add: code_at_def toy_seed_def decode_encode_base32 Let_def)
qed

lemma toy_codes:
  "code_at toy_hmac toy_seed 99 = Some ''000099''" "code_at toy_hmac toy_seed 100 = Some ''000100''"
  "code_at toy_hmac toy_seed 101 = Some ''000101''" "code_at toy_hmac toy_seed 102 = Some ''000102''"
  unfolding toy_code
  by (simp_all add: be_u32_def be_bytes_def upt_rec pad6_def show_nat.simps digit_char_def char_of_def)
    (simp_all add: numeral_eq_Suc bit_0)

lemma trim_digits: "list_all is_ascii_digit s \<Longrightarrow> trim s = s"
proof -
  assume d: "list_all is_ascii_digit s"
  have "\<not> is_whitespace c" if "is_ascii_digit c" for c
    using that by (auto simp: is_ascii_digit_def is_whitespace_def)
  then have "trimmed s" using d by (cases s rule: rev_cases) (auto simp: trimmed_def list_all_iff hd_append)
  then show ?thesis by (rule trim_trimmed)
qed

lemma accept_run_flags:
  "fst (accept_run ((c, now) # cs) recent) = fst (accept_at c now recent) # fst (accept_run cs (snd (accept_at c now recent)))"
  by (simp add: split_def Let_def)

text \<open>C40: one code can be used twice: the guard remembers three codes, but more than three verify while one does. Whatever
  the seed, and whatever was accepted ninety seconds ago or earlier: let the codes of four steps in a row be different.
  In the second of these steps the codes of the third, the second and the first are used, one after the other, and a
  step later that of the fourth, which evicts the first one used; that one still verifies, thirty-one seconds
  after it was accepted, and is accepted again.\<close>

theorem replay_memory_too_short:
  assumes "code_at hm seed (n - 1) = Some p" "code_at hm seed n = Some c" "code_at hm seed (n + 1) = Some x"
    and "code_at hm seed (n + 2) = Some y" "distinct [p, c, x, y]" "1 \<le> n" "n + 2 \<le> u64_max"
    and "list_all (\<lambda>(_, at). at + 90 \<le> 30 * n) recent"
  shows "let used = [(x, 30 * n), (c, 30 * n + 1), (p, 30 * n + 2), (y, 30 * n + 30), (x, 30 * n + 31)]
   in list_all (\<lambda>(code, unix). totp_verify hm seed code unix) used \<and>
      fst (accept_run used recent) = [True, True, True, True, True]"
proof -
  have t: "trim p = p" "trim c = c" "trim x = x" "trim y = y"
    using assms(1-4) code_at_digits trim_digits by blast+
  have "filter (\<lambda>(_, at). 30 * n - at < 90) recent = []"
    using assms(8) by (auto simp: filter_empty_conv list_all_iff)
  then have first: "accept_at x (30 * n) recent = (True, [(x, 30 * n)])"
    by (simp add: accept_at_def t replay_window_def replay_memory_def)
  have steps: "(30 * n + 1) div 30 = n" "(30 * n + 2) div 30 = n" "(30 * n + 30) div 30 = n + 1" "(30 * n + 31) div 30 = n + 1"
    by simp_all
  have sat: "sat_add64 n 1 = n + 1" "sat_add64 (n + 1) 1 = n + 2" using assms(7) by (simp_all add: sat_add64_def)
  have "totp_verify hm seed x (30 * n)" "totp_verify hm seed c (30 * n + 1)" "totp_verify hm seed p (30 * n + 2)"
    "totp_verify hm seed y (30 * n + 30)" "totp_verify hm seed x (30 * n + 31)"
    unfolding totp_verify_iff t steps sat using assms(1-4) by (simp_all add: sat [simplified])
  moreover have "fst (accept_run [(c, 30 * n + 1), (p, 30 * n + 2), (y, 30 * n + 30), (x, 30 * n + 31)] [(x, 30 * n)]) =
      [True, True, True, True]"
    using assms(5) by (auto simp: accept_at_def t replay_window_def replay_memory_def Let_def)
  ultimately show ?thesis
    unfolding Let_def accept_run_flags [of x "30 * n"] first fst_conv snd_conv by (simp del: accept_run.simps)
qed

theorem replay_memory_too_short_witness:
  "let used = [(''000101'', 3000), (''000100'', 3001), (''000099'', 3002), (''000102'', 3030), (''000101'', 3031)]
   in list_all (\<lambda>(c, unix). totp_verify toy_hmac toy_seed c unix) used \<and>
      fst (accept_run used [(''000097'', 2910)]) = [True, True, True, True, True]"
  using replay_memory_too_short [where n = 100 and hm = toy_hmac and seed = toy_seed and recent = "[(''000097'', 2910)]"] toy_codes
  by simp

subsection \<open>Provisioning\<close>

definition provisioning_uri :: "string \<Rightarrow> string \<Rightarrow> string" where
  "provisioning_uri seed account =
     ''otpauth://totp/webshell:'' @ pct_encode ''-_.'' account @ ''?secret='' @ seed @
     ''&issuer=webshell&digits=6&period=30''"

text \<open>the account name cannot break out of the label of the provisioning URI: the label ends at the first
  question mark, decodes to the account's bytes, and the query starts with the seed.\<close>

theorem provisioning_uri_label:
  "split_once CHR ''?'' (provisioning_uri seed account) =
     Some (''otpauth://totp/webshell:'' @ pct_encode ''-_.'' account,
           ''secret='' @ seed @ ''&issuer=webshell&digits=6&period=30'') \<and>
   pct_decode (pct_encode ''-_.'' account) = utf8 account"
proof -
  have "CHR ''?'' \<notin> set (pct_encode ''-_.'' account)"
    using pct_encode_chars [of "CHR ''?''" "''-_.''" account]
    by (auto simp: is_ascii_alphanumeric_def is_ascii_digit_def is_ascii_upper_def is_ascii_lower_def code_def)
  then have "CHR ''?'' \<notin> set (''otpauth://totp/webshell:'' @ pct_encode ''-_.'' account)" by simp
  from split_once_append [OF this] show ?thesis
    by (simp add: provisioning_uri_def pct_decode_encode)
qed

end
