(* ===== verification/Enrollment.thy ===== *)
theory Enrollment
  imports Ident Disk Contracts
    "HOL-Library.List_Lexorder" "HOL-Library.Char_ord"
begin

text \<open>
  Per-identity state the program maintains (\<open>src/src/enrollment.rs\<close>): the pinned issuer subject and the
  TOTP secret, with their file. As in \<open>Devices\<close>, \<open>ok\<close> is the outcome of the write an operation makes
  while it holds the lock; a failed write is the error \<open>()\<close> of the operation.
\<close>

record enrol_record =
  r_sub :: "string option"
  r_mfa_secret :: "string option"
  r_enrolled_at :: "nat option"

definition record_default :: enrol_record where
  "record_default = \<lparr>r_sub = None, r_mfa_secret = None, r_enrolled_at = None\<rparr>"

definition enrolled :: "enrol_record \<Rightarrow> bool" where
  "enrolled r \<longleftrightarrow> r_mfa_secret r \<noteq> None"

record enrol_store =
  es_map :: "(identity, enrol_record) hmap"
  es_disk :: "(identity \<times> enrol_record) list option"

definition enrol_order :: "(identity, enrol_record) hmap \<Rightarrow> (identity \<times> enrol_record) list" where
  "enrol_order m = sort_key (\<lambda>e. identity_str (fst e)) m"

definition enrol_write_file ::
  "((identity \<times> enrol_record) list \<Rightarrow> string option) \<Rightarrow> path \<Rightarrow> string \<Rightarrow> outcome list \<Rightarrow> bool
    \<Rightarrow> (identity, enrol_record) hmap \<Rightarrow> fs \<Rightarrow> bool \<times> fs list" where
  "enrol_write_file ser p rnd outs rm m fs =
    (case ser (enrol_order m) of
      None \<Rightarrow> (False, [fs])
    | Some body \<Rightarrow> write_atomic True p rnd body outs rm fs)"

definition enrol_write :: "bool \<Rightarrow> enrol_store \<Rightarrow> (unit + unit) \<times> enrol_store" where
  "enrol_write ok s =
    (if ok then (Inr (), s\<lparr>es_disk := Some (enrol_order (es_map s))\<rparr>) else (Inl (), s))"

definition enrol_load ::
  "('e + (identity \<times> enrol_record) list) option \<Rightarrow> 'e + (identity, enrol_record) hmap" where
  "enrol_load content =
    (case content of
      None \<Rightarrow> Inr []
    | Some (Inl e) \<Rightarrow> Inl e
    | Some (Inr es) \<Rightarrow> Inr (foldl (\<lambda>m (i, r). hm_insert i r m) [] es))"

definition enrol_get :: "identity \<Rightarrow> enrol_store \<Rightarrow> enrol_record option" where
  "enrol_get i s = hm_get (es_map s) i"

definition or_default :: "identity \<Rightarrow> enrol_store \<Rightarrow> enrol_record" where
  "or_default i s = (case hm_get (es_map s) i of None \<Rightarrow> record_default | Some r \<Rightarrow> r)"

definition pin_subject :: "identity \<Rightarrow> string \<Rightarrow> bool \<Rightarrow> enrol_store \<Rightarrow> (unit + bool) \<times> enrol_store" where
  "pin_subject i sub ok s =
    (let r = or_default i s;
         s1 = s\<lparr>es_map := hm_insert i r (es_map s)\<rparr>
     in case r_sub r of
       Some known \<Rightarrow> if known \<noteq> sub then (Inr False, s1) else (Inr True, s1)
     | None \<Rightarrow>
        (case enrol_write ok (s1\<lparr>es_map := hm_insert i (r\<lparr>r_sub := Some sub\<rparr>) (es_map s1)\<rparr>) of
          (Inl e, s2) \<Rightarrow> (Inl e, s2)
        | (Inr _, s2) \<Rightarrow> (Inr True, s2)))"

definition enroll :: "identity \<Rightarrow> string \<Rightarrow> nat \<Rightarrow> bool \<Rightarrow> enrol_store \<Rightarrow> (unit + unit) \<times> enrol_store" where
  "enroll i secret now ok s =
    (let r = or_default i s
     in enrol_write ok (s\<lparr>es_map := hm_insert i (r\<lparr>r_mfa_secret := Some secret, r_enrolled_at := Some now\<rparr>)
          (es_map s)\<rparr>))"

subsection \<open>Traces\<close>

datatype enrol_op = Pin identity string | Enroll identity string nat

fun enrol_step :: "enrol_op \<Rightarrow> bool \<Rightarrow> enrol_store \<Rightarrow> enrol_store" where
  "enrol_step (Pin i sub) ok s = snd (pin_subject i sub ok s)"
| "enrol_step (Enroll i secret now) ok s = snd (enroll i secret now ok s)"

definition enrol_run :: "(enrol_op \<times> bool) list \<Rightarrow> enrol_store \<Rightarrow> enrol_store" where
  "enrol_run ps s = foldl (\<lambda>s (p, ok). enrol_step p ok s) s ps"

lemmas enrol_ops = pin_subject_def enroll_def enrol_write_def or_default_def Let_def

lemma enrol_step_sub:
  "hm_get (es_map s) i = Some r \<Longrightarrow> r_sub r = Some sub \<Longrightarrow>
    \<exists>r'. hm_get (es_map (enrol_step p ok s)) i = Some r' \<and> r_sub r' = Some sub"
  by (cases p) (auto simp: enrol_ops hm.get_ins split: option.splits if_splits)

lemma enrol_run_sub:
  "hm_get (es_map s) i = Some r \<Longrightarrow> r_sub r = Some sub \<Longrightarrow>
    \<exists>r'. hm_get (es_map (enrol_run ps s)) i = Some r' \<and> r_sub r' = Some sub"
  unfolding enrol_run_def
proof (induction ps arbitrary: s r)
  case Nil
  then show ?case by simp
next
  case (Cons q ps)
  obtain p ok where q: "q = (p, ok)" by (cases q)
  obtain r' where "hm_get (es_map (enrol_step p ok s)) i = Some r'" "r_sub r' = Some sub"
    using enrol_step_sub [OF Cons.prems] by blast
  from Cons.IH [OF this] show ?case by (simp add: q)
qed

lemma pin_subject_pinned:
  assumes "fst (pin_subject i sub ok s) \<noteq> Inr False"
  shows "\<exists>r. hm_get (es_map (snd (pin_subject i sub ok s))) i = Some r \<and> r_sub r = Some sub"
  using assms by (auto simp: enrol_ops hm.get_ins split: option.splits if_splits)

lemma pin_subject_known:
  "hm_get (es_map s) i = Some r \<Longrightarrow> r_sub r = Some sub \<Longrightarrow> fst (pin_subject i sub' ok s) = Inr (sub' = sub)"
  by (auto simp: enrol_ops)

text \<open>C36: an identity belongs to the first account that signs in with it: once a login pinned the issuer's
  subject, every later login with the address, whatever was pinned or enrolled for anyone in
  between, is accepted exactly when the issuer names the same subject.\<close>

theorem pin_subject_sticky:
  assumes "fst (pin_subject i sub ok s) \<noteq> Inr False"
  shows "fst (pin_subject i sub' ok' (enrol_run ps (snd (pin_subject i sub ok s)))) = Inr (sub' = sub)"
proof -
  obtain r where "hm_get (es_map (snd (pin_subject i sub ok s))) i = Some r" "r_sub r = Some sub"
    using pin_subject_pinned [OF assms] by blast
  then obtain r' where
    "hm_get (es_map (enrol_run ps (snd (pin_subject i sub ok s)))) i = Some r'" "r_sub r' = Some sub"
    using enrol_run_sub by blast
  then show ?thesis by (rule pin_subject_known)
qed

definition enrol_new :: enrol_store where
  "enrol_new = \<lparr>es_map = [], es_disk = None\<rparr>"

definition toy_google :: identity where
  "toy_google = \<lparr>provider = Google, subject = ''a@b''\<rparr>"

theorem pin_subject_sticky_witness:
  "fst (pin_subject toy_google ''2'' True (enrol_run [(Enroll toy_google ''S'' 7, True)]
      (snd (pin_subject toy_google ''1'' True enrol_new)))) = Inr (''2'' = ''1'')"
  by (rule pin_subject_sticky) (simp add: enrol_ops enrol_new_def record_default_def)

text \<open>enrolling and pinning do not interfere: enrolling sets the secret and its time and keeps the pinned
  subject, pinning keeps the secret and its time, and neither changes another identity's record.\<close>

theorem enrol_ops_frame:
  "r_sub (or_default i (snd (enroll i secret now ok s))) = r_sub (or_default i s) \<and>
   r_mfa_secret (or_default i (snd (enroll i secret now ok s))) = Some secret \<and>
   r_enrolled_at (or_default i (snd (enroll i secret now ok s))) = Some now \<and>
   r_mfa_secret (or_default i (snd (pin_subject i sub ok s))) = r_mfa_secret (or_default i s) \<and>
   r_enrolled_at (or_default i (snd (pin_subject i sub ok s))) = r_enrolled_at (or_default i s) \<and>
   (j = i \<or> enrol_get j (snd (enroll i secret now ok s)) = enrol_get j s \<and>
            enrol_get j (snd (pin_subject i sub ok s)) = enrol_get j s)"
  by (auto simp: enrol_ops enrol_get_def hm.get_ins split: option.splits if_splits)

text \<open>an enrolment whose write fails is reported as an error, but it has taken effect: until the restart
  the identity is enrolled with that secret, and the file does not have it.\<close>

theorem failed_enroll_takes_effect:
  "fst (enroll i secret now False s) = Inl () \<and>
   map_option enrolled (enrol_get i (snd (enroll i secret now False s))) = Some True \<and>
   es_disk (snd (enroll i secret now False s)) = es_disk s"
  by (simp add: enrol_ops enrol_get_def enrolled_def)

subsection \<open>The file\<close>

definition enrol_disk :: "enrol_store \<Rightarrow> (identity \<times> enrol_record) list" where
  "enrol_disk s = (case es_disk s of None \<Rightarrow> [] | Some es \<Rightarrow> es)"

lemma hm_insert_id: "hm_get m k = Some v \<Longrightarrow> hm_insert k v m = m"
  unfolding hm_get_def hm_insert_def by (induction m) auto

interpretation enrol_file: durable es_map enrol_disk enrol_order enrol_step "\<lambda>s. hm_ok (es_map s)"
proof unfold_locales
  fix p ok and s :: enrol_store
  show "hm_ok (es_map (enrol_step p ok s))" if "hm_ok (es_map s)"
    using that by (cases p) (auto simp: enrol_ops hm.ok_ins split: option.splits)
  show "enrol_disk (enrol_step p False s) = enrol_disk s"
    by (cases p) (auto simp: enrol_ops enrol_disk_def split: option.splits)
  show "enrol_disk (enrol_step p True s) = enrol_order (es_map (enrol_step p True s))"
    if "enrol_disk s = enrol_order (es_map s)"
    using that
    by (cases p) (auto simp: enrol_ops enrol_disk_def hm_insert_id record_default_def split: option.splits)
qed

lemma enrol_load_get:
  "hm_get (foldl (\<lambda>m (i, r). hm_insert i r m) m es) k = map_of (rev es @ m) k"
proof (induction es arbitrary: m)
  case Nil
  then show ?case by (simp add: hm_get_def)
next
  case (Cons e es)
  have "map_of (hm_insert (fst e) (snd e) m) k' = map_of (e # m) k'" for k'
    using hm.get_ins [of "fst e" "snd e" m k'] by (cases e) (auto simp: hm_get_def)
  then show ?case
    using Cons.IH [of "hm_insert (fst e) (snd e) m"] by (auto simp: case_prod_beta map_add_def split: option.splits)
qed

text \<open>the enrolment file always holds what memory holds, when the writes succeeded: a restart loads every
  record, pinned subject and secret back as it was.\<close>

theorem enrol_restart_agrees:
  assumes "list_all snd ps"
    and "enrol_load (Some (Inr (enrol_disk (enrol_run ps enrol_new)))) = Inr m"
  shows "hm_get m i = enrol_get i (enrol_run ps enrol_new)"
proof -
  let ?s = "enrol_run ps enrol_new"
  have "hm_ok (es_map enrol_new)" "enrol_disk enrol_new = enrol_order (es_map enrol_new)"
    by (simp_all add: enrol_new_def enrol_disk_def enrol_order_def)
  from enrol_file.run_written [OF this assms(1)] enrol_file.run_inv [OF this(1)]
  have disk: "enrol_disk ?s = enrol_order (es_map ?s)" and ok: "hm_ok (es_map ?s)"
    by (simp_all add: enrol_run_def)
  have 1: "distinct (map fst (es_map ?s))" using ok by (simp add: hm_ok_def)
  then have 2: "distinct (map fst (rev (enrol_order (es_map ?s))))"
    by (simp add: enrol_order_def rev_map [symmetric] distinct_map)
  have "map_of (rev (enrol_order (es_map ?s))) = map_of (es_map ?s)"
    using map_of_inject_set [OF 2 1] by (simp add: enrol_order_def)
  moreover have "hm_get m i = map_of (rev (enrol_order (es_map ?s)) @ []) i"
    using assms(2) unfolding enrol_load_get [symmetric] by (simp add: enrol_load_def disk)
  ultimately show ?thesis by (simp add: enrol_get_def hm_get_def)
qed

theorem enrol_restart_agrees_witness:
  "let s = enrol_run [(Enroll toy_google ''S'' 7, True), (Pin toy_google ''1'', True)] enrol_new
   in \<exists>m. enrol_load (Some (Inr (enrol_disk s))) = (Inr m :: nat + (identity, enrol_record) hmap) \<and>
      hm_get m toy_google = Some \<lparr>r_sub = Some ''1'', r_mfa_secret = Some ''S'', r_enrolled_at = Some 7\<rparr>"
proof -
  let ?ps = "[(Enroll toy_google ''S'' 7, True), (Pin toy_google ''1'', True)]"
  obtain m where m: "enrol_load (Some (Inr (enrol_disk (enrol_run ?ps enrol_new))))
      = (Inr m :: nat + (identity, enrol_record) hmap)"
    by (simp add: enrol_load_def)
  have "hm_get m toy_google = enrol_get toy_google (enrol_run ?ps enrol_new)"
    by (rule enrol_restart_agrees [OF _ m]) simp
  then have "hm_get m toy_google = Some \<lparr>r_sub = Some ''1'', r_mfa_secret = Some ''S'', r_enrolled_at = Some 7\<rparr>"
    by (simp add: enrol_run_def enrol_ops enrol_get_def enrol_new_def record_default_def hm.get_ins)
  then show ?thesis using m by (auto simp: Let_def)
qed

lemma enrol_write_file_safe:
  "let (ok, seen) = enrol_write_file ser p rnd outs rm m fs
   in hm_get (last seen) p = (if ok then map_option (\<lambda>b. (b, True)) (ser (enrol_order m)) else hm_get fs p)"
  using write_atomic_cases [of True p rnd _ outs rm fs]
  by (auto simp: enrol_write_file_def split: option.splits prod.splits)

end
