(* ===== verification/Pages.thy ===== *)
theory Pages
  imports Config Sessions Totp Enrollment
begin

text \<open>
  What \<open>src/src/main.rs\<close> writes into pages and response headers, and what it reads from request headers:
  HTML escaping, the content security policy, the login and second factor pages, the origin check of
  WebSocket upgrades, the client's address and user agent.

  The page templates under \<open>src/static\<close> and the QR code library are parameters.
\<close>

subsection \<open>Request headers\<close>

text \<open>\<open>HeaderValue::to_str\<close> succeeds on visible ASCII and tabs.\<close>

type_synonym headers = "(string \<times> string) list"

definition visible :: "char \<Rightarrow> bool" where
  "visible c \<longleftrightarrow> code c = 9 \<or> (32 \<le> code c \<and> code c < 127)"

definition header :: "string \<Rightarrow> headers \<Rightarrow> string option" where
  "header n hs = Option.bind (map_of hs n) (\<lambda>v. if list_all visible v then Some v else None)"

definition header_str :: "headers \<Rightarrow> string \<Rightarrow> string" where
  "header_str hs n = (case header n hs of Some v \<Rightarrow> v | None \<Rightarrow> ''<none>'')"

definition client_ip :: "headers \<Rightarrow> string" where
  "client_ip hs =
    trim (case map_option (\<lambda>v. hd (split_on CHR '','' v)) (header ''x-forwarded-for'' hs) of
      Some v \<Rightarrow> v
    | None \<Rightarrow> (case header ''x-real-ip'' hs of Some v \<Rightarrow> v | None \<Rightarrow> []))"

definition user_agent :: "headers \<Rightarrow> string" where
  "user_agent hs = (case header ''user-agent'' hs of Some v \<Rightarrow> v | None \<Rightarrow> [])"

definition origin_allowed :: "config \<Rightarrow> headers \<Rightarrow> bool" where
  "origin_allowed cfg hs =
    (case header ''origin'' hs of
      None \<Rightarrow> False
    | Some origin \<Rightarrow>
        if list_ex (\<lambda>a. origin_matches a origin) (allowed_origins cfg) then True
        else if strict_origin cfg \<and> allowed_origins cfg \<noteq> [] then False
        else (case (nth_piece (split_str ''://'' origin) 1, header ''host'' hs) of
            (Some o', Some h) \<Rightarrow> o' = h
          | _ \<Rightarrow> False))"

subsection \<open>Escaping\<close>

definition sq :: char where "sq = CHR 0x27"
definition dq :: char where "dq = CHR 0x22"

definition html_escape :: "string \<Rightarrow> string" where
  "html_escape s =
    str_replace [sq] ''&#39;'' (str_replace [dq] ''&quot;'' (str_replace ''>'' ''&gt;''
      (str_replace ''<'' ''&lt;'' (str_replace ''&'' ''&amp;'' s))))"

text \<open>What a browser makes of the five entities.\<close>

definition entities :: "(string \<times> char) list" where
  "entities = [(''&amp;'', CHR ''&''), (''&lt;'', CHR ''<''), (''&gt;'', CHR ''>''), (''&quot;'', dq), (''&#39;'', sq)]"

function html_unescape :: "string \<Rightarrow> string" where
  "html_unescape [] = []"
| "html_unescape (c # cs) =
    (case find (\<lambda>(e, _). starts_with e (c # cs)) entities of
      Some (e, x) \<Rightarrow> x # html_unescape (drop (length e - 1) cs)
    | None \<Rightarrow> c # html_unescape cs)"
  by pat_completeness auto
termination by (relation "measure length") auto

definition escape_char :: "char \<Rightarrow> string" where
  "escape_char c =
    (if c = CHR ''&'' then ''&amp;'' else if c = CHR ''<'' then ''&lt;'' else if c = CHR ''>'' then ''&gt;''
     else if c = dq then ''&quot;'' else if c = sq then ''&#39;'' else [c])"

lemma html_escape_chars: "html_escape s = concat (map escape_char s)"
proof (induction s)
  case Nil
  then show ?case by (simp add: html_escape_def)
next
  case (Cons c s)
  then show ?case
    by (simp add: html_escape_def str_replace_char escape_char_def sq_def dq_def)
qed

lemma unescape_escape_char: "html_unescape (escape_char c @ s) = c # html_unescape s"
  by (simp add: escape_char_def entities_def starts_with_def sq_def dq_def split: option.split)

text \<open>C22: Escaped text can stand in markup and in attribute values: it holds none of the characters that end either,
  and a browser reads it back as exactly the original.\<close>

theorem html_escape_safe:
  "set (html_escape s) \<inter> {CHR ''<'', CHR ''>'', dq, sq} = {} \<and> html_unescape (html_escape s) = s"
proof
  have "set (escape_char c) \<inter> {CHR ''<'', CHR ''>'', dq, sq} = {}" for c
    by (simp add: escape_char_def sq_def dq_def)
  then show "set (html_escape s) \<inter> {CHR ''<'', CHR ''>'', dq, sq} = {}"
    by (auto simp: html_escape_chars)
  show "html_unescape (html_escape s) = s"
    unfolding html_escape_chars by (induction s) (simp_all add: unescape_escape_char)
qed

subsection \<open>Response headers\<close>

text \<open>Bytes: \<open>is_ascii_alphanumeric\<close> or one of the separators of a host and port.\<close>

definition host_char :: "char \<Rightarrow> bool" where
  "host_char c \<longleftrightarrow> is_ascii_alphanumeric c \<or> c \<in> {CHR ''.'', CHR ''-'', CHR '':'', CHR ''['', CHR '']''}"

definition ws_sources :: "headers \<Rightarrow> string" where
  "ws_sources hs =
    (case header ''host'' hs of
      None \<Rightarrow> []
    | Some host \<Rightarrow>
        if host \<noteq> [] \<and> length host \<le> 255 \<and> list_all host_char host
        then '' ws://'' @ host @ '' wss://'' @ host
        else [])"

definition quoted :: "string \<Rightarrow> string" where
  "quoted s = sq # s @ [sq]"

definition csp_header :: "string \<Rightarrow> string \<Rightarrow> string" where
  "csp_header nonce ws =
     ''default-src '' @ quoted ''none'' @
     ''; script-src '' @ quoted ''self'' @ '' '' @ quoted (''nonce-'' @ nonce) @
     ''; style-src '' @ quoted ''self'' @ '' '' @ quoted ''unsafe-inline'' @
     ''; img-src '' @ quoted ''self'' @ '' data:'' @
     ''; font-src '' @ quoted ''self'' @
     ''; connect-src '' @ quoted ''self'' @ ws @
     ''; form-action '' @ quoted ''self'' @ '' https://accounts.google.com'' @
     ''; base-uri '' @ quoted ''none'' @
     ''; frame-ancestors '' @ quoted ''none''"

definition html_headers :: "string \<Rightarrow> bool \<Rightarrow> headers \<Rightarrow> headers" where
  "html_headers nonce no_store req =
    [(''content-security-policy'', csp_header nonce (ws_sources req)),
     (''x-content-type-options'', ''nosniff''),
     (''x-frame-options'', ''DENY''),
     (''referrer-policy'', ''no-referrer''),
     (''cache-control'', if no_store then ''no-store'' else ''no-cache'')]"

lemma ws_sources_chars:
  "set (ws_sources hs) \<subseteq> {c. host_char c} \<union> {CHR '' '', CHR ''/''}"
proof -
  have letters: "host_char (CHR ''w'')" "host_char (CHR ''s'')" "host_char (CHR '':'')"
    by (simp_all add: host_char_def is_ascii_alphanumeric_def is_ascii_digit_def is_ascii_lower_def is_ascii_upper_def code_def)
  then show ?thesis
    by (auto simp: ws_sources_def list_all_iff split: option.splits if_splits)
qed

lemma split_on_join:
  "ps \<noteq> [] \<Longrightarrow> list_all (\<lambda>p. c \<notin> set p) ps \<Longrightarrow> split_on c (join [c] ps) = ps"
proof (induction "[c]" ps rule: join.induct)
  case (3 w v ws)
  then show ?case by (simp add: split_on_append)
qed (simp_all add: split_on_free)

text \<open>No header of a request reaches the policy as anything but a WebSocket source: for a nonce in the alphabet of
  \<open>random_token\<close> the policy is always these nine directives, only \<open>connect-src\<close> varying, and holds no
  line break.\<close>

theorem csp_no_injection:
  assumes "list_all (\<lambda>c. is_ascii_alphanumeric c \<or> c \<in> {CHR ''-'', CHR ''_''}) nonce"
  shows "split_on CHR '';'' (csp_header nonce (ws_sources hs)) =
     [''default-src '' @ quoted ''none'',
      '' script-src '' @ quoted ''self'' @ '' '' @ quoted (''nonce-'' @ nonce),
      '' style-src '' @ quoted ''self'' @ '' '' @ quoted ''unsafe-inline'',
      '' img-src '' @ quoted ''self'' @ '' data:'',
      '' font-src '' @ quoted ''self'',
      '' connect-src '' @ quoted ''self'' @ ws_sources hs,
      '' form-action '' @ quoted ''self'' @ '' https://accounts.google.com'',
      '' base-uri '' @ quoted ''none'',
      '' frame-ancestors '' @ quoted ''none''] \<and>
    list_all (\<lambda>c. 32 \<le> code c \<and> code c < 127) (csp_header nonce (ws_sources hs))"
proof -
  have host: "32 \<le> code c \<and> code c < 127 \<and> c \<noteq> CHR '';''" if "host_char c" for c
    using that by (auto simp: host_char_def char_class_defs)
  then have ws: "list_all (\<lambda>c. 32 \<le> code c \<and> code c < 127 \<and> c \<noteq> CHR '';'') (ws_sources hs)"
    using ws_sources_chars [of hs] by (auto simp: list_all_iff code_def)
  have nonce: "list_all (\<lambda>c. 32 \<le> code c \<and> code c < 127 \<and> c \<noteq> CHR '';'') nonce"
    using assms by (auto simp: list_all_iff char_class_defs)
  have free: "CHR '';'' \<notin> set (ws_sources hs)" "CHR '';'' \<notin> set nonce"
    using ws nonce by (auto simp: list_all_iff)
  let ?ps = "[''default-src '' @ quoted ''none'',
      '' script-src '' @ quoted ''self'' @ '' '' @ quoted (''nonce-'' @ nonce),
      '' style-src '' @ quoted ''self'' @ '' '' @ quoted ''unsafe-inline'',
      '' img-src '' @ quoted ''self'' @ '' data:'',
      '' font-src '' @ quoted ''self'',
      '' connect-src '' @ quoted ''self'' @ ws_sources hs,
      '' form-action '' @ quoted ''self'' @ '' https://accounts.google.com'',
      '' base-uri '' @ quoted ''none'',
      '' frame-ancestors '' @ quoted ''none'']"
  have "csp_header nonce (ws_sources hs) = join '';'' ?ps" by (simp add: csp_header_def)
  moreover have "split_on CHR '';'' (join '';'' ?ps) = ?ps"
    using free by (intro split_on_join) (auto simp: quoted_def sq_def)
  ultimately have "split_on CHR '';'' (csp_header nonce (ws_sources hs)) = ?ps" by simp
  moreover have "list_all (\<lambda>c. 32 \<le> code c \<and> code c < 127) (csp_header nonce (ws_sources hs))"
    using ws nonce by (simp add: csp_header_def quoted_def sq_def code_def list_all_iff ball_Un)
  ultimately show ?thesis by blast
qed

theorem csp_no_injection_witness:
  "length (split_on CHR '';'' (csp_header ''aZ0-_'' (ws_sources [(''host'', ''x; script-src *'')]))) = 9"
proof -
  have "list_all (\<lambda>c. is_ascii_alphanumeric c \<or> c \<in> {CHR ''-'', CHR ''_''}) ''aZ0-_''"
    by (simp add: char_class_defs)
  from csp_no_injection [OF this] show ?thesis by simp
qed

subsection \<open>Pages\<close>

text \<open>The embedded templates, and \<open>totp::qr_svg\<close>.\<close>

record assets =
  as_login :: string
  as_mfa_verify :: string
  as_mfa :: string
  as_terminal :: string
  as_access :: string
  as_qr_svg :: "string \<Rightarrow> string option"

definition attr :: "string \<Rightarrow> string \<Rightarrow> string" where
  "attr n v = CHR '' '' # n @ CHR ''='' # dq # v @ [dq]"

definition csrf_field :: "string \<Rightarrow> string" where
  "csrf_field csrf =
     ''<input'' @ attr ''type'' ''hidden'' @ attr ''name'' ''csrf'' @ attr ''value'' (html_escape csrf) @ '' />''"

definition local_form :: "string \<Rightarrow> string" where
  "local_form csrf =
     ''<form'' @ attr ''method'' ''post'' @ attr ''action'' ''/webshell/login/local'' @ attr ''autocomplete'' ''off'' @ ''>'' @
     ''<label'' @ attr ''for'' ''username'' @ ''>Username</label>'' @
     ''<input'' @ attr ''id'' ''username'' @ attr ''name'' ''username'' @ attr ''autocomplete'' ''username'' @
       '' autofocus required />'' @
     ''<label'' @ attr ''for'' ''password'' @ ''>Password</label>'' @
     ''<input'' @ attr ''id'' ''password'' @ attr ''name'' ''password'' @ attr ''type'' ''password'' @
       attr ''autocomplete'' ''current-password'' @ '' required />'' @
     csrf_field csrf @ ''<button'' @ attr ''type'' ''submit'' @ ''>Sign in</button></form>''"

definition google_form :: "string \<Rightarrow> string" where
  "google_form csrf =
     ''<form'' @ attr ''method'' ''post'' @ attr ''action'' ''/webshell/oauth/start'' @ ''>'' @ csrf_field csrf @
     ''<button'' @ attr ''class'' ''google'' @ attr ''type'' ''submit'' @ ''>'' @
     ''<span'' @ attr ''class'' ''g'' @ ''>G</span> Continue with Google</button></form>''"

definition render_login :: "assets \<Rightarrow> config \<Rightarrow> string \<Rightarrow> string \<Rightarrow> string \<Rightarrow> string" where
  "render_login as cfg csrf nonce error_html =
    (let has_local = local_usable cfg; has_google = google_usable cfg;
         divider = (if has_local \<and> has_google then ''<p'' @ attr ''class'' ''or'' @ ''>or</p>'' else [])
     in str_replace ''<!--ERROR-->'' error_html
         (str_replace ''{{NONCE}}'' (html_escape nonce)
           (str_replace ''<!--OR-->'' divider
             (str_replace ''<!--GOOGLEFORM-->'' (if has_google then google_form csrf else [])
               (str_replace ''<!--LOCALFORM-->'' (if has_local then local_form csrf else []) (as_login as))))))"

definition error_paragraph :: "string \<Rightarrow> string" where
  "error_paragraph message = ''<p'' @ attr ''class'' ''error'' @ ''>'' @ message @ ''</p>''"

definition remember_box :: "config \<Rightarrow> string" where
  "remember_box cfg =
    (if remember_device cfg then
       ''<div'' @ attr ''class'' ''remember'' @ ''>'' @
       ''<input'' @ attr ''type'' ''checkbox'' @ attr ''id'' ''remember'' @ attr ''name'' ''remember'' @ attr ''value'' ''1'' @ '' />'' @
       ''<label'' @ attr ''for'' ''remember'' @ ''>Remember this device for '' @
       show_nat (remember_device_window cfg div 86400) @ '' days'' @
       ''<span'' @ attr ''class'' ''hint'' @ ''>You will still enter your password. '' @
       ''Only do this on a device you control.</span></label></div>''
     else [])"

definition devices_button :: "config \<Rightarrow> string" where
  "devices_button cfg =
    (if remember_device cfg then
       ''<button'' @ attr ''class'' ''action'' @ attr ''id'' ''devices'' @
       attr ''title'' ''Browsers that skip the authenticator code'' @ ''>devices</button>''
     else [])"

definition terminal_html :: "assets \<Rightarrow> config \<Rightarrow> session \<Rightarrow> string \<Rightarrow> string" where
  "terminal_html as cfg s nonce =
     str_replace ''{{NONCE}}'' (html_escape nonce)
       (str_replace ''<!--DEVICESBTN-->'' (devices_button cfg)
         (str_replace ''{{SLOTS}}'' (show_nat (slots_per_user cfg))
           (str_replace ''{{USER}}'' (html_escape (s_username s))
             (str_replace ''{{CSRF}}'' (html_escape (s_csrf s)) (as_terminal as)))))"

definition share_url :: "config \<Rightarrow> string \<Rightarrow> string" where
  "share_url cfg token =
    (let path = ''/webshell/public/access?token='' @ token
     in case public_base_url cfg of Some b \<Rightarrow> b @ path | None \<Rightarrow> path)"

end
