(* ===== verification/Devices.thy ===== *)
theory Devices
  imports Ident Share Disk
    "HOL-Library.List_Lexorder" "HOL-Library.Char_ord" "HOL-Library.Product_Lexorder"
begin

text \<open>
  Trusted devices (\<open>src/src/devices.rs\<close>): the records that let a browser skip the second factor for a
  bounded window, their file, minting with eviction, authorisation and the revocations.

  The store is the map with the list of records its file holds (\<open>None\<close>: no file). Every operation
  holds the lock across its write, so both move in one step; \<open>ok\<close> is the outcome of that write
  (theory \<open>Disk\<close>: a failed write leaves the old file). \<open>th\<close> is the hash of a token
  (base64 of SHA-256), a parameter.
\<close>

record device =
  d_id :: string
  d_identity :: identity
  d_token_hash :: string
  d_created_at :: nat
  d_expires_at :: nat
  d_last_used_at :: nat
  d_enrolled_at :: nat
  d_user_agent :: string
  d_created_ip :: string
  d_last_ip :: string

record client =
  c_user_agent :: string
  c_ip :: string

record device_store =
  ds_map :: "(string, device) hmap"
  ds_disk :: "device list option"

definition device_expired :: "device \<Rightarrow> nat \<Rightarrow> bool" where
  "device_expired d now \<longleftrightarrow> now \<ge> d_expires_at d"

definition display_text :: "string \<Rightarrow> string" where
  "display_text raw = sanitize_note raw"

subsection \<open>The file\<close>

definition device_order :: "(string, device) hmap \<Rightarrow> device list" where
  "device_order m = sort_key (\<lambda>d. (identity_str (d_identity d), d_id d)) (hm_values m)"

text \<open>\<open>ser\<close> is the TOML serializer; the other parameters are those of \<open>write_atomic\<close>.\<close>

definition device_write_file ::
  "(device list \<Rightarrow> string option) \<Rightarrow> bool \<Rightarrow> path \<Rightarrow> string \<Rightarrow> outcome list \<Rightarrow> bool
    \<Rightarrow> (string, device) hmap \<Rightarrow> fs \<Rightarrow> bool \<times> fs list" where
  "device_write_file ser mk p rnd outs rm m fs =
    (case ser (device_order m) of
      None \<Rightarrow> (False, [fs])
    | Some body \<Rightarrow> write_atomic mk p rnd body outs rm fs)"

definition device_write :: "bool \<Rightarrow> device_store \<Rightarrow> device_store" where
  "device_write ok s = (if ok then s\<lparr>ds_disk := Some (device_order (ds_map s))\<rparr> else s)"

text \<open>\<open>content\<close> is what reading and parsing the file gives, \<open>None\<close> when there is no file.\<close>

definition device_load :: "('e + device list) option \<Rightarrow> nat \<Rightarrow> 'e + (string, device) hmap" where
  "device_load content now =
    (case content of
      None \<Rightarrow> Inr []
    | Some (Inl e) \<Rightarrow> Inl e
    | Some (Inr ds) \<Rightarrow> Inr (foldl (\<lambda>m d. hm_insert (d_token_hash d) d m) []
        (filter (\<lambda>d. \<not> device_expired d now) ds)))"

subsection \<open>Operations\<close>

definition mint_victims :: "identity \<Rightarrow> nat \<Rightarrow> (string, device) hmap \<Rightarrow> string list" where
  "mint_victims ident cap m =
    (let mine = map (\<lambda>(k, d). (k, d_last_used_at d)) (filter (\<lambda>(_, d). d_identity d = ident) m)
     in if length mine \<ge> max cap 1
        then map fst (take (length mine + 1 - max cap 1) (sort_key snd mine)) else [])"

definition device_mint ::
  "(string \<Rightarrow> string) \<Rightarrow> identity \<Rightarrow> nat \<Rightarrow> nat \<Rightarrow> nat \<Rightarrow> client \<Rightarrow> nat \<Rightarrow> string \<Rightarrow> string \<Rightarrow> bool
    \<Rightarrow> device_store \<Rightarrow> (string \<times> string) option \<times> device_store" where
  "device_mint th ident enrolled window cap cl now token did ok s =
    (let d = \<lparr>d_id = did, d_identity = ident, d_token_hash = th token, d_created_at = now,
              d_expires_at = sat_add64 now window, d_last_used_at = now, d_enrolled_at = enrolled,
              d_user_agent = display_text (c_user_agent cl), d_created_ip = display_text (c_ip cl),
              d_last_ip = display_text (c_ip cl)\<rparr>;
         key = d_token_hash d;
         m1 = hm_retain (\<lambda>d. \<not> device_expired d now) (ds_map s);
         m2 = foldl (\<lambda>m k. hm_remove k m) m1 (mint_victims ident cap m1);
         s3 = device_write ok (s\<lparr>ds_map := hm_insert key d m2\<rparr>)
     in if \<not> ok then (None, s3\<lparr>ds_map := hm_remove key (ds_map s3)\<rparr>)
        else (Some (token, did), s3))"

definition device_authorize ::
  "(string \<Rightarrow> string) \<Rightarrow> string \<Rightarrow> identity \<Rightarrow> nat \<Rightarrow> client \<Rightarrow> nat \<Rightarrow> bool
    \<Rightarrow> device_store \<Rightarrow> string option \<times> device_store" where
  "device_authorize th token ident enrolled cl now ok s =
    (case hm_get (ds_map s) (th token) of
      None \<Rightarrow> (None, s)
    | Some d \<Rightarrow>
        if d_identity d \<noteq> ident \<or> device_expired d now \<or> d_enrolled_at d \<noteq> enrolled then (None, s)
        else
          let d' = d\<lparr>d_last_used_at := now, d_last_ip := display_text (c_ip cl),
                     d_user_agent := display_text (c_user_agent cl)\<rparr>
          in (Some (d_id d'), device_write ok (s\<lparr>ds_map := hm_insert (th token) d' (ds_map s)\<rparr>)))"

definition device_list :: "identity \<Rightarrow> nat \<Rightarrow> nat \<Rightarrow> device_store \<Rightarrow> device list" where
  "device_list ident enrolled now s =
    sort_key (\<lambda>d. (- int (d_created_at d), d_id d))
      (filter (\<lambda>d. d_identity d = ident \<and> \<not> device_expired d now \<and> d_enrolled_at d = enrolled)
        (hm_values (ds_map s)))"

definition device_id_for_token :: "(string \<Rightarrow> string) \<Rightarrow> string \<Rightarrow> device_store \<Rightarrow> string option" where
  "device_id_for_token th token s = map_option d_id (hm_get (ds_map s) (th token))"

definition device_revoke :: "identity \<Rightarrow> string \<Rightarrow> bool \<Rightarrow> device_store \<Rightarrow> bool \<times> device_store" where
  "device_revoke ident did ok s =
    (case find (\<lambda>(_, d). d_id d = did \<and> d_identity d = ident) (ds_map s) of
      None \<Rightarrow> (False, s)
    | Some (key, _) \<Rightarrow> (True, device_write ok (s\<lparr>ds_map := hm_remove key (ds_map s)\<rparr>)))"

definition device_revoke_all :: "identity \<Rightarrow> bool \<Rightarrow> device_store \<Rightarrow> nat \<times> device_store" where
  "device_revoke_all ident ok s =
    (let m' = hm_retain (\<lambda>d. d_identity d \<noteq> ident) (ds_map s);
         removed = length (ds_map s) - length m'
     in (removed, if removed > 0 then device_write ok (s\<lparr>ds_map := m'\<rparr>) else s\<lparr>ds_map := m'\<rparr>))"

definition device_revoke_token ::
  "(string \<Rightarrow> string) \<Rightarrow> string \<Rightarrow> bool \<Rightarrow> device_store \<Rightarrow> string option \<times> device_store" where
  "device_revoke_token th token ok s =
    (case hm_get (ds_map s) (th token) of
      None \<Rightarrow> (None, s)
    | Some d \<Rightarrow> (Some (d_id d), device_write ok (s\<lparr>ds_map := hm_remove (th token) (ds_map s)\<rparr>)))"

definition device_forget_if_owned ::
  "(string \<Rightarrow> string) \<Rightarrow> string \<Rightarrow> identity \<Rightarrow> bool \<Rightarrow> device_store \<Rightarrow> string option \<times> device_store" where
  "device_forget_if_owned th token ident ok s =
    (case hm_get (ds_map s) (th token) of
      None \<Rightarrow> (None, s)
    | Some d \<Rightarrow> if d_identity d \<noteq> ident then (None, s)
        else (Some (d_id d), device_write ok (s\<lparr>ds_map := hm_remove (th token) (ds_map s)\<rparr>)))"

definition device_sweep :: "nat \<Rightarrow> bool \<Rightarrow> device_store \<Rightarrow> nat \<times> device_store" where
  "device_sweep now ok s =
    (let m' = hm_retain (\<lambda>d. \<not> device_expired d now) (ds_map s);
         removed = length (ds_map s) - length m'
     in (removed, if removed > 0 then device_write ok (s\<lparr>ds_map := m'\<rparr>) else s\<lparr>ds_map := m'\<rparr>))"

subsection \<open>Invariant, steps and traces\<close>

definition devices_ok :: "device_store \<Rightarrow> bool" where
  "devices_ok s \<longleftrightarrow> hm_ok (ds_map s) \<and> (\<forall>k d. hm_get (ds_map s) k = Some d \<longrightarrow> d_token_hash d = k)"

datatype device_op =
    Mint identity nat nat nat client nat string string
  | Authorize string identity nat client nat
  | Revoke_id identity string
  | Revoke_all identity
  | Revoke_token string
  | Forget string identity
  | Sweep_devices nat

fun device_step :: "(string \<Rightarrow> string) \<Rightarrow> device_op \<Rightarrow> bool \<Rightarrow> device_store \<Rightarrow> device_store" where
  "device_step th (Mint ident enrolled window cap cl now token did) ok s =
     snd (device_mint th ident enrolled window cap cl now token did ok s)"
| "device_step th (Authorize token ident enrolled cl now) ok s =
     snd (device_authorize th token ident enrolled cl now ok s)"
| "device_step th (Revoke_id ident did) ok s = snd (device_revoke ident did ok s)"
| "device_step th (Revoke_all ident) ok s = snd (device_revoke_all ident ok s)"
| "device_step th (Revoke_token token) ok s = snd (device_revoke_token th token ok s)"
| "device_step th (Forget token ident) ok s = snd (device_forget_if_owned th token ident ok s)"
| "device_step th (Sweep_devices now) ok s = snd (device_sweep now ok s)"

definition device_run ::
  "(string \<Rightarrow> string) \<Rightarrow> (device_op \<times> bool) list \<Rightarrow> device_store \<Rightarrow> device_store" where
  "device_run th ps s = foldl (\<lambda>s (p, ok). device_step th p ok s) s ps"

lemma device_write_map [simp]: "ds_map (device_write ok s) = ds_map s"
  by (simp add: device_write_def)

lemma hm_remove_all_ok: "hm_ok m \<Longrightarrow> hm_ok (foldl (\<lambda>m k. hm_remove k m) m ks)"
  by (induction ks arbitrary: m) (auto simp: hm.ok_rem)

lemma hm_remove_all_get:
  "hm_get (foldl (\<lambda>m k. hm_remove k m) m ks) k = (if k \<in> set ks then None else hm_get m k)"
  by (induction ks arbitrary: m) (auto simp: hm.get_rem)

lemma hm_ok_find:
  assumes "hm_ok m" "find P m = Some (k, d)"
  shows "hm_get m k = Some d \<and> P (k, d)"
  using assms by (auto simp: find_Some_iff hm_get_mem in_set_conv_nth)

lemmas device_ops = device_mint_def device_authorize_def device_revoke_def device_revoke_all_def
  device_revoke_token_def device_forget_if_owned_def device_sweep_def

lemma devices_okI:
  "hm_ok (ds_map s) \<Longrightarrow> (\<And>k d. hm_get (ds_map s) k = Some d \<Longrightarrow> d_token_hash d = k) \<Longrightarrow> devices_ok s"
  by (simp add: devices_ok_def)

lemma device_step_ok: "devices_ok s \<Longrightarrow> devices_ok (device_step th p ok s)"
  unfolding devices_ok_def
  by (cases p) (auto simp: device_ops Let_def hm_laws hm_remove_all_ok hm_remove_all_get
      split: option.splits if_splits)

lemma device_run_ok: "devices_ok s \<Longrightarrow> devices_ok (device_run th ps s)"
  unfolding device_run_def by (induction ps arbitrary: s) (auto intro: device_step_ok)

text \<open>The facts about a record that no use of it changes.\<close>

definition same_trust :: "device \<Rightarrow> device \<Rightarrow> bool" where
  "same_trust d d' \<longleftrightarrow> d_id d = d_id d' \<and> d_identity d = d_identity d' \<and> d_token_hash d = d_token_hash d' \<and>
     d_created_at d = d_created_at d' \<and> d_expires_at d = d_expires_at d' \<and> d_enrolled_at d = d_enrolled_at d'"

lemma same_trust_refl [simp]: "same_trust d d"
  by (simp add: same_trust_def)

lemma same_trust_trans: "same_trust d e \<Longrightarrow> same_trust e f \<Longrightarrow> same_trust d f"
  by (simp add: same_trust_def)

text \<open>\<open>kills p k d\<close>: the operation withdraws the trust of record \<open>d\<close>, stored under \<open>k\<close>, by name.\<close>

definition kills :: "(string \<Rightarrow> string) \<Rightarrow> device_op \<Rightarrow> string \<Rightarrow> identity \<Rightarrow> bool" where
  "kills th p k ident \<longleftrightarrow>
    (case p of Revoke_all i \<Rightarrow> i = ident | Revoke_token t \<Rightarrow> th t = k
     | Forget t i \<Rightarrow> th t = k \<and> i = ident | _ \<Rightarrow> False)"

lemma device_step_get:
  assumes "devices_ok s" and "hm_get (ds_map (device_step th p ok s)) k = Some d"
  obtains (kept) d0 where "hm_get (ds_map s) k = Some d0" "same_trust d0 d" "\<not> kills th p k (d_identity d)"
  | (made) window cap cl now token where "ok" "k = th token" "d_token_hash d = th token"
      "p = Mint (d_identity d) (d_enrolled_at d) window cap cl now token (d_id d)"
      "d_created_at d = now" "d_expires_at d = sat_add64 now window"
proof (cases p)
  case (Mint ident enrolled window cap cl now token did)
  show thesis
  proof (cases "k = th token")
    case True
    then have "ok" using assms(2) Mint by (auto simp: device_ops Let_def hm_laws split: if_splits)
    with True assms(2) Mint show thesis
      by (intro made) (auto simp: device_ops Let_def hm_laws)
  next
    case False
    then have "hm_get (ds_map s) k = Some d"
      using assms Mint
      by (auto simp: device_ops devices_ok_def Let_def hm_laws hm_remove_all_get
          split: if_splits option.splits)
    then show thesis using Mint by (intro kept) (auto simp: kills_def)
  qed
next
  case (Authorize token ident enrolled cl now)
  then show thesis
    using assms kept
    by (fastforce simp: device_ops kills_def same_trust_def Let_def hm_laws split: option.splits if_splits)
next
  case (Revoke_id ident did)
  then show thesis
    using assms kept
    by (fastforce simp: device_ops kills_def hm_laws split: option.splits if_splits)
next
  case (Revoke_all ident)
  then show thesis
    using assms kept
    by (fastforce simp: device_ops devices_ok_def kills_def Let_def hm_laws split: option.splits if_splits)
next
  case (Revoke_token token)
  then show thesis
    using assms kept
    by (fastforce simp: device_ops kills_def hm_laws split: option.splits if_splits)
next
  case (Forget token ident)
  then show thesis
    using assms kept
    by (fastforce simp: device_ops kills_def hm_laws split: option.splits if_splits)
next
  case (Sweep_devices now)
  then show thesis
    using assms kept
    by (fastforce simp: device_ops devices_ok_def kills_def Let_def hm_laws split: option.splits if_splits)
qed

lemma device_run_get:
  assumes "devices_ok s" "hm_get (ds_map (device_run th ps s)) k = Some d" "hm_get (ds_map s) k = None"
  shows "\<exists>pre post window cap cl now token.
    ps = pre @ (Mint (d_identity d) (d_enrolled_at d) window cap cl now token (d_id d), True) # post \<and>
    k = th token \<and> d_expires_at d = sat_add64 now window \<and>
    list_all (\<lambda>(p, _). \<not> kills th p k (d_identity d)) post"
  using assms(2)
proof (induction ps arbitrary: d rule: rev_induct)
  case Nil
  then show ?case using assms(3) by (simp add: device_run_def)
next
  case (snoc q ps)
  obtain p ok where q: "q = (p, ok)" by (cases q)
  have last: "hm_get (ds_map (device_step th p ok (device_run th ps s))) k = Some d"
    using snoc.prems by (simp add: device_run_def q)
  from device_run_ok [OF assms(1)] last show ?case
  proof (cases rule: device_step_get)
    case (kept d0)
    from snoc.IH [OF kept(1)] kept(2) obtain pre post window cap cl now token where
      "ps = pre @ (Mint (d_identity d) (d_enrolled_at d) window cap cl now token (d_id d), True) # post"
      "k = th token" "d_expires_at d = sat_add64 now window"
      "list_all (\<lambda>(p, _). \<not> kills th p k (d_identity d)) post"
      by (auto simp: same_trust_def)
    then show ?thesis using kept(3) q
      by (intro exI [of _ pre] exI [of _ "post @ [q]"] exI [of _ window] exI [of _ cap]
          exI [of _ cl] exI [of _ now] exI [of _ token]) auto
  next
    case (made window cap cl now token)
    then show ?thesis using q
      by (intro exI [of _ ps] exI [of _ "[]"] exI [of _ window] exI [of _ cap]
          exI [of _ cl] exI [of _ now] exI [of _ token]) auto
  qed
qed

definition device_new :: device_store where
  "device_new = \<lparr>ds_map = [], ds_disk = None\<rparr>"

lemma device_new_ok [simp]: "devices_ok device_new"
  by (simp add: devices_ok_def device_new_def)

text \<open>C21: skipping the second factor needs a record of trust: a cookie is only authorised for an identity if
  a browser was trusted under the same token hash for that identity, against the same enrolment of
  its authenticator, less than the window ago, and neither the identity's devices nor that token
  were revoked since. Using a device never prolongs its window.\<close>

theorem device_authorize_needs_mint:
  assumes "fst (device_authorize th token ident enrolled cl now ok (device_run th ps device_new)) = Some did"
  shows "\<exists>pre post window cap cl' t0 token'.
    ps = pre @ (Mint ident enrolled window cap cl' t0 token' did, True) # post \<and>
    th token = th token' \<and> now < t0 + window \<and>
    list_all (\<lambda>(p, _). \<not> kills th p (th token) ident) post"
proof -
  obtain d where d: "hm_get (ds_map (device_run th ps device_new)) (th token) = Some d"
    "d_identity d = ident" "now < d_expires_at d" "d_enrolled_at d = enrolled" "d_id d = did"
    using assms by (auto simp: device_authorize_def device_expired_def split: option.splits if_splits)
  have "hm_get (ds_map device_new) (th token) = None" by (simp add: device_new_def)
  from device_run_get [OF device_new_ok d(1) this, unfolded d(2,4,5)]
  obtain pre post window cap cl' t0 token' where
    "ps = pre @ (Mint ident enrolled window cap cl' t0 token' did, True) # post"
    "th token = th token'" "d_expires_at d = sat_add64 t0 window"
    "list_all (\<lambda>(p, _). \<not> kills th p (th token) ident) post" by blast
  moreover have "sat_add64 t0 window \<le> t0 + window" by (rule sat_add64_le)
  ultimately show ?thesis using d(3) by (metis order_less_le_trans)
qed

text \<open>The converse, step by step: exactly the four conditions decide, and what changes is the display
  data and the time of last use of that one record.\<close>

text \<open>a cookie is authorised exactly when its record exists, belongs to the identity, has not expired and
  was made against the current enrolment; every other record stays as it was, and neither the owner,
  the public id, the expiry nor the enrolment of this one changes.\<close>

theorem device_authorize_spec:
  "(fst (device_authorize th token ident enrolled cl now ok s) = Some did \<longleftrightarrow>
     (case hm_get (ds_map s) (th token) of None \<Rightarrow> False
      | Some d \<Rightarrow> d_identity d = ident \<and> now < d_expires_at d \<and> d_enrolled_at d = enrolled \<and> d_id d = did)) \<and>
   (case (hm_get (ds_map s) k, hm_get (ds_map (snd (device_authorize th token ident enrolled cl now ok s))) k) of
      (None, None) \<Rightarrow> True
    | (Some d, Some d') \<Rightarrow> same_trust d d' \<and> (k = th token \<or> d' = d)
    | _ \<Rightarrow> False)"
  by (auto simp: device_authorize_def device_expired_def same_trust_def hm.get_ins Let_def
      split: option.splits if_splits)

subsection \<open>The contracts\<close>

interpretation devices: expiring "\<lambda>t d. device_expired d t"
  "\<lambda>t m. ds_map (snd (device_sweep t True \<lparr>ds_map = m, ds_disk = None\<rparr>))"
  by unfold_locales (auto simp: device_sweep_def device_expired_def Let_def hm_laws split: option.splits)

lemma device_revoke_find:
  assumes "devices_ok s" "find (\<lambda>(_, d). d_id d = did \<and> d_identity d = ident) (ds_map s) = Some (k, d)"
  shows "hm_get (ds_map s) k = Some d \<and> d_identity d = ident \<and> d_id d = did"
  using hm_ok_find [OF _ assms(2)] assms(1) by (simp add: devices_ok_def)

lemma device_revoke_none:
  assumes "devices_ok s" "find (\<lambda>(_, d). d_id d = did \<and> d_identity d = ident) (ds_map s) = None"
    "hm_get (ds_map s) k = Some d" "d_identity d = ident"
  shows "d_id d \<noteq> did"
  using assms hm_get_mem [of "ds_map s" k d] by (auto simp: find_None_iff devices_ok_def)

lemma device_revoke_True:
  assumes "devices_ok s" "device_revoke ident did ok s = (True, s')"
  shows "\<exists>k d. hm_get (ds_map s) k = Some d \<and> d_identity d = ident \<and> d_id d = did \<and>
    ds_map s' = hm_remove k (ds_map s)"
proof -
  obtain k d where f: "find (\<lambda>(_, d). d_id d = did \<and> d_identity d = ident) (ds_map s) = Some (k, d)"
    using assms(2) by (auto simp: device_revoke_def split: option.splits)
  then have "ds_map s' = hm_remove k (ds_map s)"
    using assms(2) by (auto simp: device_revoke_def)
  with device_revoke_find [OF assms(1) f] show ?thesis by blast
qed

lemma device_revoke_False:
  assumes "devices_ok s" "device_revoke ident did ok s = (False, s')"
  shows "s' = s" and "hm_get (ds_map s) k = Some d \<Longrightarrow> d_identity d = ident \<Longrightarrow> d_id d \<noteq> did"
proof -
  have "s' = s \<and> find (\<lambda>(_, d). d_id d = did \<and> d_identity d = ident) (ds_map s) = None"
    using assms(2) by (simp add: device_revoke_def split: option.splits prod.splits)
  then show "s' = s" and "hm_get (ds_map s) k = Some d \<Longrightarrow> d_identity d = ident \<Longrightarrow> d_id d \<noteq> did"
    using device_revoke_none [OF assms(1)] by auto
qed

definition device_revoke_map ::
  "identity \<Rightarrow> string \<Rightarrow> (string, device) hmap \<Rightarrow> bool \<times> (string, device) hmap" where
  "device_revoke_map ident did m = map_prod id ds_map (device_revoke ident did True \<lparr>ds_map = m, ds_disk = None\<rparr>)"

lemma device_revoke_mapE:
  assumes "device_revoke_map ident did m = (b, m')"
  obtains s' where "device_revoke ident did True \<lparr>ds_map = m, ds_disk = None\<rparr> = (b, s')" "m' = ds_map s'"
  using assms unfolding device_revoke_map_def
  by (cases "device_revoke ident did True \<lparr>ds_map = m, ds_disk = None\<rparr>") simp

interpretation device_owner: owner_scoped device_revoke_map d_identity d_id
  "\<lambda>m. devices_ok \<lparr>ds_map = m, ds_disk = None\<rparr>"
proof unfold_locales
  fix u i and m m' :: "(string, device) hmap"
  assume ok: "devices_ok \<lparr>ds_map = m, ds_disk = None\<rparr>"
  then show "hm_ok m" by (simp add: devices_ok_def)
  show "\<exists>k r. hm_get m k = Some r \<and> d_identity r = u \<and> d_id r = i \<and> m' = hm_remove k m"
    if "device_revoke_map u i m = (True, m')"
    using that by (elim device_revoke_mapE) (use device_revoke_True [OF ok] in simp)
  show "m' = m \<and> (\<forall>k r. hm_get m k = Some r \<longrightarrow> d_identity r = u \<longrightarrow> d_id r \<noteq> i)"
    if "device_revoke_map u i m = (False, m')"
    using that
  proof (elim device_revoke_mapE)
    fix s' assume r: "device_revoke u i True \<lparr>ds_map = m, ds_disk = None\<rparr> = (False, s')" "m' = ds_map s'"
    show ?thesis using device_revoke_False [OF ok r(1)] r(2) by auto
  qed
qed

definition device_disk :: "device_store \<Rightarrow> device list" where
  "device_disk s = (case ds_disk s of None \<Rightarrow> [] | Some ds \<Rightarrow> ds)"

lemma filter_length_same: "length xs - length (filter P xs) = 0 \<Longrightarrow> filter P xs = xs"
  by (metis diff_is_0_eq filter_id_conv length_filter_less not_le)

lemma hm_retain_same: "\<not> length (hm_retain P m) < length m \<Longrightarrow> hm_retain P m = m"
  unfolding hm_retain_def by (rule filter_length_same) simp

interpretation device_file: durable ds_map device_disk device_order "device_step th" devices_ok for th
proof unfold_locales
  fix p ok and s :: device_store
  assume ok: "devices_ok s"
  then show "devices_ok (device_step th p ok s)" by (rule device_step_ok)
  show "device_disk (device_step th p False s) = device_disk s"
    by (cases p) (auto simp: device_ops device_write_def device_disk_def Let_def split: option.splits)
  show "device_disk (device_step th p True s) = device_order (ds_map (device_step th p True s))"
    if "device_disk s = device_order (ds_map s)"
    using that
    by (cases p) (auto simp: device_ops device_write_def device_disk_def Let_def hm_retain_same
        split: option.splits)
qed

subsection \<open>Eviction\<close>

lemma sorted_take_drop:
  "sorted (map f xs) \<Longrightarrow> x \<in> set (take n xs) \<Longrightarrow> y \<in> set (drop n xs) \<Longrightarrow> f x \<le> f y"
  by (metis (no_types, lifting) append_take_drop_id map_append image_eqI set_map sorted_append)

definition mine_of :: "identity \<Rightarrow> (string, device) hmap \<Rightarrow> (string \<times> nat) list" where
  "mine_of ident m = map (\<lambda>(k, d). (k, d_last_used_at d)) (filter (\<lambda>(_, d). d_identity d = ident) m)"

lemma mine_of_mem:
  "hm_ok m \<Longrightarrow> (k, t) \<in> set (mine_of ident m) \<longleftrightarrow>
    (\<exists>d. hm_get m k = Some d \<and> d_identity d = ident \<and> d_last_used_at d = t)"
  by (auto simp: mine_of_def hm_get_mem)

lemma mint_victims_alt:
  "mint_victims ident cap m = (let n = length (mine_of ident m) in
     if n \<ge> max cap 1 then map fst (take (n + 1 - max cap 1) (sort_key snd (mine_of ident m))) else [])"
  by (simp add: mint_victims_def mine_of_def Let_def)

lemma mint_victims_lru:
  assumes "hm_ok m" "k \<in> set (mint_victims ident cap m)" "k' \<notin> set (mint_victims ident cap m)"
    "hm_get m k' = Some d'" "d_identity d' = ident"
  obtains d where "hm_get m k = Some d" "d_identity d = ident" "d_last_used_at d \<le> d_last_used_at d'"
proof -
  let ?s = "sort_key snd (mine_of ident m)"
  let ?n = "length (mine_of ident m) + 1 - max cap 1"
  have v: "mint_victims ident cap m = map fst (take ?n ?s)"
    using assms(2) by (auto simp: mint_victims_alt Let_def split: if_splits)
  then obtain t where t: "(k, t) \<in> set (take ?n ?s)" using assms(2) by auto
  then have "(k, t) \<in> set (mine_of ident m)" by (metis in_set_takeD set_sort)
  then obtain d where d: "hm_get m k = Some d" "d_identity d = ident" "d_last_used_at d = t"
    using mine_of_mem [OF assms(1)] by auto
  have "(k', d_last_used_at d') \<in> set ?s"
    using assms(4,5) mine_of_mem [OF assms(1)] by auto
  moreover have "(k', d_last_used_at d') \<notin> set (take ?n ?s)" using assms(3) v by force
  ultimately have "(k', d_last_used_at d') \<in> set (drop ?n ?s)"
    by (metis Un_iff append_take_drop_id set_append)
  from sorted_take_drop [OF _ t this, of snd] have "t \<le> d_last_used_at d'" by simp
  with d that show thesis by auto
qed

lemma mint_victims_distinct: "hm_ok m \<Longrightarrow> distinct (mint_victims ident cap m)"
proof -
  assume "hm_ok m"
  then have "distinct (map fst (mine_of ident m))"
    by (auto simp: hm_ok_def mine_of_def o_def case_prod_beta intro: distinct_map_filter)
  then have "distinct (map fst (sort_key snd (mine_of ident m)))"
    by (metis distinct_map distinct_sort set_sort)
  then show ?thesis
    by (auto simp: mint_victims_alt Let_def take_map [symmetric])
qed

definition owned :: "identity \<Rightarrow> (string, device) hmap \<Rightarrow> string set" where
  "owned ident m = {k. \<exists>d. hm_get m k = Some d \<and> d_identity d = ident}"

lemma owned_mine: "hm_ok m \<Longrightarrow> owned ident m = set (map fst (mine_of ident m))"
  unfolding owned_def using mine_of_mem [of m _ _ ident] by (auto simp: image_iff) force+

lemma owned_card: "hm_ok m \<Longrightarrow> card (owned ident m) = length (mine_of ident m)"
proof -
  assume ok: "hm_ok m"
  then have "distinct (map fst (mine_of ident m))"
    by (auto simp: hm_ok_def mine_of_def o_def case_prod_beta intro: distinct_map_filter)
  from distinct_card [OF this] owned_mine [OF ok, of ident] show ?thesis by simp
qed

lemma mint_victims_owned: "hm_ok m \<Longrightarrow> set (mint_victims ident cap m) \<subseteq> owned ident m"
  unfolding owned_mine
  by (auto simp: mint_victims_alt Let_def dest!: in_set_takeD)

lemma mint_room:
  assumes "hm_ok m"
  shows "card (owned ident (foldl (\<lambda>m k. hm_remove k m) m (mint_victims ident cap m))) < max cap 1"
proof -
  let ?v = "mint_victims ident cap m"
  have fin: "finite (owned ident m)" using owned_mine [OF assms] by simp
  have "owned ident (foldl (\<lambda>m k. hm_remove k m) m ?v) = owned ident m - set ?v"
    by (auto simp: owned_def hm_remove_all_get split: if_splits)
  then have "card (owned ident (foldl (\<lambda>m k. hm_remove k m) m ?v))
      = card (owned ident m) - length ?v"
    using card_Diff_subset [OF _ mint_victims_owned [OF assms]] distinct_card [OF mint_victims_distinct [OF assms]]
    by (simp add: fin)
  moreover have "length ?v = (if length (mine_of ident m) \<ge> max cap 1
      then length (mine_of ident m) + 1 - max cap 1 else 0)"
    by (simp add: mint_victims_alt Let_def)
  ultimately show ?thesis using owned_card [OF assms, of ident] by auto
qed

text \<open>trusting a browser never leaves an identity with more devices than the cap (at least one), the new
  one is among them, and making room only costs the least recently used ones: a live record of the
  identity that survives was used at least as recently as one that was evicted, and nobody else
  loses a live record.\<close>

theorem device_mint_evicts_lru:
  assumes "devices_ok s" and "device_mint th ident enrolled window cap cl now token did True s = (r, s')"
  shows "card (owned ident (ds_map s')) \<le> max cap 1 \<and> th token \<in> owned ident (ds_map s') \<and>
    (\<forall>k d. hm_get (ds_map s) k = Some d \<and> now < d_expires_at d \<and> k \<noteq> th token \<and>
        hm_get (ds_map s') k = None \<longrightarrow>
      d_identity d = ident \<and>
      (\<forall>k' d'. hm_get (ds_map s') k' = Some d' \<and> d_identity d' = ident \<and> k' \<noteq> th token \<longrightarrow>
        d_last_used_at d \<le> d_last_used_at d'))"
proof -
  define m1 where "m1 = hm_retain (\<lambda>d. \<not> device_expired d now) (ds_map s)"
  define m2 where "m2 = foldl (\<lambda>m k. hm_remove k m) m1 (mint_victims ident cap m1)"
  have ok0: "hm_ok (ds_map s)" using assms(1) by (simp add: devices_ok_def)
  then have ok1: "hm_ok m1" by (simp add: m1_def hm.ok_ret)
  have get': "hm_get (ds_map s') k = (if k = th token
      then Some \<lparr>d_id = did, d_identity = ident, d_token_hash = th token, d_created_at = now,
              d_expires_at = sat_add64 now window, d_last_used_at = now, d_enrolled_at = enrolled,
              d_user_agent = display_text (c_user_agent cl), d_created_ip = display_text (c_ip cl),
              d_last_ip = display_text (c_ip cl)\<rparr> else hm_get m2 k)" for k
    using assms(2) by (auto simp: device_mint_def Let_def m1_def m2_def hm.get_ins)
  have fin: "finite (owned ident m2)"
    using owned_mine [OF hm_remove_all_ok [OF ok1], of ident] by (simp add: m2_def)
  have "owned ident (ds_map s') = insert (th token) (owned ident m2 - {th token})"
    by (auto simp: owned_def get')
  then have "card (owned ident (ds_map s')) \<le> Suc (card (owned ident m2))"
    using fin by (simp add: card_insert_if card_Diff_singleton_if)
  then have 1: "card (owned ident (ds_map s')) \<le> max cap 1"
    using mint_room [OF ok1, of ident cap] by (simp add: m2_def)
  have 2: "th token \<in> owned ident (ds_map s')" by (simp add: owned_def get')
  have "d_identity d = ident \<and> (\<forall>k' d'. hm_get (ds_map s') k' = Some d' \<and> d_identity d' = ident \<and>
      k' \<noteq> th token \<longrightarrow> d_last_used_at d \<le> d_last_used_at d')"
    if k: "hm_get (ds_map s) k = Some d" "now < d_expires_at d" "k \<noteq> th token"
      "hm_get (ds_map s') k = None" for k d
  proof -
    have d1: "hm_get m1 k = Some d"
      using k(1,2) ok0 by (simp add: m1_def hm.get_ret_Some device_expired_def)
    have v: "k \<in> set (mint_victims ident cap m1)"
      using k(3,4) d1 by (auto simp: get' m2_def hm_remove_all_get split: if_splits)
    then have own: "d_identity d = ident"
      using mint_victims_owned [OF ok1, of ident cap] d1 by (force simp: owned_def)
    moreover have "d_last_used_at d \<le> d_last_used_at d'"
      if "hm_get (ds_map s') k' = Some d'" "d_identity d' = ident" "k' \<noteq> th token" for k' d'
    proof -
      have "k' \<notin> set (mint_victims ident cap m1)" "hm_get m1 k' = Some d'"
        using that by (auto simp: get' m2_def hm_remove_all_get split: if_splits)
      from mint_victims_lru [OF ok1 v this that(2)] d1 show ?thesis by auto
    qed
    ultimately show ?thesis by blast
  qed
  with 1 2 show ?thesis by blast
qed

lemmas device_eval = device_ops device_write_def device_expired_def mint_victims_def hm_retain_def
  hm_insert_def hm_remove_def hm_get_def sat_add64_def Let_def device_new_def device_run_def

definition toy_client :: client where
  "toy_client = \<lparr>c_user_agent = ''ua'', c_ip = ''::1''\<rparr>"

definition toy_user :: identity where
  "toy_user = \<lparr>provider = Local, subject = ''u''\<rparr>"

theorem device_authorize_needs_mint_witness:
  "\<exists>pre post window cap cl' t0 token'.
    [(Mint toy_user 5 100 2 toy_client 10 ''t'' ''d'', True), (Sweep_devices 20, True)]
      = pre @ (Mint toy_user 5 window cap cl' t0 token' ''d'', True) # post \<and>
    id ''t'' = id token' \<and> (50::nat) < t0 + window \<and>
    list_all (\<lambda>(p, _). \<not> kills id p (id ''t'') toy_user) post"
  by (rule device_authorize_needs_mint [where th = id and token = "''t''" and cl = toy_client and ok = True
        and ident = toy_user and enrolled = 5])
    (simp add: device_eval)

theorem device_mint_evicts_lru_witness:
  "card (owned toy_user (ds_map (snd (device_mint id toy_user 5 100 1 toy_client 20 ''t2'' ''d2'' True
     (snd (device_mint id toy_user 5 100 1 toy_client 10 ''t'' ''d'' True device_new)))))) \<le> max 1 1"
proof -
  have ok: "devices_ok (snd (device_mint id toy_user 5 100 1 toy_client 10 ''t'' ''d'' True device_new))"
    using device_step_ok [OF device_new_ok, of id "Mint toy_user 5 100 1 toy_client 10 ''t'' ''d''" True] by simp
  show ?thesis
    by (rule conjunct1 [OF device_mint_evicts_lru [OF ok prod.collapse [symmetric]]])
qed

subsection \<open>Failed writes, restarts, revocation\<close>

text \<open>a mint whose write fails is reported and its own record is taken back, but the eviction it made is
  not: the least recently used device at the cap has lost its trust in memory although the file still
  lists it, so the failed mint does leave a trace.\<close>

theorem failed_mint_still_evicts:
  "let s = snd (device_mint id toy_user 5 100 1 toy_client 10 ''old'' ''d1'' True device_new);
       (r, s') = device_mint id toy_user 5 100 1 toy_client 20 ''new'' ''d2'' False s
   in fst (device_authorize id ''old'' toy_user 5 toy_client 21 True s) = Some ''d1'' \<and>
      r = None \<and> fst (device_authorize id ''old'' toy_user 5 toy_client 21 True s') = None \<and>
      map d_id (device_disk s') = [''d1'']"
  by (simp add: device_eval device_disk_def device_order_def hm_values_def)

lemma failed_mint_no_record:
  "fst (device_mint th ident enrolled window cap cl now token did ok s) = None \<Longrightarrow>
    hm_get (ds_map (snd (device_mint th ident enrolled window cap cl now token did ok s))) (th token) = None"
  by (auto simp: device_mint_def Let_def hm.get_rem split: if_splits)

lemma load_fold_get:
  "hm_get (foldl (\<lambda>m d. hm_insert (d_token_hash d) d m) m ds) k =
    (case find (\<lambda>d. d_token_hash d = k) (rev ds) of Some d \<Rightarrow> Some d | None \<Rightarrow> hm_get m k)"
  by (induction ds rule: rev_induct) (auto simp: hm.get_ins)

lemma load_fold_ok: "hm_ok m \<Longrightarrow> hm_ok (foldl (\<lambda>m d. hm_insert (d_token_hash d) d m) m ds)"
  by (induction ds arbitrary: m) (auto simp: hm.ok_ins)

lemma device_load_image:
  assumes "devices_ok s" "device_load (Some (Inr (device_order (ds_map s)))) now = Inr m"
  shows "hm_get m k = Some d \<longleftrightarrow> hm_get (ds_map s) k = Some d \<and> now < d_expires_at d"
proof -
  let ?ds = "filter (\<lambda>d. \<not> device_expired d now) (device_order (ds_map s))"
  have mem: "d \<in> set ?ds \<longleftrightarrow> hm_get (ds_map s) (d_token_hash d) = Some d \<and> now < d_expires_at d" for d
    using assms(1) hm.vals_get [of "ds_map s" d]
    by (auto simp: device_order_def devices_ok_def device_expired_def)
  have "hm_get m k = find (\<lambda>d. d_token_hash d = k) (rev ?ds)"
    using assms(2) by (auto simp: device_load_def load_fold_get split: option.splits)
  also have "... = Some d \<longleftrightarrow> d \<in> set ?ds \<and> d_token_hash d = k"
  proof
    assume "find (\<lambda>d. d_token_hash d = k) (rev ?ds) = Some d"
    then show "d \<in> set ?ds \<and> d_token_hash d = k"
      by (metis (mono_tags, lifting) find_Some_iff nth_mem set_rev)
  next
    assume d: "d \<in> set ?ds \<and> d_token_hash d = k"
    then obtain d' where d': "find (\<lambda>d. d_token_hash d = k) (rev ?ds) = Some d'"
      by (metis (mono_tags, lifting) find_None_iff not_None_eq set_rev)
    then have "d' \<in> set ?ds" "d_token_hash d' = k"
      by (metis (mono_tags, lifting) find_Some_iff nth_mem set_rev)+
    with d mem [of d] mem [of d'] d' show "find (\<lambda>d. d_token_hash d = k) (rev ?ds) = Some d"
      by auto
  qed
  finally show ?thesis
    using mem [of d] assms(1) by (auto simp: devices_ok_def)
qed

text \<open>memory and file never drift apart: after any sequence of operations whose writes succeeded, a
  restart loads exactly the unexpired records the running server held.\<close>

theorem device_restart_agrees:
  assumes "list_all snd ps"
    and "device_load (Some (Inr (device_disk (device_run th ps device_new)))) now = Inr m"
  shows "hm_get m k = Some d \<longleftrightarrow>
    hm_get (ds_map (device_run th ps device_new)) k = Some d \<and> now < d_expires_at d"
proof -
  have ok: "devices_ok (device_run th ps device_new)" by (rule device_run_ok [OF device_new_ok])
  have "device_disk device_new = device_order (ds_map device_new)"
    by (simp add: device_disk_def device_new_def device_order_def hm_values_def)
  from device_file.run_written [OF device_new_ok this assms(1), of th]
  have "device_disk (device_run th ps device_new) = device_order (ds_map (device_run th ps device_new))"
    by (simp add: device_run_def)
  from device_load_image [OF ok assms(2) [unfolded this]] show ?thesis .
qed

theorem device_restart_agrees_witness:
  "let s = device_run id [(Mint toy_user 5 100 2 toy_client 10 ''t'' ''d'', True),
                          (Mint toy_user 5 10 2 toy_client 11 ''t2'' ''d2'', True)] device_new
   in \<exists>m. device_load (Some (Inr (device_disk s))) 50 = (Inr m :: nat + (string, device) hmap) \<and>
      hm_get m ''t2'' = None \<and> hm_get m ''t'' \<noteq> None"
proof -
  let ?ps = "[(Mint toy_user 5 100 2 toy_client 10 ''t'' ''d'', True),
              (Mint toy_user 5 10 2 toy_client 11 ''t2'' ''d2'', True)]"
  let ?s = "device_run id ?ps device_new"
  obtain m where m: "device_load (Some (Inr (device_disk ?s))) 50 = (Inr m :: nat + (string, device) hmap)"
    by (simp add: device_load_def)
  have get: "hm_get m k = Some d \<longleftrightarrow> hm_get (ds_map ?s) k = Some d \<and> 50 < d_expires_at d" for k d
    by (rule device_restart_agrees [OF _ m]) simp
  have "hm_get m ''t2'' \<noteq> Some d" for d
    unfolding get by (auto simp: device_eval)
  moreover obtain d where "hm_get (ds_map ?s) ''t'' = Some d" "50 < d_expires_at d"
    by (simp add: device_eval)
  ultimately show ?thesis
    using m get [of "''t''" d] by (auto simp: Let_def)
qed

lemma device_run_absent:
  assumes "devices_ok s" "hm_get (ds_map s) k = None"
    and "list_all (\<lambda>(p, _). case p of Mint _ _ _ _ _ _ t _ \<Rightarrow> th t \<noteq> k | _ \<Rightarrow> True) ps"
  shows "hm_get (ds_map (device_run th ps s)) k = None"
proof (rule ccontr)
  assume "hm_get (ds_map (device_run th ps s)) k \<noteq> None"
  then obtain d where "hm_get (ds_map (device_run th ps s)) k = Some d" by auto
  from device_run_get [OF assms(1) this assms(2)] assms(3) show False by auto
qed

text \<open>C32: revoking a device by its public id (ids being drawn without repetition) always takes effect at once
  and for good: whatever the outcome of the write, the cookie is refused in every later state unless
  its very token is minted again; and if the write succeeded, it is refused after a restart too.\<close>

theorem device_revocation_final:
  assumes "devices_ok s" and "hm_get (ds_map s) (th token) = Some d"
    and "\<forall>k d'. hm_get (ds_map s) k = Some d' \<and> d_id d' = d_id d \<longrightarrow> k = th token"
    and "device_revoke (d_identity d) (d_id d) ok s = (found, s')"
    and "list_all (\<lambda>(p, _). case p of Mint _ _ _ _ _ _ t _ \<Rightarrow> th t \<noteq> th token | _ \<Rightarrow> True) ps"
  shows "found \<and> device_authorize th token ident enrolled cl now ok' (device_run th ps s')
      = (None, device_run th ps s') \<and>
    (ok \<longrightarrow> (case device_load (Some (Inr (device_disk s'))) now of Inl _ \<Rightarrow> False
      | Inr m \<Rightarrow> hm_get m (th token) = None))"
proof -
  have found: "found"
    using device_revoke_False [OF assms(1), of "d_identity d" "d_id d" ok s'] assms(2,4) by (cases found) auto
  then obtain k d' where "hm_get (ds_map s) k = Some d'" "d_id d' = d_id d"
    "ds_map s' = hm_remove k (ds_map s)"
    using device_revoke_True [OF assms(1), of "d_identity d" "d_id d" ok s'] assms(4) by auto
  with assms(3) have map': "ds_map s' = hm_remove (th token) (ds_map s)" by auto
  have ok': "devices_ok s'"
    using device_step_ok [OF assms(1), of th "Revoke_id (d_identity d) (d_id d)" ok] assms(4) by simp
  have "hm_get (ds_map (device_run th ps s')) (th token) = None"
    by (rule device_run_absent [OF ok' _ assms(5)]) (simp add: map')
  moreover have "device_disk s' = device_order (ds_map s')" if ok
    using assms(4) that found
    by (auto simp: device_revoke_def device_disk_def device_write_def split: option.splits)
  moreover have "hm_get m (th token) = None"
    if "device_load (Some (Inr (device_order (ds_map s')))) now = (Inr m :: 'e + (string, device) hmap)" for m
    using device_load_image [OF ok' that, of "th token"] map' by (cases "hm_get m (th token)") auto
  ultimately show ?thesis
    using found by (auto simp: device_authorize_def device_load_def)
qed

theorem device_revocation_final_witness:
  "let s = snd (device_mint id toy_user 5 100 2 toy_client 10 ''t'' ''d'' True device_new);
       s' = snd (device_revoke toy_user ''d'' False s)
   in device_authorize id ''t'' toy_user 5 toy_client 11 True (device_run id [(Sweep_devices 11, True)] s')
      = (None, device_run id [(Sweep_devices 11, True)] s')"
proof -
  let ?s = "snd (device_mint id toy_user 5 100 2 toy_client 10 ''t'' ''d'' True device_new)"
  have ok: "devices_ok ?s"
    using device_step_ok [OF device_new_ok, of id "Mint toy_user 5 100 2 toy_client 10 ''t'' ''d''" True] by simp
  obtain d where m: "ds_map ?s = [(''t'', d)]" and di: "d_identity d = toy_user" "d_id d = ''d''"
    by (simp add: device_eval)
  then have d: "hm_get (ds_map ?s) (id ''t'') = Some d"
    "\<forall>k d'. hm_get (ds_map ?s) k = Some d' \<and> d_id d' = d_id d \<longrightarrow> k = id ''t''"
    by (simp_all add: hm_get_def)
  have later: "list_all (\<lambda>(p, _). case p of Mint _ _ _ _ _ _ t _ \<Rightarrow> id t \<noteq> id ''t'' | _ \<Rightarrow> True)
      [(Sweep_devices 11, True)]" by simp
  from device_revocation_final [where th = id and token = "''t''" and ok = False and ident = toy_user
      and enrolled = 5 and cl = toy_client and now = 11 and ok' = True,
      OF ok d prod.collapse [symmetric] later] di
  show ?thesis by (simp add: Let_def)
qed

text \<open>The whole write: the serialised records replace the file, or it stays as it was.\<close>

lemma device_write_file_safe:
  "let (ok, seen) = device_write_file ser mk p rnd outs rm m fs
   in hm_get (last seen) p = (if ok then map_option (\<lambda>b. (b, True)) (ser (device_order m)) else hm_get fs p)"
  using write_atomic_cases [of mk p rnd _ outs rm fs]
  by (auto simp: device_write_file_def split: option.splits prod.splits)

end
