(* ===== verification/Guard.thy ===== *)
theory Guard
  imports Prelude
begin

text \<open>
  The brute-force throttle of the login endpoints (\<open>LoginGuard\<close> in \<open>src/src/main.rs\<close>): the tarpit buckets and
  the lockout of the second factor.

  Instants and durations are nanoseconds of the monotonic clock. A bucket is held for the whole of an
  attempt, so the operations on one bucket (and the lockout operations of one identity, which run
  under the bucket of its codes) never overlap; counters are 32 bit and wrap as in a release build.
\<close>

abbreviation secs :: "nat \<Rightarrow> nat" where "secs n \<equiv> n * 1000000000"
abbreviation millis :: "nat \<Rightarrow> nat" where "millis n \<equiv> n * 1000000"

definition mfa_max_strikes :: nat where "mfa_max_strikes = 5"
definition mfa_lockout_base :: nat where "mfa_lockout_base = secs (15 * 60)"
definition mfa_lockout_max :: nat where "mfa_lockout_max = secs (24 * 60 * 60)"
definition mfa_strike_memory :: nat where "mfa_strike_memory = secs (7 * 24 * 60 * 60)"
definition unlisted_bucket :: string where "unlisted_bucket = ''unlisted''"

record mfa_strikes =
  ms_count :: nat
  ms_last :: nat
  ms_locked_until :: "nat option"

type_synonym bucket = "nat \<times> nat"

record login_guard =
  lg_buckets :: "(string, bucket) hmap"
  lg_mfa :: "(string, mfa_strikes) hmap"

definition guard_new :: login_guard where
  "guard_new = \<lparr>lg_buckets = [], lg_mfa = []\<rparr>"

definition wrap_add32 :: "nat \<Rightarrow> nat \<Rightarrow> nat" where
  "wrap_add32 a b = (a + b) mod (u32_max + 1)"

definition wrap_sub32 :: "nat \<Rightarrow> nat \<Rightarrow> nat" where
  "wrap_sub32 a b = (a + (u32_max + 1) - b) mod (u32_max + 1)"

subsection \<open>The tarpit\<close>

definition recent_failures :: "nat \<Rightarrow> bucket \<Rightarrow> nat" where
  "recent_failures now g = (if now - snd g > secs 60 then 0 else fst g)"

text \<open>\<open>enter\<close> runs at the instant the bucket is free; it returns the instant the attempt may go on. The
  attempt then reports at some later instant, or not at all.\<close>

definition guard_enter :: "string \<Rightarrow> nat \<Rightarrow> login_guard \<Rightarrow> nat \<times> login_guard" where
  "guard_enter b now g =
    (let cell = (case hm_get (lg_buckets g) b of Some c \<Rightarrow> c | None \<Rightarrow> (0, now));
         delay = min (millis (recent_failures now cell * 300)) (millis 5000)
     in (now + delay, g\<lparr>lg_buckets := hm_insert b cell (lg_buckets g)\<rparr>))"

definition attempt_failed :: "string \<Rightarrow> nat \<Rightarrow> login_guard \<Rightarrow> login_guard" where
  "attempt_failed b now g =
    (case hm_get (lg_buckets g) b of
      None \<Rightarrow> g
    | Some c \<Rightarrow> g\<lparr>lg_buckets := hm_insert b (wrap_add32 (recent_failures now c) 1, now) (lg_buckets g)\<rparr>)"

definition attempt_succeeded :: "string \<Rightarrow> nat \<Rightarrow> login_guard \<Rightarrow> login_guard" where
  "attempt_succeeded b now g =
    (case hm_get (lg_buckets g) b of
      None \<Rightarrow> g
    | Some c \<Rightarrow> g\<lparr>lg_buckets := hm_insert b (0, now) (lg_buckets g)\<rparr>)"

subsection \<open>The lockout\<close>

definition mfa_locked :: "string \<Rightarrow> nat \<Rightarrow> login_guard \<Rightarrow> nat option" where
  "mfa_locked who now g =
    Option.bind (hm_get (lg_mfa g) who) (\<lambda>s. Option.bind (ms_locked_until s) (\<lambda>until.
      let left = until - now in if left \<noteq> 0 then Some left else None))"

definition lock_time :: "nat \<Rightarrow> nat" where
  "lock_time round = min (mfa_lockout_base * (if round < 32 then 2 ^ round else u32_max)) mfa_lockout_max"

definition mfa_failed :: "string \<Rightarrow> nat \<Rightarrow> login_guard \<Rightarrow> nat option \<times> login_guard" where
  "mfa_failed who now g =
    (let s0 = (case hm_get (lg_mfa g) who of
                 Some s \<Rightarrow> s | None \<Rightarrow> \<lparr>ms_count = 0, ms_last = now, ms_locked_until = None\<rparr>);
         s1 = (if now - ms_last s0 > mfa_strike_memory then s0\<lparr>ms_count := 0\<rparr> else s0);
         s2 = s1\<lparr>ms_count := wrap_add32 (ms_count s1) 1, ms_last := now\<rparr>
     in if ms_count s2 mod mfa_max_strikes \<noteq> 0
        then (None, g\<lparr>lg_mfa := hm_insert who s2 (lg_mfa g)\<rparr>)
        else
          let round = wrap_sub32 (ms_count s2 div mfa_max_strikes) 1;
              lock = lock_time round
          in (Some lock, g\<lparr>lg_mfa := hm_insert who (s2\<lparr>ms_locked_until := Some (now + lock)\<rparr>) (lg_mfa g)\<rparr>))"

definition mfa_succeeded :: "string \<Rightarrow> login_guard \<Rightarrow> login_guard" where
  "mfa_succeeded who g = g\<lparr>lg_mfa := hm_remove who (lg_mfa g)\<rparr>"

subsection \<open>The schedule of the lockouts\<close>

lemmas lock_consts = mfa_max_strikes_def mfa_lockout_base_def mfa_lockout_max_def mfa_strike_memory_def

lemma lock_time_early: "r < 7 \<Longrightarrow> lock_time r = secs (900 * 2 ^ r)"
proof -
  assume r: "r < 7"
  then have "(2::nat) ^ r \<le> 2 ^ 6" by (intro power_increasing) auto
  then show ?thesis using r by (simp add: lock_time_def lock_consts)
qed

lemma lock_time_late: "7 \<le> r \<Longrightarrow> lock_time r = mfa_lockout_max"
proof -
  assume r: "7 \<le> r"
  then have "(2::nat) ^ 7 \<le> 2 ^ r" by (intro power_increasing) auto
  then have "128 \<le> (if r < 32 then 2 ^ r else u32_max)" by simp
  then have step: "mfa_lockout_base * 128 \<le> mfa_lockout_base * (if r < 32 then 2 ^ r else u32_max)"
    by (rule mult_le_mono2)
  have "mfa_lockout_max \<le> mfa_lockout_base * 128" by (simp add: lock_consts)
  also note step
  finally show ?thesis unfolding lock_time_def by (rule min_absorb2)
qed

primrec lock_sum :: "nat \<Rightarrow> nat" where
  "lock_sum 0 = 0"
| "lock_sum (Suc r) = lock_sum r + lock_time r"

lemma lock_sum_early: "r \<le> 7 \<Longrightarrow> lock_sum r + secs 900 = secs (900 * 2 ^ r)"
  by (induction r) (simp_all add: lock_time_early)

lemma lock_sum_cap: "secs (86400 * Suc r) \<le> secs 576900 + lock_sum r"
proof (induction r)
  case 0
  then show ?case by simp
next
  case (Suc r)
  show ?case
  proof (cases "r < 7")
    case True
    then have "r \<in> {0, 1, 2, 3, 4, 5, 6}" by auto
    then show ?thesis using lock_sum_early [of "Suc r"] by (elim insertE) auto
  next
    case False
    then show ?thesis using Suc by (simp add: lock_time_late mfa_lockout_max_def)
  qed
qed

lemma wrap_add32_small: "a < u32_max \<Longrightarrow> wrap_add32 a 1 = Suc a"
  by (simp add: wrap_add32_def)

lemma wrap_sub32_small: "1 \<le> a \<Longrightarrow> a \<le> u32_max \<Longrightarrow> wrap_sub32 a 1 = a - 1"
  by (simp add: wrap_sub32_def mod_if)

text \<open>One wrong code, seen from the identity's entry.\<close>

definition strikes_before :: "string \<Rightarrow> nat \<Rightarrow> login_guard \<Rightarrow> nat" where
  "strikes_before who now g =
    (case hm_get (lg_mfa g) who of None \<Rightarrow> 0
     | Some s \<Rightarrow> if now - ms_last s > mfa_strike_memory then 0 else ms_count s)"

lemma mfa_failed_entry:
  assumes "strikes_before who now g < u32_max"
  defines "c \<equiv> Suc (strikes_before who now g)"
  shows "fst (mfa_failed who now g) = (if c mod 5 = 0 then Some (lock_time (c div 5 - 1)) else None)"
    and "\<exists>s. hm_get (lg_mfa (snd (mfa_failed who now g))) who = Some s \<and> ms_count s = c \<and> ms_last s = now \<and>
      (c mod 5 = 0 \<longrightarrow> ms_locked_until s = Some (now + lock_time (c div 5 - 1)))"
proof -
  have c: "wrap_add32 (strikes_before who now g) (Suc 0) = c"
    using wrap_add32_small [OF assms(1)] by (simp add: c_def)
  have w: "c mod 5 = 0 \<Longrightarrow> wrap_sub32 (c div 5) 1 = c div 5 - 1"
    by (rule wrap_sub32_small) (use assms in \<open>auto simp: c_def div_le_dividend intro: le_trans\<close>)
  show "fst (mfa_failed who now g) = (if c mod 5 = 0 then Some (lock_time (c div 5 - 1)) else None)"
    using c w
    by (cases "hm_get (lg_mfa g) who") (auto simp: mfa_failed_def strikes_before_def Let_def mfa_max_strikes_def)
  show "\<exists>s. hm_get (lg_mfa (snd (mfa_failed who now g))) who = Some s \<and> ms_count s = c \<and> ms_last s = now \<and>
      (c mod 5 = 0 \<longrightarrow> ms_locked_until s = Some (now + lock_time (c div 5 - 1)))"
    using c w
    by (cases "hm_get (lg_mfa g) who")
      (auto simp: mfa_failed_def strikes_before_def Let_def mfa_max_strikes_def hm_laws)
qed

lemma mfa_other [simp]:
  "u \<noteq> who \<Longrightarrow> hm_get (lg_mfa (snd (mfa_failed u now g))) who = hm_get (lg_mfa g) who"
  "u \<noteq> who \<Longrightarrow> hm_get (lg_mfa (mfa_succeeded u g)) who = hm_get (lg_mfa g) who"
  by (simp_all add: mfa_failed_def mfa_succeeded_def Let_def hm_laws)

lemma buckets_frame [simp]:
  "lg_mfa (snd (guard_enter b now g)) = lg_mfa g"
  "lg_mfa (attempt_failed b now g) = lg_mfa g"
  "lg_mfa (attempt_succeeded b now g) = lg_mfa g"
  by (simp_all add: guard_enter_def attempt_failed_def attempt_succeeded_def Let_def split: option.splits)

subsection \<open>How many codes can be tried\<close>

text \<open>A period without a right code for \<open>who\<close>, from an instant \<open>t0\<close> with no run of wrong ones: \<open>n\<close> codes were
  wrong, each checked at an instant at which the identity is not locked, between arbitrary operations
  on the buckets and on other identities.\<close>

inductive guessing :: "string \<Rightarrow> nat \<Rightarrow> login_guard \<Rightarrow> nat \<Rightarrow> nat \<Rightarrow> bool" for who :: string and t0 :: nat where
  start: "hm_get (lg_mfa g) who = None \<Longrightarrow> guessing who t0 g t0 0"
| wrong: "guessing who t0 g t n \<Longrightarrow> t \<le> t1 \<Longrightarrow> mfa_locked who t1 g = None \<Longrightarrow> t1 \<le> t2 \<Longrightarrow>
    guessing who t0 (snd (mfa_failed who t2 g)) t2 (Suc n)"
| others_wrong: "guessing who t0 g t n \<Longrightarrow> t \<le> t' \<Longrightarrow> u \<noteq> who \<Longrightarrow>
    guessing who t0 (snd (mfa_failed u t' g)) t' n"
| others_right: "guessing who t0 g t n \<Longrightarrow> u \<noteq> who \<Longrightarrow> guessing who t0 (mfa_succeeded u g) t n"
| enters: "guessing who t0 g t n \<Longrightarrow> guessing who t0 (snd (guard_enter b t' g)) t n"
| fails: "guessing who t0 g t n \<Longrightarrow> guessing who t0 (attempt_failed b t' g) t n"
| succeeds: "guessing who t0 g t n \<Longrightarrow> guessing who t0 (attempt_succeeded b t' g) t n"

inductive_cases guessing_wrongE: "guessing who t0 g t (Suc n)"

definition paced :: "mfa_strikes option \<Rightarrow> nat \<Rightarrow> nat \<Rightarrow> nat \<Rightarrow> bool" where
  "paced e t0 t n \<longleftrightarrow> (case e of None \<Rightarrow> n = 0 \<and> t0 \<le> t
     | Some s \<Rightarrow> t0 \<le> ms_last s \<and> ms_last s \<le> t \<and> 1 \<le> ms_count s \<and> ms_count s \<le> n \<and>
         secs 17280 * n + lock_sum ((ms_count s - 1) div 5) \<le> secs 17280 * ms_count s + (ms_last s - t0) \<and>
         (ms_count s mod 5 = 0 \<longrightarrow> ms_locked_until s = Some (ms_last s + lock_time (ms_count s div 5 - 1))))"

lemma paced_later: "paced e t0 t n \<Longrightarrow> t \<le> t' \<Longrightarrow> paced e t0 t' n"
  by (auto simp: paced_def split: option.splits)

lemma paced_last: "paced (Some s) t0 t n \<Longrightarrow> paced (Some s) t0 (ms_last s) n"
  by (auto simp: paced_def)

lemma paced_bound:
  assumes "paced e t0 t n"
  shows "secs 17280 * n \<le> secs 576900 + (t - t0)"
proof (cases e)
  case None
  then show ?thesis using assms by (simp add: paced_def)
next
  case (Some s)
  define r where "r = (ms_count s - 1) div 5"
  have "ms_count s \<le> 5 * Suc r" using assms Some by (auto simp: paced_def r_def)
  then have "secs 17280 * ms_count s \<le> secs (86400 * Suc r)" by simp
  moreover have "secs 17280 * n + lock_sum r \<le> secs 17280 * ms_count s + (ms_last s - t0)"
    and "ms_last s - t0 \<le> t - t0"
    using assms Some by (auto simp: paced_def r_def)
  ultimately show ?thesis using lock_sum_cap [of r] by linarith
qed

lemma div_pred: "c mod 5 \<noteq> 0 \<Longrightarrow> (c - 1) div 5 = c div (5 :: nat)"
  by (cases c) (simp_all add: div_Suc)

lemma paced_wrong:
  assumes "paced (hm_get (lg_mfa g) who) t0 t n" "t \<le> t1" "mfa_locked who t1 g = None" "t1 \<le> t2"
    and "n < u32_max"
  shows "paced (hm_get (lg_mfa (snd (mfa_failed who t2 g))) who) t0 t2 (Suc n)"
proof -
  let ?b = "strikes_before who t2 g"
  have le: "?b \<le> n"
    using assms(1) by (cases "hm_get (lg_mfa g) who") (simp_all add: strikes_before_def paced_def)
  obtain s' where s': "hm_get (lg_mfa (snd (mfa_failed who t2 g))) who = Some s'"
      "ms_count s' = Suc ?b" "ms_last s' = t2"
      "Suc ?b mod 5 = 0 \<longrightarrow> ms_locked_until s' = Some (t2 + lock_time (Suc ?b div 5 - 1))"
    using mfa_failed_entry(2) [of who t2 g, OF le_less_trans [OF le assms(5)]]
    by (elim exE conjE) (rule that)
  have key: "secs 17280 * Suc n + lock_sum (?b div 5) \<le> secs 17280 * Suc ?b + (t2 - t0)"
  proof (cases "hm_get (lg_mfa g) who")
    case None
    then show ?thesis using assms(1) by (simp add: strikes_before_def paced_def)
  next
    case (Some s)
    let ?c = "ms_count s"
    note inv = assms(1) [unfolded Some paced_def option.case]
    show ?thesis
    proof (cases "t2 - ms_last s > mfa_strike_memory")
      case True
      then have b: "?b = 0" using Some by (simp add: strikes_before_def)
      have "secs 17280 * n \<le> secs 576900 + (ms_last s - t0)"
        using paced_bound [OF paced_last [OF assms(1) [unfolded Some]]] .
      moreover have "ms_last s - t0 + secs 604800 \<le> t2 - t0"
        using True inv unfolding mfa_strike_memory_def by linarith
      ultimately show ?thesis unfolding b by simp
    next
      case False
      then have b: "?b = ?c" using Some by (simp add: strikes_before_def)
      show ?thesis
      proof (cases "?c mod 5 = 0")
        case True
        then obtain q where q: "?c = 5 * q" by blast
        with inv obtain r where r: "?c = 5 * Suc r" by (cases q) auto
        have "ms_last s + lock_time r \<le> t1"
          using assms(3) Some inv True r by (simp add: mfa_locked_def Let_def split: if_splits)
        then have "ms_last s - t0 + lock_time r \<le> t2 - t0" using inv assms(4) by linarith
        moreover have c: "(?c - 1) div 5 = r" "?c div 5 = Suc r" using r by auto
        moreover have "secs 17280 * n + lock_sum r \<le> secs 17280 * ?c + (ms_last s - t0)"
          using inv c by auto
        ultimately show ?thesis unfolding b c lock_sum.simps mult_Suc_right by linarith
      next
        case False
        then have "(?c - 1) div 5 = ?c div 5" by (rule div_pred)
        moreover have "ms_last s - t0 \<le> t2 - t0" using inv assms(2,4) by linarith
        moreover have "secs 17280 * n + lock_sum ((?c - 1) div 5) \<le> secs 17280 * ?c + (ms_last s - t0)"
          using inv by auto
        ultimately show ?thesis unfolding b by simp
      qed
    qed
  qed
  have start: "t0 \<le> t2"
    using assms(1,2,4) by (cases "hm_get (lg_mfa g) who") (simp_all add: paced_def)
  show ?thesis
    using s' key le start by (simp add: paced_def)
qed

lemma guessing_paced:
  "guessing who t0 g t n \<Longrightarrow> n \<le> u32_max \<Longrightarrow> paced (hm_get (lg_mfa g) who) t0 t n"
proof (induction rule: guessing.induct)
  case (start g)
  then show ?case by (simp add: paced_def)
next
  case (wrong g t n t1 t2)
  from wrong.prems have "n < u32_max" by simp
  moreover from this have "paced (hm_get (lg_mfa g) who) t0 t n" by (intro wrong.IH) simp
  ultimately show ?case using wrong.hyps by (intro paced_wrong)
next
  case (others_wrong g t n t' u)
  then show ?case by (simp add: paced_later)
qed simp_all

text \<open>C28: Guessing is paced: however the attempts are spaced (waiting for a run to be forgotten included), between two right
  codes an identity sees at most 34 wrong codes plus five for each day that passes.\<close>

theorem guess_rate:
  assumes "guessing who t0 g t n" and "n \<le> u32_max"
  shows "n \<le> 34 + (t - t0) div secs 17280"
proof -
  have "secs 17280 * n \<le> secs 576900 + (t - t0)"
    using paced_bound [OF guessing_paced [OF assms]] .
  then have "secs 17280 * n div secs 17280 \<le> (secs 576900 + (t - t0)) div secs 17280"
    by (rule div_le_mono)
  also have "... \<le> (secs 17280 * 34 + (t - t0)) div secs 17280"
    by (rule div_le_mono) simp
  finally show ?thesis by simp
qed

definition five_wrong :: "nat \<Rightarrow> login_guard" where
  "five_wrong t = ((\<lambda>g. snd (mfa_failed ''a'' t g)) ^^ Suc 4) guard_new"

lemma strikes_run:
  "k < 5 \<Longrightarrow> lg_mfa (((\<lambda>g. snd (mfa_failed ''a'' t g)) ^^ k) guard_new) =
     (if k = 0 then [] else [(''a'', \<lparr>ms_count = k, ms_last = t, ms_locked_until = None\<rparr>)])"
proof (induction k)
  case 0
  then show ?case by (simp add: guard_new_def)
next
  case (Suc k)
  then show ?case
    using wrap_add32_small [of k]
    by (auto simp: mfa_failed_def Let_def hm_get_def hm_insert_def mfa_max_strikes_def)
qed

lemma five_wrong_entry:
  "lg_mfa (five_wrong t) = [(''a'', \<lparr>ms_count = 5, ms_last = t, ms_locked_until = Some (t + secs 900)\<rparr>)]"
proof -
  have "wrap_add32 4 (Suc 0) = 5" "wrap_sub32 1 1 = 0" by (simp_all add: wrap_add32_def wrap_sub32_def)
  then have "lg_mfa (snd (mfa_failed ''a'' t g)) =
      [(''a'', \<lparr>ms_count = 5, ms_last = t, ms_locked_until = Some (t + secs 900)\<rparr>)]"
    if "lg_mfa g = [(''a'', \<lparr>ms_count = 4, ms_last = t, ms_locked_until = None\<rparr>)]" for g
    using that lock_time_early [of 0]
    by (simp add: mfa_failed_def Let_def hm_get_def hm_insert_def mfa_max_strikes_def)
  from this [OF strikes_run [of 4 t, simplified]] show ?thesis
    by (simp only: five_wrong_def funpow.simps o_apply)
qed

lemma guessing_run: "k \<le> 5 \<Longrightarrow> guessing ''a'' 0 (((\<lambda>g. snd (mfa_failed ''a'' 0 g)) ^^ k) guard_new) 0 k"
proof (induction k)
  case 0
  then show ?case by (simp add: guessing.start guard_new_def)
next
  case (Suc k)
  then have "mfa_locked ''a'' 0 (((\<lambda>g. snd (mfa_failed ''a'' 0 g)) ^^ k) guard_new) = None"
    by (simp add: mfa_locked_def strikes_run hm_get_def)
  then show ?case using guessing.wrong [OF Suc.IH order_refl _ order_refl] Suc.prems by simp
qed

lemma guessing_five: "guessing ''a'' 0 (five_wrong 0) 0 5"
  using guessing_run [of "Suc 4"] unfolding five_wrong_def by simp

theorem guess_rate_witness:
  "mfa_locked ''a'' (secs 899) (five_wrong 0) = Some (secs 1) \<and>
   (6::nat) \<le> 34 + (secs 900 - 0) div secs 17280"
proof
  show "mfa_locked ''a'' (secs 899) (five_wrong 0) = Some (secs 1)"
    by (simp add: mfa_locked_def five_wrong_entry hm_get_def Let_def)
  have "mfa_locked ''a'' (secs 900) (five_wrong 0) = None"
    by (simp add: mfa_locked_def five_wrong_entry hm_get_def Let_def)
  from guessing.wrong [OF guessing_five _ this order_refl]
  have "guessing ''a'' 0 (snd (mfa_failed ''a'' (secs 900) (five_wrong 0))) (secs 900) (Suc 5)" by simp
  from guess_rate [OF this] show "(6::nat) \<le> 34 + (secs 900 - 0) div secs 17280" by simp
qed

end
