(* ===== verification/LocalAuth.thy ===== *)
theory LocalAuth
  imports Text
begin

text \<open>
  Passwords (\<open>src/src/localauth.rs\<close>): telling a stored hash from a literal password, and checking a
  password against either. The bcrypt and argon2 verifiers, the PHC parser and the salted hash are
  parameters.
\<close>

definition looks_hashed :: "string \<Rightarrow> bool" where
  "looks_hashed stored =
    (case split_on CHR ''$'' (trim stored) of
      first # rest \<Rightarrow> first = [] \<and>
        (case rest of ident # rest' \<Rightarrow> ident \<noteq> [] \<and> rest' \<noteq> [] | [] \<Rightarrow> False)
    | [] \<Rightarrow> False)"

datatype argon_result = Matches | PasswordInvalid | VerifierError string

datatype password_error = HashingFailed string | BcryptFailed string | NotPhc string | VerifyFailed string

record hashers =
  h_hash :: "string \<Rightarrow> string + string"
  h_bcrypt :: "string \<Rightarrow> string \<Rightarrow> string + bool"
  h_phc :: "string \<Rightarrow> string option"
  h_argon2 :: "string \<Rightarrow> string \<Rightarrow> argon_result"

definition hash_password :: "hashers \<Rightarrow> string \<Rightarrow> password_error + string" where
  "hash_password h password = (case h_hash h password of Inl e \<Rightarrow> Inl (HashingFailed e) | Inr s \<Rightarrow> Inr s)"

text \<open>\<open>h_phc\<close> gives the error of parsing the stored value, if any.\<close>

definition verify_password :: "hashers \<Rightarrow> string \<Rightarrow> string \<Rightarrow> password_error + bool" where
  "verify_password h stored0 password =
    (let stored = trim stored0 in
     if \<not> looks_hashed stored then Inr (utf8 stored = utf8 password)
     else if starts_with ''$2a$'' stored \<or> starts_with ''$2b$'' stored \<or> starts_with ''$2y$'' stored then
       (case h_bcrypt h password stored of Inl e \<Rightarrow> Inl (BcryptFailed e) | Inr b \<Rightarrow> Inr b)
     else (case h_phc h stored of
         Some e \<Rightarrow> Inl (NotPhc e)
       | None \<Rightarrow> (case h_argon2 h password stored of
           Matches \<Rightarrow> Inr True
         | PasswordInvalid \<Rightarrow> Inr False
         | VerifierError e \<Rightarrow> Inl (VerifyFailed e))))"

lemma split_on_two:
  "(case split_on c s of first # rest \<Rightarrow> first = [] \<and>
      (case rest of ident # rest' \<Rightarrow> ident \<noteq> [] \<and> rest' \<noteq> [] | [] \<Rightarrow> False) | [] \<Rightarrow> False)
    \<longleftrightarrow> (\<exists>ident rest. s = c # ident @ c # rest \<and> ident \<noteq> [] \<and> c \<notin> set ident)"
proof
  assume l: "case split_on c s of first # rest \<Rightarrow> first = [] \<and>
      (case rest of ident # rest' \<Rightarrow> ident \<noteq> [] \<and> rest' \<noteq> [] | [] \<Rightarrow> False) | [] \<Rightarrow> False"
  have "c \<in> set s"
  proof (rule ccontr)
    assume "c \<notin> set s"
    then show False using l by (simp add: split_on_free)
  qed
  then obtain a r where s: "s = a @ c # r" "c \<notin> set a" by (meson split_list_first)
  then have a: "a = []" using l by (simp add: split_on_append)
  have "c \<in> set r"
  proof (rule ccontr)
    assume "c \<notin> set r"
    then show False using l s by (simp add: split_on_append split_on_free)
  qed
  then obtain i rest where r: "r = i @ c # rest" "c \<notin> set i" by (meson split_list_first)
  then have "i \<noteq> []" using l s by (simp add: split_on_append)
  then show "\<exists>ident rest. s = c # ident @ c # rest \<and> ident \<noteq> [] \<and> c \<notin> set ident"
    using s(1) a r by auto
next
  assume "\<exists>ident rest. s = c # ident @ c # rest \<and> ident \<noteq> [] \<and> c \<notin> set ident"
  then obtain ident rest where s: "s = c # ident @ c # rest" "ident \<noteq> []" "c \<notin> set ident" by blast
  have "split_on c s = [] # ident # split_on c rest"
    using split_on_append [of c "[]" "ident @ c # rest"] split_on_append [OF s(3), of rest] s(1) by simp
  then show "case split_on c s of first # rest \<Rightarrow> first = [] \<and>
      (case rest of ident # rest' \<Rightarrow> ident \<noteq> [] \<and> rest' \<noteq> [] | [] \<Rightarrow> False) | [] \<Rightarrow> False"
    using s(2) by (simp add: split_on_def)
qed

lemma looks_hashed_iff:
  "looks_hashed stored \<longleftrightarrow>
    (\<exists>ident rest. trim stored = CHR ''$'' # ident @ CHR ''$'' # rest \<and> ident \<noteq> [] \<and> CHR ''$'' \<notin> set ident)"
  unfolding looks_hashed_def by (rule split_on_two)

text \<open>a stored value of the shape \<open>$id$...\<close> is only ever checked by its hash verifier, whatever the
  verifier says, so reading the file and typing the hash does not log in; any other value is a literal
  password, compared exactly.\<close>

theorem verify_password_spec:
  "verify_password h stored password =
    (if \<exists>ident rest. trim stored = CHR ''$'' # ident @ CHR ''$'' # rest \<and> ident \<noteq> [] \<and> CHR ''$'' \<notin> set ident
     then (if \<exists>v rest. v \<in> {CHR ''a'', CHR ''b'', CHR ''y''} \<and> trim stored = ''$2'' @ [v] @ ''$'' @ rest
           then (case h_bcrypt h password (trim stored) of Inl e \<Rightarrow> Inl (BcryptFailed e) | Inr b \<Rightarrow> Inr b)
           else case (h_phc h (trim stored), h_argon2 h password (trim stored)) of
             (Some e, _) \<Rightarrow> Inl (NotPhc e)
           | (None, Matches) \<Rightarrow> Inr True
           | (None, PasswordInvalid) \<Rightarrow> Inr False
           | (None, VerifierError e) \<Rightarrow> Inl (VerifyFailed e))
     else Inr (password = trim stored))"
proof -
  have pre: "starts_with p s \<longleftrightarrow> (\<exists>r. s = p @ r)" for p s :: string
    by (auto simp: starts_with_def strip_prefix_Some)
  have "(starts_with ''$2a$'' s \<or> starts_with ''$2b$'' s \<or> starts_with ''$2y$'' s) \<longleftrightarrow>
      (\<exists>v rest. v \<in> {CHR ''a'', CHR ''b'', CHR ''y''} \<and> s = ''$2'' @ [v] @ ''$'' @ rest)" for s
    unfolding pre by auto
  moreover have "(utf8 (trim stored) = utf8 password) = (password = trim stored)" by auto
  moreover have "(if \<not> P then x else y) = (if P then y else x)" for P and x y :: "password_error + bool"
    by simp
  ultimately show ?thesis
    unfolding verify_password_def Let_def looks_hashed_iff trim_idem
    by (cases "h_phc h (trim stored)"; cases "h_argon2 h password (trim stored)")
      (simp_all only: option.case argon_result.case prod.case)
qed

end
