(* ===== verification/Login.thy ===== *)
theory Login
  imports Pages Devices Guard LocalAuth Share Slots
begin

text \<open>
  Signing in (\<open>src/src/main.rs\<close>): the state the handlers share, cookies and sessions, the login page, local
  passwords, Google sign-in, the second factor, and trusted devices.

  A handler that awaits is cut there: what it does before is one step, what it does after another, and
  the pause between is a value that holds what the handler keeps. Between two awaits a handler reads
  the clock once. The cookie jar is what the handler reads from it (values whose signature the
  \<open>axum_extra\<close> crate accepted) and the list of what it asks the jar to send. The log is a ghost: it
  records what was verified when a session was let in.
\<close>

subsection \<open>Cookies\<close>

definition cookie_name :: string where "cookie_name = ''webshell_sid''"
definition device_cookie_name :: string where "device_cookie_name = ''webshell_td''"
definition base_path :: string where "base_path = ''/webshell''"

record cookie =
  ck_name :: string
  ck_value :: string
  ck_path :: "string option"
  ck_http_only :: bool
  ck_lax :: bool
  ck_secure :: bool
  ck_max_age :: "nat option"

datatype jar_op = Add_cookie cookie | Remove_cookie cookie

record jar =
  jr_values :: "(string, string) hmap"
  jr_ops :: "jar_op list"

definition jar_get :: "string \<Rightarrow> jar \<Rightarrow> string option" where
  "jar_get n j = hm_get (jr_values j) n"

definition jar_add :: "cookie \<Rightarrow> jar \<Rightarrow> jar" where
  "jar_add c j = j\<lparr>jr_values := hm_insert (ck_name c) (ck_value c) (jr_values j), jr_ops := jr_ops j @ [Add_cookie c]\<rparr>"

definition jar_remove :: "cookie \<Rightarrow> jar \<Rightarrow> jar" where
  "jar_remove c j = j\<lparr>jr_values := hm_remove (ck_name c) (jr_values j), jr_ops := jr_ops j @ [Remove_cookie c]\<rparr>"

definition session_cookie :: "config \<Rightarrow> string \<Rightarrow> cookie" where
  "session_cookie cfg sid = \<lparr>ck_name = cookie_name, ck_value = sid, ck_path = Some base_path, ck_http_only = True,
     ck_lax = True, ck_secure = cookie_secure cfg, ck_max_age = None\<rparr>"

definition device_cookie :: "config \<Rightarrow> string \<Rightarrow> cookie" where
  "device_cookie cfg token = \<lparr>ck_name = device_cookie_name, ck_value = token, ck_path = Some base_path,
     ck_http_only = True, ck_lax = True, ck_secure = cookie_secure cfg,
     ck_max_age = Some (if remember_device_window cfg \<le> i64_max then remember_device_window cfg else 30 * 86400)\<rparr>"

definition bare_cookie :: "string \<Rightarrow> cookie" where
  "bare_cookie n = \<lparr>ck_name = n, ck_value = [], ck_path = None, ck_http_only = False, ck_lax = False,
     ck_secure = False, ck_max_age = None\<rparr>"

definition cleared_device_cookie :: cookie where
  "cleared_device_cookie = (bare_cookie device_cookie_name)\<lparr>ck_path := Some base_path\<rparr>"

subsection \<open>Answers\<close>

record share_entry =
  sh_grant :: string
  sh_index :: nat
  sh_secs :: nat
  sh_note :: string
  sh_url :: string

record device_entry =
  de_id :: string
  de_current :: bool
  de_user_agent :: string
  de_last_ip :: string
  de_created_at :: nat
  de_expires_at :: nat
  de_last_used_at :: nat
  de_secs :: nat

record access_entry =
  am_slot :: nat
  am_owner :: string
  am_cols :: nat
  am_rows :: nat
  am_font_size :: nat
  am_font_family :: string

datatype body =
    Text_body string
  | Html_body string
  | Redirect_to string
  | Empty_body
  | Terminal_body "(nat \<times> bool) list"
  | Share_body string string nat
  | Shares_body "share_entry list"
  | Devices_body bool nat "device_entry list"
  | Status_body bool nat
  | Meta_body access_entry
  | Mux_upgrade string nat nat
  | View_upgrade attachment lease

record response =
  rs_status :: nat
  rs_headers :: headers
  rs_body :: body
  rs_cookies :: "jar_op list"

definition status_text :: "nat \<Rightarrow> string \<Rightarrow> response" where
  "status_text n s = \<lparr>rs_status = n, rs_headers = [], rs_body = Text_body s, rs_cookies = []\<rparr>"

definition redirect :: "string \<Rightarrow> response" where
  "redirect url = \<lparr>rs_status = 303, rs_headers = [], rs_body = Redirect_to url, rs_cookies = []\<rparr>"

definition html_page :: "headers \<Rightarrow> string \<Rightarrow> response" where
  "html_page hs s = \<lparr>rs_status = 200, rs_headers = hs, rs_body = Html_body s, rs_cookies = []\<rparr>"

definition json :: "body \<Rightarrow> response" where
  "json b = \<lparr>rs_status = 200, rs_headers = [], rs_body = b, rs_cookies = []\<rparr>"

definition with_jar :: "jar \<Rightarrow> response \<Rightarrow> response" where
  "with_jar j r = r\<lparr>rs_cookies := jr_ops j\<rparr>"

subsection \<open>State\<close>

record client_prefs =
  cp_font_size :: nat
  cp_font_family :: string

text \<open>What let someone in. A session is named by the key it has in the store.\<close>

datatype factor = By_password identity string string | By_google verified

datatype route =
    Without_code factor
  | Trusted_browser factor string nat
  | With_code string string string nat

datatype event =
    Half_in string factor
  | Full_in string string route
  | Shared string nat nat
  | Remembered string identity nat

record 's app =
  ap_sessions :: session_store
  ap_gone :: "nat list"
  ap_terms :: "'s terminals"
  ap_shares :: grants
  ap_cut :: "nat list"
  ap_prefs :: "(string, client_prefs) hmap"
  ap_guard :: login_guard
  ap_enrol :: enrol_store
  ap_devices :: device_store
  ap_otp :: "(string, (string \<times> nat) list) hmap"
  ap_log :: "event list"

text \<open>What stays the same while the server runs.\<close>

record env =
  ev_cfg :: config
  ev_sk :: "string \<Rightarrow> string"
  ev_th :: "string \<Rightarrow> string"
  ev_hashers :: hashers
  ev_hmac :: "u8 list \<Rightarrow> u8 list \<Rightarrow> u8 list"
  ev_crypto :: crypto
  ev_share_key :: "u8 list"
  ev_s256 :: "string \<Rightarrow> string"
  ev_assets :: assets

text \<open>What one step of a handler draws: the monotonic clock in nanoseconds and the wall clock in seconds, the outcome
  of each write to disk, random identifiers, fresh channels, whether the blocking task came back.\<close>

record draw =
  dr_now :: nat
  dr_unix :: nat
  dr_disk :: "nat \<Rightarrow> bool"
  dr_id :: string
  dr_csrf :: string
  dr_chan :: nat
  dr_nonce :: string
  dr_seed :: "u8 list"
  dr_tokens :: "nat \<Rightarrow> nat \<Rightarrow> string"
  dr_token :: string
  dr_did :: string
  dr_joined :: bool
  dr_permit :: "nat \<Rightarrow> bool"

definition app_new :: "session_store \<Rightarrow> 's terminals \<Rightarrow> enrol_store \<Rightarrow> device_store \<Rightarrow> 's app" where
  "app_new ss ts es ds = \<lparr>ap_sessions = ss, ap_gone = [], ap_terms = ts, ap_shares = [], ap_cut = [], ap_prefs = [],
     ap_guard = guard_new, ap_enrol = es, ap_devices = ds, ap_otp = [], ap_log = []\<rparr>"

subsection \<open>Sessions of a request\<close>

definition current_session :: "env \<Rightarrow> draw \<Rightarrow> jar \<Rightarrow> 's app \<Rightarrow> (string \<times> session) option \<times> 's app" where
  "current_session ev d j app =
    (case jar_get cookie_name j of
      None \<Rightarrow> (None, app)
    | Some sid \<Rightarrow>
        let (s, gone, ss) = session_get (ev_sk ev) sid (dr_now d) (dr_disk d 0) (ap_sessions app)
        in (map_option (Pair sid) s, app\<lparr>ap_sessions := ss, ap_gone := ap_gone app @ gone\<rparr>))"

definition authed_session :: "env \<Rightarrow> draw \<Rightarrow> jar \<Rightarrow> 's app \<Rightarrow> session option \<times> 's app" where
  "authed_session ev d j app =
    (let (cur, app') = current_session ev d j app
     in (case cur of Some (_, s) \<Rightarrow> if s_authenticated s then Some s else None | None \<Rightarrow> None, app'))"

definition csrf_matches :: "string \<Rightarrow> string \<Rightarrow> bool" where
  "csrf_matches expected provided \<longleftrightarrow> utf8 expected = utf8 provided"

definition create_session :: "env \<Rightarrow> draw \<Rightarrow> 's app \<Rightarrow> string \<times> 's app" where
  "create_session ev d app =
    (let (gone, ss) = session_create (ev_sk ev) (dr_id d) (dr_csrf d) (dr_now d) (dr_unix d) (dr_chan d) (ap_sessions app)
     in (dr_id d, app\<lparr>ap_sessions := ss, ap_gone := ap_gone app @ gone\<rparr>))"

definition remove_session :: "env \<Rightarrow> draw \<Rightarrow> string \<Rightarrow> 's app \<Rightarrow> 's app" where
  "remove_session ev d sid app =
    (let (gone, ss) = session_remove (ev_sk ev) sid (dr_now d) (dr_disk d 1) (ap_sessions app)
     in app\<lparr>ap_sessions := ss, ap_gone := ap_gone app @ gone\<rparr>)"

definition login_session :: "env \<Rightarrow> draw \<Rightarrow> string \<Rightarrow> string \<Rightarrow> route \<Rightarrow> 's app \<Rightarrow> string \<times> 's app" where
  "login_session ev d old user r app =
    (let (gone, ss) = session_login (ev_sk ev) old user (dr_id d) (dr_csrf d) (dr_now d) (dr_unix d) (dr_chan d)
           (dr_disk d 2) (ap_sessions app)
     in (dr_id d, app\<lparr>ap_sessions := ss, ap_gone := ap_gone app @ gone,
           ap_log := ap_log app @ [Full_in (ev_sk ev (dr_id d)) user r]\<rparr>))"

definition begin_mfa :: "env \<Rightarrow> draw \<Rightarrow> string \<Rightarrow> string \<Rightarrow> factor \<Rightarrow> 's app \<Rightarrow> string \<times> 's app" where
  "begin_mfa ev d old user f app =
    (let (gone, ss) = session_begin_mfa (ev_sk ev) old user (dr_id d) (dr_csrf d) (dr_now d) (dr_unix d) (dr_chan d)
           (dr_disk d 2) (ap_sessions app)
     in (dr_id d, app\<lparr>ap_sessions := ss, ap_gone := ap_gone app @ gone,
           ap_log := ap_log app @ [Half_in (ev_sk ev (dr_id d)) f]\<rparr>))"

definition set_oauth :: "env \<Rightarrow> draw \<Rightarrow> string \<Rightarrow> flow option \<Rightarrow> 's app \<Rightarrow> 's app" where
  "set_oauth ev d sid fl app =
    app\<lparr>ap_sessions := session_set_oauth (ev_sk ev) sid fl (dr_now d) (dr_disk d 1) (ap_sessions app)\<rparr>"

definition ensure_session :: "env \<Rightarrow> draw \<Rightarrow> jar \<Rightarrow> 's app \<Rightarrow> (jar \<times> string) \<times> 's app" where
  "ensure_session ev d j app =
    (let (cur, app') = current_session ev d j app
     in case cur of
          Some (sid, _) \<Rightarrow> ((j, sid), app')
        | None \<Rightarrow>
            let (sid, app'') = create_session ev d app'
            in ((jar_add (session_cookie (ev_cfg ev) sid) j, sid), app''))"

subsection \<open>Trusted devices of a request\<close>

definition current_enrolled_at :: "identity \<Rightarrow> 's app \<Rightarrow> nat option" where
  "current_enrolled_at who app =
    Option.bind (enrol_get who (ap_enrol app)) (\<lambda>r. if enrolled r then r_enrolled_at r else None)"

definition device_token :: "jar \<Rightarrow> string option" where
  "device_token j = jar_get device_cookie_name j"

definition request_client :: "headers \<Rightarrow> client" where
  "request_client hs = \<lparr>c_user_agent = user_agent hs, c_ip = client_ip hs\<rparr>"

definition trusted_device ::
  "env \<Rightarrow> draw \<Rightarrow> jar \<Rightarrow> identity \<Rightarrow> headers \<Rightarrow> 's app \<Rightarrow> (string \<times> nat \<times> string) option \<times> 's app" where
  "trusted_device ev d j who hs app =
    (if \<not> remember_device (ev_cfg ev) then (None, app)
     else case (device_token j, current_enrolled_at who app) of
       (Some token, Some at) \<Rightarrow>
         (let (r, ds) = device_authorize (ev_th ev) token who at (request_client hs) (dr_unix d) (dr_disk d 3) (ap_devices app)
          in (map_option (\<lambda>did. (token, at, did)) r, app\<lparr>ap_devices := ds\<rparr>))
     | _ \<Rightarrow> (None, app))"

definition forget_stale_device :: "env \<Rightarrow> draw \<Rightarrow> jar \<Rightarrow> identity \<Rightarrow> 's app \<Rightarrow> jar \<times> 's app" where
  "forget_stale_device ev d j who app =
    (if \<not> remember_device (ev_cfg ev) then (j, app)
     else case device_token j of
       None \<Rightarrow> (j, app)
     | Some token \<Rightarrow>
         (jar_remove cleared_device_cookie j,
          app\<lparr>ap_devices := snd (device_forget_if_owned (ev_th ev) token who (dr_disk d 4) (ap_devices app))\<rparr>))"

subsection \<open>The login page\<close>

definition login_error :: "env \<Rightarrow> draw \<Rightarrow> jar \<Rightarrow> headers \<Rightarrow> string \<Rightarrow> 's app \<Rightarrow> response \<times> 's app" where
  "login_error ev d j hs message app =
    (let (cur, app') = current_session ev d j app;
         csrf = (case cur of Some (_, s) \<Rightarrow> s_csrf s | None \<Rightarrow> []);
         html = render_login (ev_assets ev) (ev_cfg ev) csrf (dr_nonce d) (error_paragraph (html_escape message))
     in (html_page (html_headers (dr_nonce d) True hs) html, app'))"

definition login_page :: "env \<Rightarrow> draw \<Rightarrow> jar \<Rightarrow> headers \<Rightarrow> 's app \<Rightarrow> response \<times> 's app" where
  "login_page ev d j hs app =
    (let (cur, app1) = current_session ev d j app;
         fresh = (let ((j', sid), app2) = ensure_session ev d j app1;
                      (s, gone, ss) = session_get (ev_sk ev) sid (dr_now d) (dr_disk d 0) (ap_sessions app2);
                      csrf = (case s of Some s \<Rightarrow> s_csrf s | None \<Rightarrow> []);
                      html = render_login (ev_assets ev) (ev_cfg ev) csrf (dr_nonce d) []
                  in (with_jar j' (html_page (html_headers (dr_nonce d) True hs) html),
                      app2\<lparr>ap_sessions := ss, ap_gone := ap_gone app2 @ gone\<rparr>))
     in case cur of
          Some (_, s) \<Rightarrow>
            if s_authenticated s then (redirect ''/webshell/private/'', app1)
            else if s_mfa_pending s then (redirect ''/webshell/mfa'', app1)
            else fresh
        | None \<Rightarrow> fresh)"

subsection \<open>After the first factor\<close>

text \<open>The end of \<open>local_login\<close> and of \<open>oauth_callback\<close>, which is the same in both: let in when no second factor is
  required or the browser is trusted, otherwise go on to the second factor. The flag says whether the
  login is complete.\<close>

definition factor_identity :: "factor \<Rightarrow> identity" where
  "factor_identity f = (case f of By_password who _ _ \<Rightarrow> who | By_google v \<Rightarrow> v_identity v)"

definition first_factor ::
  "env \<Rightarrow> draw \<Rightarrow> jar \<Rightarrow> headers \<Rightarrow> string \<Rightarrow> factor \<Rightarrow> 's app \<Rightarrow> bool \<times> response \<times> 's app" where
  "first_factor ev d j hs sid f app =
    (let who = factor_identity f; user = identity_str who
     in if \<not> mfa_required (ev_cfg ev) then
          (let (new_id, app') = login_session ev d sid user (Without_code f) app
           in (True, with_jar (jar_add (session_cookie (ev_cfg ev) new_id) j) (redirect ''/webshell/private/''), app'))
        else
          (case trusted_device ev d j who hs app of
            (Some (token, at, did), app1) \<Rightarrow>
              (let (new_id, app') = login_session ev d sid user (Trusted_browser f token at) app1
               in (True, with_jar (jar_add (session_cookie (ev_cfg ev) new_id) j) (redirect ''/webshell/private/''), app'))
          | (None, app1) \<Rightarrow>
              (let (j', app2) = forget_stale_device ev d j who app1;
                   (new_id, app') = begin_mfa ev d sid user f app2
               in (False, with_jar (jar_add (session_cookie (ev_cfg ev) new_id) j') (redirect ''/webshell/mfa''), app'))))"

subsection \<open>Pauses\<close>

record mfa_form =
  mf_csrf :: string
  mf_otp :: string
  mf_seed :: "string option"
  mf_remember :: "string option"

text \<open>What a handler keeps while it waits: for the turn of its throttle bucket, or for Google.\<close>

datatype turn =
    Unlisted jar headers
  | Check_password jar headers string identity string
  | Check_code jar headers string session identity mfa_form

datatype pause = For_turn turn | For_google jar headers string flow string

datatype progress = Reply response | Pause pause

definition turn_bucket :: "turn \<Rightarrow> string" where
  "turn_bucket t =
    (case t of
      Unlisted _ _ \<Rightarrow> unlisted_bucket
    | Check_password _ _ _ who _ \<Rightarrow> identity_str who
    | Check_code _ _ _ _ who _ \<Rightarrow> ''mfa:'' @ identity_str who)"

definition on_guard :: "(login_guard \<Rightarrow> login_guard) \<Rightarrow> 's app \<Rightarrow> 's app" where
  "on_guard f app = app\<lparr>ap_guard := f (ap_guard app)\<rparr>"

definition reply :: "response \<times> 's app \<Rightarrow> progress \<times> 's app" where
  "reply = map_prod Reply id"

subsection \<open>Local passwords\<close>

record login_form =
  lf_csrf :: string
  lf_username :: string
  lf_password :: string

definition local_login :: "env \<Rightarrow> draw \<Rightarrow> jar \<Rightarrow> headers \<Rightarrow> login_form \<Rightarrow> 's app \<Rightarrow> progress \<times> 's app" where
  "local_login ev d j hs form app =
    (case current_session ev d j app of
      (None, app1) \<Rightarrow> reply (login_error ev d j hs ''Your login page expired. Try again.'' app1)
    | (Some (sid, s), app1) \<Rightarrow>
        if \<not> csrf_matches (s_csrf s) (lf_csrf form) then (Reply (status_text 403 ''invalid CSRF token''), app1)
        else if \<not> local_usable (ev_cfg ev) then (Reply (status_text 403 ''local login is disabled''), app1)
        else
          (let who = identity_new Local (lf_username form)
           in if \<not> permits (ev_cfg ev) who then (Pause (For_turn (Unlisted j hs)), app1)
              else (Pause (For_turn (Check_password j hs sid who (lf_password form))), app1)))"

definition finish_unlisted :: "env \<Rightarrow> draw \<Rightarrow> jar \<Rightarrow> headers \<Rightarrow> 's app \<Rightarrow> response \<times> 's app" where
  "finish_unlisted ev d j hs app =
     login_error ev d j hs ''Wrong username or password.'' (on_guard (attempt_failed unlisted_bucket (dr_now d)) app)"

definition finish_password ::
  "env \<Rightarrow> draw \<Rightarrow> jar \<Rightarrow> headers \<Rightarrow> string \<Rightarrow> identity \<Rightarrow> string \<Rightarrow> 's app \<Rightarrow> response \<times> 's app" where
  "finish_password ev d j hs sid who password app =
    (let bucket = identity_str who;
         stored = local_password (ev_cfg ev) who;
         verified = (case stored of
             None \<Rightarrow> None
           | Some hash \<Rightarrow>
               if \<not> dr_joined d then None
               else (case verify_password (ev_hashers ev) hash password of Inl e \<Rightarrow> None | Inr b \<Rightarrow> Some b))
     in case verified of
          None \<Rightarrow> login_error ev d j hs ''The server could not check that password. See the log.'' app
        | Some False \<Rightarrow>
            login_error ev d j hs ''Wrong username or password.'' (on_guard (attempt_failed bucket (dr_now d)) app)
        | Some True \<Rightarrow>
            (let (full, r, app') = first_factor ev d j hs sid (By_password who (the stored) password) app
             in (r, if full then on_guard (attempt_succeeded bucket (dr_now d)) app' else app')))"

subsection \<open>Google sign-in\<close>

definition oauth_start :: "env \<Rightarrow> draw \<Rightarrow> jar \<Rightarrow> string \<Rightarrow> 's app \<Rightarrow> response \<times> 's app" where
  "oauth_start ev d j csrf app =
    (if \<not> google_usable (ev_cfg ev) then (status_text 403 ''Google sign-in is disabled'', app)
     else case current_session ev d j app of
       (None, app1) \<Rightarrow> (redirect ''/webshell/login'', app1)
     | (Some (sid, s), app1) \<Rightarrow>
         if \<not> csrf_matches (s_csrf s) csrf then (status_text 403 ''invalid CSRF token'', app1)
         else (case (google_client_id (ev_cfg ev), redirect_uri (ev_cfg ev)) of
             (Some client_id, Some uri) \<Rightarrow>
               (let fl = flow_new (dr_tokens d)
                in (redirect (authorize_url (ev_s256 ev) client_id uri fl), set_oauth ev d sid (Some fl) app1))
           | _ \<Rightarrow> (status_text 500 ''Google sign-in is not configured'', app1)))"

record callback_query =
  cq_code :: "string option"
  cq_state :: "string option"
  cq_error :: "string option"

definition oauth_callback :: "env \<Rightarrow> draw \<Rightarrow> jar \<Rightarrow> headers \<Rightarrow> callback_query \<Rightarrow> 's app \<Rightarrow> progress \<times> 's app" where
  "oauth_callback ev d j hs q app =
    (if \<not> google_usable (ev_cfg ev) then (Reply (status_text 403 ''Google sign-in is disabled''), app)
     else case current_session ev d j app of
       (None, app1) \<Rightarrow> reply (login_error ev d j hs ''Your login session expired. Try again.'' app1)
     | (Some (sid, s), app1) \<Rightarrow>
         if cq_error q \<noteq> None then reply (login_error ev d j hs ''Google declined the sign-in.'' app1)
         else (case (s_oauth s, cq_code q, cq_state q) of
             (Some fl, Some auth_code, Some returned) \<Rightarrow>
               if \<not> csrf_matches (f_state fl) returned
               then reply (login_error ev d j hs ''That sign-in did not complete. Try again.'' app1)
               else
                 (let app2 = set_oauth ev d sid None app1
                  in case (google_client_id (ev_cfg ev), google_client_secret (ev_cfg ev), redirect_uri (ev_cfg ev)) of
                       (Some _, Some _, Some _) \<Rightarrow> (Pause (For_google j hs sid fl auth_code), app2)
                     | _ \<Rightarrow> (Reply (status_text 500 ''Google sign-in is not configured''), app2))
           | _ \<Rightarrow> reply (login_error ev d j hs ''That sign-in did not complete. Try again.'' app1)))"

text \<open>\<open>g\<close> is what Google answers to this exchange.\<close>

definition finish_google ::
  "env \<Rightarrow> draw \<Rightarrow> oidc_env \<Rightarrow> jar \<Rightarrow> headers \<Rightarrow> string \<Rightarrow> flow \<Rightarrow> string \<Rightarrow> 's app \<Rightarrow> response \<times> 's app" where
  "finish_google ev d g j hs sid fl auth_code app =
    (case exchange g (dr_unix d) (the (google_client_id (ev_cfg ev))) (the (google_client_secret (ev_cfg ev)))
        (the (redirect_uri (ev_cfg ev))) auth_code fl of
      Inl e \<Rightarrow> login_error ev d j hs ''Could not verify that Google account.'' app
    | Inr v \<Rightarrow>
        if \<not> permits (ev_cfg ev) (v_identity v)
        then login_error ev d j hs ''That account is not permitted to use this server.'' app
        else
          (let (pinned, es) = pin_subject (v_identity v) (v_sub v) (dr_disk d 5) (ap_enrol app);
               app1 = app\<lparr>ap_enrol := es\<rparr>
           in case pinned of
                Inl e \<Rightarrow> login_error ev d j hs ''Server could not record this login.'' app1
              | Inr False \<Rightarrow> login_error ev d j hs ''That address now belongs to a different Google account.'' app1
              | Inr True \<Rightarrow> snd (first_factor ev d j hs sid (By_google v) app1)))"

subsection \<open>The second factor\<close>

definition render_mfa :: "env \<Rightarrow> draw \<Rightarrow> session \<Rightarrow> headers \<Rightarrow> string \<Rightarrow> 's app \<Rightarrow> response" where
  "render_mfa ev d s hs error_html app =
    (case identity_parse (s_username s) of
      Inl e \<Rightarrow> status_text 500 ''malformed identity''
    | Inr who \<Rightarrow>
        (let r = (case enrol_get who (ap_enrol app) of Some r \<Rightarrow> r | None \<Rightarrow> record_default);
             page = html_page (html_headers (dr_nonce d) True hs)
         in if enrolled r then
              page (str_replace ''<!--ERROR-->'' error_html
                (str_replace ''<!--REMEMBER-->'' (remember_box (ev_cfg ev))
                  (str_replace ''{{USER}}'' (html_escape (subject who))
                    (str_replace ''{{NONCE}}'' (html_escape (dr_nonce d))
                      (str_replace ''{{CSRF}}'' (html_escape (s_csrf s)) (as_mfa_verify (ev_assets ev)))))))
            else
              (let seed = generate_seed (dr_seed d)
               in case as_qr_svg (ev_assets ev) (provisioning_uri seed (subject who)) of
                    None \<Rightarrow> status_text 500 ''could not render MFA QR''
                  | Some qr \<Rightarrow>
                      page (str_replace ''<!--ERROR-->'' error_html
                        (str_replace ''{{SEED}}'' (html_escape seed)
                          (str_replace ''{{QR}}'' qr
                            (str_replace ''{{NONCE}}'' (html_escape (dr_nonce d))
                              (str_replace ''{{CSRF}}'' (html_escape (s_csrf s)) (as_mfa (ev_assets ev))))))))))"

definition pending_session :: "env \<Rightarrow> draw \<Rightarrow> jar \<Rightarrow> 's app \<Rightarrow> (string \<times> session) option \<times> 's app" where
  "pending_session ev d j app =
    (let (cur, app') = current_session ev d j app
     in (case cur of Some (sid, s) \<Rightarrow> if s_mfa_pending s then Some (sid, s) else None | None \<Rightarrow> None, app'))"

definition mfa_page :: "env \<Rightarrow> draw \<Rightarrow> jar \<Rightarrow> headers \<Rightarrow> 's app \<Rightarrow> response \<times> 's app" where
  "mfa_page ev d j hs app =
    (case pending_session ev d j app of
      (None, app1) \<Rightarrow> (redirect ''/webshell/login'', app1)
    | (Some (_, s), app1) \<Rightarrow> (render_mfa ev d s hs [] app1, app1))"

definition mfa_locked_out :: "env \<Rightarrow> draw \<Rightarrow> jar \<Rightarrow> headers \<Rightarrow> string \<Rightarrow> nat \<Rightarrow> 's app \<Rightarrow> response \<times> 's app" where
  "mfa_locked_out ev d j hs sid left app =
    (let (new_id, app1) = create_session ev d (remove_session ev d sid app);
         j' = jar_add (session_cookie (ev_cfg ev) new_id) j;
         minutes = (left div secs 1 + 59) div 60;
         (page, app2) = login_error ev d j' hs
           (''Too many wrong codes. Sign in again in '' @ show_nat minutes @ '' minute(s).'') app1
     in (with_jar j' page, app2))"

definition mfa_submit :: "env \<Rightarrow> draw \<Rightarrow> jar \<Rightarrow> headers \<Rightarrow> mfa_form \<Rightarrow> 's app \<Rightarrow> progress \<times> 's app" where
  "mfa_submit ev d j hs form app =
    (case pending_session ev d j app of
      (None, app1) \<Rightarrow> (Reply (redirect ''/webshell/login''), app1)
    | (Some (sid, s), app1) \<Rightarrow>
        if \<not> csrf_matches (s_csrf s) (mf_csrf form) then (Reply (status_text 403 ''invalid CSRF token''), app1)
        else (case identity_parse (s_username s) of
            Inl e \<Rightarrow> (Reply (status_text 500 ''malformed identity''), app1)
          | Inr who \<Rightarrow> (Pause (For_turn (Check_code j hs sid s who form)), app1)))"

definition replay_guard :: "string \<Rightarrow> 's app \<Rightarrow> (string \<times> nat) list" where
  "replay_guard user app = (case hm_get (ap_otp app) user of Some g \<Rightarrow> g | None \<Rightarrow> [])"

definition accept_code :: "draw \<Rightarrow> string \<Rightarrow> string \<Rightarrow> 's app \<Rightarrow> bool \<times> 's app" where
  "accept_code d user otp app =
    (let (b, g) = accept_at otp (dr_unix d) (replay_guard user app) in (b, app\<lparr>ap_otp := hm_insert user g (ap_otp app)\<rparr>))"

text \<open>Once the code is accepted.\<close>

definition let_in ::
  "env \<Rightarrow> draw \<Rightarrow> jar \<Rightarrow> headers \<Rightarrow> string \<Rightarrow> session \<Rightarrow> identity \<Rightarrow> mfa_form \<Rightarrow> bool \<Rightarrow> string \<Rightarrow> 's app
    \<Rightarrow> response \<times> 's app" where
  "let_in ev d j hs sid s who form enrolling secret app =
    (let bucket = ''mfa:'' @ identity_str who; cfg = ev_cfg ev;
         app1 = on_guard (\<lambda>g. mfa_succeeded (s_username s) (attempt_succeeded bucket (dr_now d) g)) app;
         (new_id, app2) = login_session ev d sid (s_username s)
           (With_code (ev_sk ev sid) secret (mf_otp form) (dr_unix d)) app1;
         j1 = jar_add (session_cookie cfg new_id) j;
         (j2, app3) =
           (if remember_device cfg \<and> mf_remember form \<noteq> None \<and> \<not> enrolling then
              (case current_enrolled_at who app2 of
                None \<Rightarrow> (j1, app2)
              | Some at \<Rightarrow>
                  (let (made, ds) = device_mint (ev_th ev) who at (remember_device_window cfg)
                         (max_devices_per_identity cfg) (request_client hs) (dr_unix d) (dr_token d) (dr_did d)
                         (dr_disk d 3) (ap_devices app2)
                   in (case made of Some (token, _) \<Rightarrow> jar_add (device_cookie cfg token) j1 | None \<Rightarrow> j1,
                       app2\<lparr>ap_devices := ds,
                         ap_log := ap_log app2 @
                           (case made of Some (token, _) \<Rightarrow> [Remembered (ev_th ev token) who at] | None \<Rightarrow> [])\<rparr>)))
            else (j1, app2))
     in (with_jar j2 (redirect ''/webshell/private/''), app3))"

definition finish_code ::
  "env \<Rightarrow> draw \<Rightarrow> jar \<Rightarrow> headers \<Rightarrow> string \<Rightarrow> session \<Rightarrow> identity \<Rightarrow> mfa_form \<Rightarrow> 's app \<Rightarrow> response \<times> 's app" where
  "finish_code ev d j hs sid s who form app =
    (case mfa_locked (s_username s) (dr_now d) (ap_guard app) of
      Some left \<Rightarrow> mfa_locked_out ev d j hs sid left app
    | None \<Rightarrow>
        (let r = (case enrol_get who (ap_enrol app) of Some r \<Rightarrow> r | None \<Rightarrow> record_default);
             enrolling = (\<not> enrolled r);
             secret = (case r_mfa_secret r of Some x \<Rightarrow> x | None \<Rightarrow> (case mf_seed form of Some x \<Rightarrow> x | None \<Rightarrow> []));
             verified = (valid_seed secret \<and> totp_verify (ev_hmac ev) secret (mf_otp form) (dr_unix d));
             (accepted, app1) = (if verified then accept_code d (s_username s) (mf_otp form) app else (False, app));
             bucket = ''mfa:'' @ identity_str who
         in if \<not> accepted then
              (let app2 = on_guard (attempt_failed bucket (dr_now d)) app1
               in if \<not> verified then
                    (let (lock, g) = mfa_failed (s_username s) (dr_now d) (ap_guard app2);
                         app3 = app2\<lparr>ap_guard := g\<rparr>
                     in case lock of
                          Some t \<Rightarrow> mfa_locked_out ev d j hs sid t app3
                        | None \<Rightarrow> (render_mfa ev d s hs
                            (error_paragraph ''That code is not right. Wait for a new one and try again.'') app3, app3))
                  else (render_mfa ev d s hs
                    (error_paragraph (''That code has already been used. '' @
                      ''Wait for your authenticator to show the next one.'')) app2, app2))
            else if enrolling then
              (case enroll who secret (dr_unix d) (dr_disk d 5) (ap_enrol app1) of
                (Inl e, es) \<Rightarrow> (status_text 500 ''could not save enrollment'', app1\<lparr>ap_enrol := es\<rparr>)
              | (Inr _, es) \<Rightarrow>
                  let_in ev d j hs sid s who form True secret
                    (app1\<lparr>ap_enrol := es, ap_devices := snd (device_revoke_all who (dr_disk d 6) (ap_devices app1))\<rparr>))
            else let_in ev d j hs sid s who form False secret app1))"

definition mfa_cancel :: "env \<Rightarrow> draw \<Rightarrow> jar \<Rightarrow> string \<Rightarrow> 's app \<Rightarrow> response \<times> 's app" where
  "mfa_cancel ev d j csrf app =
    (let done = (\<lambda>app. (with_jar (jar_remove (bare_cookie cookie_name) j) (redirect ''/webshell/login''), app))
     in case pending_session ev d j app of
          (None, app1) \<Rightarrow> done app1
        | (Some (sid, s), app1) \<Rightarrow>
            if \<not> csrf_matches (s_csrf s) csrf then (status_text 403 ''invalid CSRF token'', app1)
            else done (remove_session ev d sid app1))"

subsection \<open>After a pause\<close>

definition finish_turn :: "env \<Rightarrow> draw \<Rightarrow> turn \<Rightarrow> 's app \<Rightarrow> response \<times> 's app" where
  "finish_turn ev d t app =
    (case t of
      Unlisted j hs \<Rightarrow> finish_unlisted ev d j hs app
    | Check_password j hs sid who password \<Rightarrow> finish_password ev d j hs sid who password app
    | Check_code j hs sid s who form \<Rightarrow> finish_code ev d j hs sid s who form app)"

end
