(* ===== verification/Api.thy ===== *)
theory Api
  imports Login
begin

text \<open>
  The rest of the routes of \<open>src/src/main.rs\<close>: the private namespace behind its authentication layer
  (the page, terminals, preferences, shares, devices, signing out, the owner's WebSocket) and the
  public namespace of share links. An upgrade to a WebSocket answers with what the bridge is started
  with.
\<close>

subsection \<open>Signing out\<close>

definition logout :: "env \<Rightarrow> draw \<Rightarrow> jar \<Rightarrow> string \<Rightarrow> string option \<Rightarrow> 's app \<Rightarrow> response \<times> 's app" where
  "logout ev d j csrf forget_field app =
    (let gone = jar_remove (bare_cookie cookie_name) j;
         plain = with_jar gone (redirect ''/webshell/login'')
     in case current_session ev d j app of
          (None, app1) \<Rightarrow> (plain, app1)
        | (Some (sid, s), app1) \<Rightarrow>
            if \<not> csrf_matches (s_csrf s) csrf then (status_text 403 ''invalid CSRF token'', app1)
            else
              (let app2 = remove_session ev d sid app1
               in if forget_field = None then (plain, app2)
                  else (with_jar (jar_remove cleared_device_cookie gone) (redirect ''/webshell/login''),
                    case device_token gone of
                      None \<Rightarrow> app2
                    | Some token \<Rightarrow> app2\<lparr>ap_devices := snd (device_revoke_token (ev_th ev) token (dr_disk d 3) (ap_devices app2))\<rparr>)))"

subsection \<open>Private handlers\<close>

text \<open>What every private handler starts with: the session, or the refusal; and the check of the CSRF token.\<close>

definition with_auth :: "env \<Rightarrow> draw \<Rightarrow> jar \<Rightarrow> (session \<Rightarrow> 's app \<Rightarrow> response \<times> 's app) \<Rightarrow> 's app \<Rightarrow> response \<times> 's app" where
  "with_auth ev d j f app =
    (case authed_session ev d j app of
      (None, app1) \<Rightarrow> (status_text 401 ''not authenticated'', app1)
    | (Some s, app1) \<Rightarrow> f s app1)"

definition with_csrf :: "session \<Rightarrow> string \<Rightarrow> ('s app \<Rightarrow> response \<times> 's app) \<Rightarrow> 's app \<Rightarrow> response \<times> 's app" where
  "with_csrf s csrf f app =
    (if csrf_matches (s_csrf s) csrf then f app else (status_text 403 ''invalid CSRF token'', app))"

definition no_content :: response where
  "no_content = \<lparr>rs_status = 204, rs_headers = [], rs_body = Empty_body, rs_cookies = []\<rparr>"

definition terminal_page :: "env \<Rightarrow> draw \<Rightarrow> jar \<Rightarrow> headers \<Rightarrow> 's app \<Rightarrow> response \<times> 's app" where
  "terminal_page ev d j hs app =
    (case authed_session ev d j app of
      (None, app1) \<Rightarrow> (redirect ''/webshell/login'', app1)
    | (Some s, app1) \<Rightarrow>
        (html_page (html_headers (dr_nonce d) True hs) (terminal_html (ev_assets ev) (ev_cfg ev) s (dr_nonce d)), app1))"

definition list_terminals :: "env \<Rightarrow> draw \<Rightarrow> jar \<Rightarrow> 's app \<Rightarrow> response \<times> 's app" where
  "list_terminals ev d j = with_auth ev d j (\<lambda>s app.
     let (ts, terms) = terminal_list (s_username s) (ap_terms app)
     in (json (Terminal_body ts), app\<lparr>ap_terms := terms\<rparr>))"

definition reset_terminal :: "env \<Rightarrow> draw \<Rightarrow> jar \<Rightarrow> string \<Rightarrow> nat \<Rightarrow> 's app \<Rightarrow> response \<times> 's app" where
  "reset_terminal ev d j csrf index = with_auth ev d j (\<lambda>s. with_csrf s csrf (\<lambda>app.
     (no_content, app\<lparr>ap_terms := terminal_reset (s_username s) index (ap_terms app)\<rparr>)))"

definition set_prefs :: "env \<Rightarrow> draw \<Rightarrow> jar \<Rightarrow> string \<Rightarrow> nat \<Rightarrow> string \<Rightarrow> 's app \<Rightarrow> response \<times> 's app" where
  "set_prefs ev d j csrf font_size font_family = with_auth ev d j (\<lambda>s. with_csrf s csrf (\<lambda>app.
     (no_content, app\<lparr>ap_prefs := hm_insert (s_username s)
        \<lparr>cp_font_size = clamp 8 40 font_size, cp_font_family = take 200 font_family\<rparr> (ap_prefs app)\<rparr>)))"

subsection \<open>Share links\<close>

definition create_share :: "env \<Rightarrow> draw \<Rightarrow> jar \<Rightarrow> string \<Rightarrow> nat \<Rightarrow> nat \<Rightarrow> string \<Rightarrow> 's app \<Rightarrow> response \<times> 's app" where
  "create_share ev d j csrf index ttl note app =
    (if \<not> sharing_enabled (ev_cfg ev) then (status_text 403 ''sharing is disabled'', app)
     else with_auth ev d j (\<lambda>s. with_csrf s csrf (\<lambda>app.
       if index \<ge> slots_per_user (ev_cfg ev) then (status_text 400 ''slot out of range'', app)
       else
         (let ttl_secs = clamp 1 (max_share_secs (ev_cfg ev)) ttl;
              (r, cut, gs) = share_create (ev_crypto ev) (ev_share_key ev) (s_username s) index ttl_secs note
                (dr_unix d) (dr_unix d) (dr_did d) (dr_chan d) (ap_shares app);
              app1 = app\<lparr>ap_shares := gs, ap_cut := ap_cut app @ cut\<rparr>
          in case r of
               Inl TooMany \<Rightarrow> (status_text 429 (''you already have '' @ show_nat max_grants_per_user @
                 '' active share links; revoke one first''), app1)
             | Inr (token, gid) \<Rightarrow>
                 (json (Share_body (share_url (ev_cfg ev) token) gid ttl_secs),
                  app1\<lparr>ap_log := ap_log app1 @ [Shared (s_username s) index (sat_add64 (dr_unix d) ttl_secs)]\<rparr>)))) app)"

definition list_shares :: "env \<Rightarrow> draw \<Rightarrow> jar \<Rightarrow> 's app \<Rightarrow> response \<times> 's app" where
  "list_shares ev d j = with_auth ev d j (\<lambda>s app.
     let (mine, cut, gs) = share_list (dr_unix d) (s_username s) (ap_shares app);
         entry = (\<lambda>g. \<lparr>sh_grant = g_id g, sh_index = g_index g, sh_secs = g_expires_at g - dr_unix d, sh_note = g_note g,
            sh_url = share_url (ev_cfg ev) (share_token_for (ev_crypto ev) (ev_share_key ev) g)\<rparr>)
     in (json (Shares_body (sort_key (\<lambda>e. (sh_secs e, sh_index e)) (map entry mine))),
         app\<lparr>ap_shares := gs, ap_cut := ap_cut app @ cut\<rparr>))"

definition revoke_share :: "env \<Rightarrow> draw \<Rightarrow> jar \<Rightarrow> string \<Rightarrow> string \<Rightarrow> 's app \<Rightarrow> response \<times> 's app" where
  "revoke_share ev d j csrf gid = with_auth ev d j (\<lambda>s. with_csrf s csrf (\<lambda>app.
     let (found, cut, gs) = share_revoke (s_username s) gid (ap_shares app)
     in (if found then no_content else status_text 404 ''share grant not found'',
         app\<lparr>ap_shares := gs, ap_cut := ap_cut app @ cut\<rparr>)))"

subsection \<open>Trusted devices\<close>

definition here :: "env \<Rightarrow> jar \<Rightarrow> 's app \<Rightarrow> string option" where
  "here ev j app = Option.bind (device_token j) (\<lambda>t. device_id_for_token (ev_th ev) t (ap_devices app))"

definition list_devices :: "env \<Rightarrow> draw \<Rightarrow> jar \<Rightarrow> 's app \<Rightarrow> response \<times> 's app" where
  "list_devices ev d j = with_auth ev d j (\<lambda>s app.
     if \<not> remember_device (ev_cfg ev) then (json (Devices_body False 0 []), app)
     else case identity_parse (s_username s) of
       Inl e \<Rightarrow> (status_text 500 ''malformed identity'', app)
     | Inr who \<Rightarrow>
         (let mine = (case current_enrolled_at who app of
                None \<Rightarrow> []
              | Some at \<Rightarrow> device_list who at (dr_unix d) (ap_devices app));
              entry = (\<lambda>x. \<lparr>de_id = d_id x, de_current = (here ev j app = Some (d_id x)), de_user_agent = d_user_agent x,
                de_last_ip = d_last_ip x, de_created_at = d_created_at x, de_expires_at = d_expires_at x,
                de_last_used_at = d_last_used_at x, de_secs = d_expires_at x - dr_unix d\<rparr>)
          in (json (Devices_body True (remember_device_window (ev_cfg ev) div 86400) (map entry mine)), app)))"

definition revoke_device :: "env \<Rightarrow> draw \<Rightarrow> jar \<Rightarrow> string \<Rightarrow> string \<Rightarrow> string option \<Rightarrow> 's app \<Rightarrow> response \<times> 's app" where
  "revoke_device ev d j csrf did every = with_auth ev d j (\<lambda>s. with_csrf s csrf (\<lambda>app.
     case identity_parse (s_username s) of
       Inl e \<Rightarrow> (status_text 500 ''malformed identity'', app)
     | Inr who \<Rightarrow>
         if every \<noteq> None then
           (with_jar (jar_remove cleared_device_cookie j) no_content,
            app\<lparr>ap_devices := snd (device_revoke_all who (dr_disk d 3) (ap_devices app))\<rparr>)
         else
           (let (found, ds) = device_revoke who did (dr_disk d 3) (ap_devices app)
            in if \<not> found then (status_text 404 ''device not found'', app\<lparr>ap_devices := ds\<rparr>)
               else (if here ev j app = Some did then with_jar (jar_remove cleared_device_cookie j) no_content
                     else no_content, app\<lparr>ap_devices := ds\<rparr>))))"

subsection \<open>The owner's WebSocket\<close>

definition ws_handler :: "env \<Rightarrow> draw \<Rightarrow> jar \<Rightarrow> headers \<Rightarrow> string \<Rightarrow> 's app \<Rightarrow> response \<times> 's app" where
  "ws_handler ev d j hs csrf = with_auth ev d j (\<lambda>s. with_csrf s csrf (\<lambda>app.
     if \<not> origin_allowed (ev_cfg ev) hs then (status_text 403 ''origin not allowed'', app)
     else (\<lparr>rs_status = 101, rs_headers = [],
            rs_body = Mux_upgrade (s_username s) (s_chan s)
              (dr_now d + session_remaining (ss_ttl (ap_sessions app)) (dr_now d) s),
            rs_cookies = []\<rparr>, app)))"

subsection \<open>The private namespace\<close>

datatype private_request =
    Page
  | Websocket string
  | Logout string "string option"
  | List_terminals
  | Reset string nat
  | Share_slot string nat nat string
  | List_shares
  | Revoke_share string string
  | Prefs string nat string
  | List_devices
  | Revoke_device string string "string option"

definition private_handler :: "env \<Rightarrow> draw \<Rightarrow> jar \<Rightarrow> headers \<Rightarrow> private_request \<Rightarrow> 's app \<Rightarrow> response \<times> 's app" where
  "private_handler ev d j hs req =
    (case req of
      Page \<Rightarrow> terminal_page ev d j hs
    | Websocket csrf \<Rightarrow> ws_handler ev d j hs csrf
    | Logout csrf forget_field \<Rightarrow> logout ev d j csrf forget_field
    | List_terminals \<Rightarrow> list_terminals ev d j
    | Reset csrf index \<Rightarrow> reset_terminal ev d j csrf index
    | Share_slot csrf index ttl note \<Rightarrow> create_share ev d j csrf index ttl note
    | List_shares \<Rightarrow> list_shares ev d j
    | Revoke_share csrf gid \<Rightarrow> revoke_share ev d j csrf gid
    | Prefs csrf font_size font_family \<Rightarrow> set_prefs ev d j csrf font_size font_family
    | List_devices \<Rightarrow> list_devices ev d j
    | Revoke_device csrf did every \<Rightarrow> revoke_device ev d j csrf did every)"

text \<open>The middleware around the router: \<open>next\<close> is what runs behind it, extractors included.\<close>

definition auth_layer ::
  "env \<Rightarrow> draw \<Rightarrow> jar \<Rightarrow> headers \<Rightarrow> ('s app \<Rightarrow> response \<times> 's app) \<Rightarrow> 's app \<Rightarrow> response \<times> 's app" where
  "auth_layer ev d j hs next app =
    (case authed_session ev d j app of
      (Some _, app1) \<Rightarrow> next app1
    | (None, app1) \<Rightarrow>
        (let wants_html = (case header ''accept'' hs of Some a \<Rightarrow> str_contains ''text/html'' a | None \<Rightarrow> False)
         in (if wants_html then redirect ''/webshell/login'' else status_text 401 ''not authenticated'', app1)))"

definition require_auth :: "env \<Rightarrow> draw \<Rightarrow> jar \<Rightarrow> headers \<Rightarrow> private_request \<Rightarrow> 's app \<Rightarrow> response \<times> 's app" where
  require_auth_layer: "require_auth ev d j hs req = auth_layer ev d j hs (private_handler ev d j hs req)"

lemma require_auth_def:
  "require_auth ev d j hs req app =
    (case authed_session ev d j app of
      (Some _, app1) \<Rightarrow> private_handler ev d j hs req app1
    | (None, app1) \<Rightarrow>
        (let wants_html = (case header ''accept'' hs of Some a \<Rightarrow> str_contains ''text/html'' a | None \<Rightarrow> False)
         in (if wants_html then redirect ''/webshell/login'' else status_text 401 ''not authenticated'', app1)))"
  by (simp add: require_auth_layer auth_layer_def)

subsection \<open>The public namespace\<close>

definition resolve_share :: "env \<Rightarrow> draw \<Rightarrow> string \<Rightarrow> 's app \<Rightarrow> (string \<times> nat) option \<times> 's app" where
  "resolve_share ev d token app =
    (if \<not> sharing_enabled (ev_cfg ev) then (None, app)
     else
       (let (r, cut, gs) = share_resolve (ev_crypto ev) (ev_share_key ev) (dr_unix d) token (ap_shares app)
        in (r, app\<lparr>ap_shares := gs, ap_cut := ap_cut app @ cut\<rparr>)))"

definition access_status :: "env \<Rightarrow> draw \<Rightarrow> string \<Rightarrow> 's app \<Rightarrow> response \<times> 's app" where
  "access_status ev d token app =
    (let remaining = (if sharing_enabled (ev_cfg ev)
           then share_remaining_secs (ev_crypto ev) (ev_share_key ev) (dr_unix d) token (ap_shares app) else None)
     in (json (case remaining of Some n \<Rightarrow> Status_body True n | None \<Rightarrow> Status_body False 0), app))"

definition access_meta :: "env \<Rightarrow> draw \<Rightarrow> string \<Rightarrow> 's app \<Rightarrow> response \<times> 's app" where
  "access_meta ev d token app =
    (case resolve_share ev d token app of
      (None, app1) \<Rightarrow> (status_text 403 ''invalid or expired share link'', app1)
    | (Some (user, index), app1) \<Rightarrow>
        (let (grid, terms) = current_size user index (ap_terms app1);
             (cols, rows) = (case grid of Some g \<Rightarrow> g | None \<Rightarrow> (80, 24));
             (font_size, font_family) = (case hm_get (ap_prefs app1) user of
               Some p \<Rightarrow> (cp_font_size p, cp_font_family p)
             | None \<Rightarrow> (14, ''ui-monospace, SFMono-Regular, Menlo, monospace''))
         in (json (Meta_body \<lparr>am_slot = index, am_owner = user, am_cols = cols, am_rows = rows,
               am_font_size = font_size, am_font_family = font_family\<rparr>), app1\<lparr>ap_terms := terms\<rparr>)))"

text \<open>The markup of \<open>SHARE_INVALID_HTML\<close> has no placeholder.\<close>

definition share_invalid_html :: string where
  "share_invalid_html =
     ''<!doctype html><meta charset=utf-8><title>webshell</title><link rel=icon href=/webshell/favicon.ico><body'' @
     attr ''style'' (''font-family:system-ui;background:#0f1115;'' @
       ''color:#e6e6e6;display:grid;place-items:center;height:100vh;margin:0'') @
     ''><p>This share link is invalid or has expired.</p>''"

definition access_page :: "env \<Rightarrow> draw \<Rightarrow> headers \<Rightarrow> string \<Rightarrow> 's app \<Rightarrow> response \<times> 's app" where
  "access_page ev d hs token app =
    (case resolve_share ev d token app of
      (None, app1) \<Rightarrow>
        ((html_page (html_headers (dr_nonce d) False hs)
           (str_replace ''{{NONCE}}'' (html_escape (dr_nonce d)) share_invalid_html))\<lparr>rs_status := 410\<rparr>, app1)
    | (Some _, app1) \<Rightarrow>
        (html_page (html_headers (dr_nonce d) True hs)
           (str_replace ''{{NONCE}}'' (html_escape (dr_nonce d)) (as_access (ev_assets ev))), app1))"

definition attach_error_text :: "attach_error \<Rightarrow> string" where
  "attach_error_text e =
    (case e of Out_of_range \<Rightarrow> ''slot out of range'' | Not_running \<Rightarrow> ''session not running'' | Spawn_error _ \<Rightarrow> [])"

definition access_ws ::
  "env \<Rightarrow> draw \<Rightarrow> headers \<Rightarrow> string \<Rightarrow> u64 option \<Rightarrow> u64 option \<Rightarrow> 's app \<Rightarrow> response \<times> 's app" where
  "access_ws ev d hs token epoch offset app =
    (if \<not> sharing_enabled (ev_cfg ev) then (status_text 403 ''sharing is disabled'', app)
     else case share_lease (ev_crypto ev) (ev_share_key ev) (dr_permit d) (dr_unix d) token (ap_shares app) of
       Inl Invalid \<Rightarrow> (status_text 403 ''invalid or expired share link'', app)
     | Inl Full \<Rightarrow> (status_text 429 ''too many viewers on this share link'', app)
     | Inr l \<Rightarrow>
         if \<not> origin_allowed (ev_cfg ev) hs then (status_text 403 ''origin not allowed'', app)
         else
           (let resume = (case (epoch, offset) of (Some e, Some off) \<Rightarrow> Some (e, off) | _ \<Rightarrow> None);
                (r, terms) = attach_view (l_username l) (l_index l) resume (ap_terms app);
                app1 = app\<lparr>ap_terms := terms\<rparr>
            in case r of
                 Inl e \<Rightarrow> (status_text 400 (attach_error_text e), app1)
               | Inr att \<Rightarrow> (\<lparr>rs_status = 101, rs_headers = [], rs_body = View_upgrade att l, rs_cookies = []\<rparr>, app1)))"

subsection \<open>All routes\<close>

datatype public_request =
    Access_page string
  | Access_ws string "u64 option" "u64 option"
  | Access_status string
  | Access_meta string

datatype request =
    Login_page
  | Local_login login_form
  | Oauth_start string
  | Oauth_callback callback_query
  | Mfa_page
  | Mfa_submit mfa_form
  | Mfa_cancel string
  | Private private_request
  | Public public_request

definition public_handler :: "env \<Rightarrow> draw \<Rightarrow> headers \<Rightarrow> public_request \<Rightarrow> 's app \<Rightarrow> response \<times> 's app" where
  "public_handler ev d hs req =
    (case req of
      Access_page token \<Rightarrow> access_page ev d hs token
    | Access_ws token epoch offset \<Rightarrow> access_ws ev d hs token epoch offset
    | Access_status token \<Rightarrow> access_status ev d token
    | Access_meta token \<Rightarrow> access_meta ev d token)"

definition handle :: "env \<Rightarrow> draw \<Rightarrow> jar \<Rightarrow> headers \<Rightarrow> request \<Rightarrow> 's app \<Rightarrow> progress \<times> 's app" where
  "handle ev d j hs req app =
    (case req of
      Login_page \<Rightarrow> reply (login_page ev d j hs app)
    | Local_login form \<Rightarrow> local_login ev d j hs form app
    | Oauth_start csrf \<Rightarrow> reply (oauth_start ev d j csrf app)
    | Oauth_callback q \<Rightarrow> oauth_callback ev d j hs q app
    | Mfa_page \<Rightarrow> reply (mfa_page ev d j hs app)
    | Mfa_submit form \<Rightarrow> mfa_submit ev d j hs form app
    | Mfa_cancel csrf \<Rightarrow> reply (mfa_cancel ev d j csrf app)
    | Private req \<Rightarrow> reply (require_auth ev d j hs req app)
    | Public req \<Rightarrow> reply (public_handler ev d hs req app))"

text \<open>The outermost layer.\<close>

definition hsts :: "config \<Rightarrow> response \<Rightarrow> response" where
  "hsts cfg r =
    (if cookie_secure cfg
     then r\<lparr>rs_headers := rs_headers r @ [(''strict-transport-security'', ''max-age=31536000'')]\<rparr> else r)"

end
