(* ===== verification/Server.thy ===== *)
theory Server
  imports Api
begin

text \<open>
  The whole server: requests of any number of clients, the pauses of their handlers, the throttle's
  buckets, the minute sweep and the terminals' own life interleave in any order. What a session, a
  trusted browser, a share link and a WebSocket rest on is shown to have been verified.
\<close>

subsection \<open>Steps\<close>

text \<open>Handlers that wait, attempts that hold their bucket (with the time the tarpit lets them go on), and everything
  answered so far.\<close>

record 's server =
  sv_app :: "'s app"
  sv_waiting :: "pause list"
  sv_holding :: "(nat \<times> turn) list"
  sv_answers :: "response list"

text \<open>What the three files hold at startup, as read and parsed (\<open>None\<close> when there is none). \<open>serve\<close> opens the stores in
  this order and gives up on the first file it cannot read; the sessions stay in memory in the zero-config
  mode and without a configured path.\<close>

record 'e files =
  fl_enrol :: "('e + (identity \<times> enrol_record) list) option"
  fl_devices :: "('e + device list) option"
  fl_sessions :: "('e + (string \<times> disk_session) list) option"

definition terms_new :: "config \<Rightarrow> 's terminals" where
  "terms_new cfg =
    terminals_new (slots_per_user cfg) (login_cmd cfg) (envs cfg) (owner cfg) (owner_home cfg) (scrollback_cap cfg)"

definition open_app :: "env \<Rightarrow> draw \<Rightarrow> bool \<Rightarrow> 'e files \<Rightarrow> 'e + 's app" where
  "open_app ev d simple fl =
    (let cfg = ev_cfg ev; ttl = secs (session_ttl_secs cfg)
     in case enrol_load (fl_enrol fl) of
       Inl e \<Rightarrow> Inl e
     | Inr em \<Rightarrow>
       (case device_load (fl_devices fl) (dr_unix d) of
         Inl e \<Rightarrow> Inl e
       | Inr dm \<Rightarrow>
         (case (if simple \<or> session_path cfg = None then Inr (session_new ttl)
                else session_load ttl (dr_now d) (dr_unix d) (dr_chan d) (dr_disk d 0) (fl_sessions fl)) of
           Inl e \<Rightarrow> Inl e
         | Inr ss \<Rightarrow> Inr (app_new ss (terms_new cfg)
             \<lparr>es_map = em, es_disk = (case fl_enrol fl of Some (Inr es) \<Rightarrow> Some es | _ \<Rightarrow> None)\<rparr>
             \<lparr>ds_map = dm, ds_disk = (case fl_devices fl of Some (Inr ds) \<Rightarrow> Some ds | _ \<Rightarrow> None)\<rparr>))))"

text \<open>The first start, with the enrolments that were read from disk: no session and no trusted browser is on disk yet.\<close>

definition server_new :: "env \<Rightarrow> enrol_store \<Rightarrow> 's server" where
  "server_new ev es =
    (let cfg = ev_cfg ev; ttl = secs (session_ttl_secs cfg)
     in \<lparr>sv_app = app_new (if session_path cfg = None then session_new ttl
             else \<lparr>ss_map = [], ss_ttl = ttl, ss_path = True, ss_disk = None\<rparr>) (terms_new cfg) es device_new,
         sv_waiting = [], sv_holding = [], sv_answers = []\<rparr>)"

lemma open_app_fresh:
  assumes "session_path (ev_cfg ev) = None \<or> \<not> simple"
  shows "open_app ev d simple \<lparr>fl_enrol = map_option Inr es, fl_devices = None, fl_sessions = None\<rparr> =
    Inr (sv_app (server_new ev \<lparr>es_map = foldl (\<lambda>m (i, r). hm_insert i r m) [] (case es of Some l \<Rightarrow> l | None \<Rightarrow> []), es_disk = es\<rparr>))"
  using assms by (auto simp: open_app_def server_new_def Let_def enrol_load_def device_load_def session_load_def device_new_def
      split: option.split)

text \<open>The process ends at any moment and is started again with the same configuration: it finds what it last wrote.
  The log stays, being what happened and not a part of the program.\<close>

definition files_left :: "'s app \<Rightarrow> unit files" where
  "files_left app =
    \<lparr>fl_enrol = map_option Inr (es_disk (ap_enrol app)), fl_devices = map_option Inr (ds_disk (ap_devices app)),
     fl_sessions = map_option Inr (ss_disk (ap_sessions app))\<rparr>"

definition answer :: "env \<Rightarrow> response \<Rightarrow> 's app \<Rightarrow> 's server \<Rightarrow> 's server" where
  "answer ev r app sv = sv\<lparr>sv_app := app, sv_answers := sv_answers sv @ [hsts (ev_cfg ev) r]\<rparr>"

definition minute_sweep :: "draw \<Rightarrow> 's app \<Rightarrow> 's app" where
  "minute_sweep d app =
    (let (gone, ss) = session_sweep (dr_now d) (dr_disk d 0) (ap_sessions app);
         (_, cut, gs) = share_sweep (\<lambda>_. False) (dr_unix d) (ap_shares app);
         (_, ds) = device_sweep (dr_unix d) (dr_disk d 1) (ap_devices app)
     in app\<lparr>ap_sessions := ss, ap_gone := ap_gone app @ gone, ap_shares := gs, ap_cut := ap_cut app @ cut, ap_devices := ds\<rparr>)"

inductive attend :: "env \<Rightarrow> 's server \<Rightarrow> 's server \<Rightarrow> bool" for ev where
  v_reply: "handle ev d j hs req (sv_app sv) = (Reply r, app) \<Longrightarrow> attend ev sv (answer ev r app sv)"
| v_pause: "handle ev d j hs req (sv_app sv) = (Pause p, app) \<Longrightarrow>
    attend ev sv (sv\<lparr>sv_app := app, sv_waiting := sv_waiting sv @ [p]\<rparr>)"
| v_turn: "For_turn t \<in> set (sv_waiting sv) \<Longrightarrow> turn_bucket t \<notin> turn_bucket ` snd ` set (sv_holding sv) \<Longrightarrow>
    guard_enter (turn_bucket t) now (ap_guard (sv_app sv)) = (wake, g) \<Longrightarrow>
    attend ev sv (sv\<lparr>sv_app := (sv_app sv)\<lparr>ap_guard := g\<rparr>, sv_waiting := remove1 (For_turn t) (sv_waiting sv),
      sv_holding := sv_holding sv @ [(wake, t)]\<rparr>)"
| v_finish: "(wake, t) \<in> set (sv_holding sv) \<Longrightarrow> wake \<le> dr_now d \<Longrightarrow> finish_turn ev d t (sv_app sv) = (r, app) \<Longrightarrow>
    attend ev sv ((answer ev r app sv)\<lparr>sv_holding := remove1 (wake, t) (sv_holding sv)\<rparr>)"
| v_google: "For_google j hs sid fl auth_code \<in> set (sv_waiting sv) \<Longrightarrow>
    finish_google ev d g j hs sid fl auth_code (sv_app sv) = (r, app) \<Longrightarrow>
    attend ev sv ((answer ev r app sv)\<lparr>sv_waiting := remove1 (For_google j hs sid fl auth_code) (sv_waiting sv)\<rparr>)"
| v_hang_up: "attend ev sv (sv\<lparr>sv_waiting := remove1 p (sv_waiting sv)\<rparr>)"
| v_give_up: "attend ev sv (sv\<lparr>sv_holding := remove1 h (sv_holding sv)\<rparr>)"
| v_sweep: "attend ev sv (sv\<lparr>sv_app := minute_sweep d (sv_app sv)\<rparr>)"

inductive serve :: "env \<Rightarrow> 's emulator \<Rightarrow> 's server \<Rightarrow> 's server \<Rightarrow> bool" for ev em where
  v_attend: "attend ev sv sv' \<Longrightarrow> serve ev em sv sv'"
| v_terminals: "slots_step em (ap_terms (sv_app sv)) ts \<Longrightarrow> serve ev em sv (sv\<lparr>sv_app := (sv_app sv)\<lparr>ap_terms := ts\<rparr>\<rparr>)"

inductive process :: "env \<Rightarrow> 's emulator \<Rightarrow> 's server \<Rightarrow> 's server \<Rightarrow> bool" for ev em where
  r_serve: "serve ev em sv sv' \<Longrightarrow> process ev em sv sv'"
| r_restart: "open_app ev d simple (files_left (sv_app sv)) = Inr app \<Longrightarrow>
    process ev em sv (sv\<lparr>sv_app := app\<lparr>ap_log := ap_log (sv_app sv)\<rparr>, sv_waiting := [], sv_holding := []\<rparr>)"

lemma attend_serve: "(attend ev)\<^sup>*\<^sup>* sv sv' \<Longrightarrow> (serve ev em)\<^sup>*\<^sup>* sv sv'"
  by (induction rule: rtranclp_induct) (auto intro: rtranclp.rtrancl_into_rtrancl v_attend)

lemma serve_process: "(serve ev em)\<^sup>*\<^sup>* sv sv' \<Longrightarrow> (process ev em)\<^sup>*\<^sup>* sv sv'"
  by (induction rule: rtranclp_induct) (auto intro: rtranclp.rtrancl_into_rtrancl r_serve)

subsection \<open>What was verified\<close>

definition factor_ok :: "env \<Rightarrow> factor \<Rightarrow> bool" where
  "factor_ok ev f \<longleftrightarrow> permits (ev_cfg ev) (factor_identity f) \<and>
     (case f of
       By_password who hash password \<Rightarrow>
         local_password (ev_cfg ev) who = Some hash \<and> verify_password (ev_hashers ev) hash password = Inr True
     | By_google v \<Rightarrow> \<exists>g now auth_code fl. exchange g now (the (google_client_id (ev_cfg ev)))
         (the (google_client_secret (ev_cfg ev))) (the (redirect_uri (ev_cfg ev))) auth_code fl = Inr v)"

definition code_ok :: "env \<Rightarrow> string \<Rightarrow> string \<Rightarrow> nat \<Rightarrow> bool" where
  "code_ok ev secret otp t \<longleftrightarrow> valid_seed secret \<and> totp_verify (ev_hmac ev) secret otp t"

definition half_in :: "event list \<Rightarrow> string \<Rightarrow> string \<Rightarrow> bool" where
  "half_in log k user \<longleftrightarrow> (\<exists>f. Half_in k f \<in> set log \<and> user = identity_str (factor_identity f))"

definition full_in :: "event list \<Rightarrow> string \<Rightarrow> string \<Rightarrow> bool" where
  "full_in log k user \<longleftrightarrow> (\<exists>r. Full_in k user r \<in> set log)"

definition route_ok :: "env \<Rightarrow> event list \<Rightarrow> string \<Rightarrow> route \<Rightarrow> bool" where
  "route_ok ev log user r \<longleftrightarrow>
    (case r of
      Without_code f \<Rightarrow> \<not> mfa_required (ev_cfg ev) \<and> factor_ok ev f \<and> user = identity_str (factor_identity f)
    | Trusted_browser f token at \<Rightarrow> remember_device (ev_cfg ev) \<and> factor_ok ev f \<and> user = identity_str (factor_identity f) \<and>
        Remembered (ev_th ev token) (factor_identity f) at \<in> set log
    | With_code k secret otp t \<Rightarrow> code_ok ev secret otp t \<and> half_in log k user)"

definition event_ok :: "env \<Rightarrow> event list \<Rightarrow> event \<Rightarrow> bool" where
  "event_ok ev log e \<longleftrightarrow>
    (case e of
      Half_in k f \<Rightarrow> factor_ok ev f
    | Full_in k user r \<Rightarrow> route_ok ev log user r
    | Shared user index ex \<Rightarrow> \<exists>k. full_in log k user
    | Remembered h who at \<Rightarrow> \<exists>k user k0 secret otp t. Full_in k user (With_code k0 secret otp t) \<in> set log \<and>
        identity_parse user = Inr who)"

subsection \<open>The invariant\<close>

definition sess_ok :: "event list \<Rightarrow> (string, session) hmap \<Rightarrow> bool" where
  "sess_ok log m \<longleftrightarrow> (\<forall>k s. hm_get m k = Some s \<longrightarrow>
     (s_authenticated s \<longrightarrow> full_in log k (s_username s)) \<and> (s_mfa_pending s \<longrightarrow> half_in log k (s_username s)))"

definition trust_ok :: "event list \<Rightarrow> (string, device) hmap \<Rightarrow> bool" where
  "trust_ok log m \<longleftrightarrow> (\<forall>k x. hm_get m k = Some x \<longrightarrow> Remembered k (d_identity x) (d_enrolled_at x) \<in> set log)"

definition links_ok :: "event list \<Rightarrow> grants \<Rightarrow> bool" where
  "links_ok log m \<longleftrightarrow> (\<forall>k g. hm_get m k = Some g \<longrightarrow> Shared (g_username g) (g_index g) (g_expires_at g) \<in> set log)"

text \<open>The same of what is on disk, which a restart reads back.\<close>

definition sess_disk_ok :: "event list \<Rightarrow> session_store \<Rightarrow> bool" where
  "sess_disk_ok log store \<longleftrightarrow> (\<forall>es k x. ss_disk store = Some es \<longrightarrow> (k, x) \<in> set es \<longrightarrow>
     (k_authenticated x \<longrightarrow> full_in log k (k_username x)) \<and> (k_mfa_pending x \<longrightarrow> half_in log k (k_username x)))"

definition trust_disk_ok :: "event list \<Rightarrow> device_store \<Rightarrow> bool" where
  "trust_disk_ok log store \<longleftrightarrow> (\<forall>xs x. ds_disk store = Some xs \<longrightarrow> x \<in> set xs \<longrightarrow>
     Remembered (d_token_hash x) (d_identity x) (d_enrolled_at x) \<in> set log)"

definition app_ok :: "env \<Rightarrow> 's app \<Rightarrow> bool" where
  "app_ok ev app \<longleftrightarrow> hm_ok (ss_map (ap_sessions app)) \<and> sess_ok (ap_log app) (ss_map (ap_sessions app)) \<and>
     sess_disk_ok (ap_log app) (ap_sessions app) \<and> trust_disk_ok (ap_log app) (ap_devices app) \<and>
     devices_ok (ap_devices app) \<and> trust_ok (ap_log app) (ds_map (ap_devices app)) \<and>
     grants_ok (ap_shares app) \<and> links_ok (ap_log app) (ap_shares app) \<and> pools_ok (ap_terms app) \<and>
     list_all (event_ok ev (ap_log app)) (ap_log app)"

text \<open>One state leads to another, keeping the invariant, everything logged and every signal sent, and treating the
  terminals as others may rely on.\<close>

definition goes :: "env \<Rightarrow> 's app \<Rightarrow> 's app \<Rightarrow> bool" where
  "goes ev app app' \<longleftrightarrow> (app_ok ev app \<longrightarrow> app_ok ev app' \<and> set (ap_log app) \<subseteq> set (ap_log app') \<and>
     extends (ap_terms app) (ap_terms app') \<and> all_quiet (ap_terms app) (ap_terms app') \<and>
     set (ap_gone app) \<subseteq> set (ap_gone app') \<and> set (ap_cut app) \<subseteq> set (ap_cut app'))"

definition turn_ok :: "env \<Rightarrow> event list \<Rightarrow> turn \<Rightarrow> bool" where
  "turn_ok ev log t \<longleftrightarrow>
    (case t of
      Unlisted _ _ \<Rightarrow> True
    | Check_password _ _ _ who _ \<Rightarrow> permits (ev_cfg ev) who
    | Check_code _ _ sid s who _ \<Rightarrow> half_in log (ev_sk ev sid) (s_username s) \<and> identity_parse (s_username s) = Inr who)"

definition pause_ok :: "env \<Rightarrow> event list \<Rightarrow> pause \<Rightarrow> bool" where
  "pause_ok ev log p \<longleftrightarrow> (case p of For_turn t \<Rightarrow> turn_ok ev log t | For_google _ _ _ _ _ \<Rightarrow> True)"

definition body_ok :: "env \<Rightarrow> event list \<Rightarrow> body \<Rightarrow> bool" where
  "body_ok ev log b \<longleftrightarrow>
    (case b of
      Mux_upgrade user _ _ \<Rightarrow> \<exists>k. full_in log k user
    | View_upgrade att l \<Rightarrow> Shared (l_username l) (l_index l) (l_expires_at l) \<in> set log \<and> sharing_enabled (ev_cfg ev)
    | _ \<Rightarrow> True)"

lemma goes_refl [simp]: "goes ev app app"
  by (simp add: goes_def app_ok_def)

lemma goes_trans: "goes ev a b \<Longrightarrow> goes ev b c \<Longrightarrow> goes ev a c"
  by (auto simp: goes_def intro: extends_trans all_quiet_trans)

lemma log_mono:
  assumes "set log \<subseteq> set log'"
  shows "half_in log k u \<Longrightarrow> half_in log' k u" "full_in log k u \<Longrightarrow> full_in log' k u"
    "route_ok ev log u r \<Longrightarrow> route_ok ev log' u r" "event_ok ev log e \<Longrightarrow> event_ok ev log' e"
    "sess_ok log m \<Longrightarrow> sess_ok log' m" "trust_ok log ds \<Longrightarrow> trust_ok log' ds" "links_ok log gs \<Longrightarrow> links_ok log' gs"
    "turn_ok ev log t \<Longrightarrow> turn_ok ev log' t" "pause_ok ev log p \<Longrightarrow> pause_ok ev log' p" "body_ok ev log b \<Longrightarrow> body_ok ev log' b"
    "sess_disk_ok log ss \<Longrightarrow> sess_disk_ok log' ss" "trust_disk_ok log dv \<Longrightarrow> trust_disk_ok log' dv"
proof -
  show half: "half_in log k u \<Longrightarrow> half_in log' k u" for k u using assms by (auto simp: half_in_def)
  show full: "full_in log k u \<Longrightarrow> full_in log' k u" for k u using assms by (auto simp: full_in_def)
  show route: "route_ok ev log u r \<Longrightarrow> route_ok ev log' u r" for u r
    using assms half by (auto simp: route_ok_def split: route.splits)
  show "event_ok ev log e \<Longrightarrow> event_ok ev log' e"
    using assms full route by (auto simp: event_ok_def split: event.splits) (blast+)?
  show "sess_ok log m \<Longrightarrow> sess_ok log' m" using half full by (auto simp: sess_ok_def)
  show "trust_ok log ds \<Longrightarrow> trust_ok log' ds" "links_ok log gs \<Longrightarrow> links_ok log' gs"
    using assms by (auto simp: trust_ok_def links_ok_def)
  show "sess_disk_ok log ss \<Longrightarrow> sess_disk_ok log' ss" using half full by (fastforce simp: sess_disk_ok_def)
  show "trust_disk_ok log dv \<Longrightarrow> trust_disk_ok log' dv" using assms by (fastforce simp: trust_disk_ok_def)
  show turn: "turn_ok ev log t \<Longrightarrow> turn_ok ev log' t" for t using half by (auto simp: turn_ok_def split: turn.splits)
  show "pause_ok ev log p \<Longrightarrow> pause_ok ev log' p" using turn by (auto simp: pause_ok_def split: pause.splits)
  show "body_ok ev log b \<Longrightarrow> body_ok ev log' b" using assms full by (auto simp: body_ok_def split: body.splits) (blast+)?
qed

text \<open>Adding an event.\<close>

lemma goes_log:
  assumes "app_ok ev app \<Longrightarrow> event_ok ev (ap_log app) e"
  shows "goes ev app (app\<lparr>ap_log := ap_log app @ [e]\<rparr>)"
proof -
  have sub: "set (ap_log app) \<subseteq> set (ap_log app @ [e])" by auto
  show ?thesis
    using assms log_mono [OF sub] by (auto simp: goes_def app_ok_def list_all_iff)
qed

subsection \<open>Sessions keep the invariant\<close>

lemma sess_ok_insert:
  "sess_ok log m \<Longrightarrow> (s_authenticated s \<Longrightarrow> full_in log k (s_username s)) \<Longrightarrow>
    (s_mfa_pending s \<Longrightarrow> half_in log k (s_username s)) \<Longrightarrow> sess_ok log (hm_insert k s m)"
  by (auto simp: sess_ok_def hm_laws)

lemma sess_ok_remove: "sess_ok log m \<Longrightarrow> sess_ok log (hm_remove k m)"
  by (auto simp: sess_ok_def hm_laws)

lemma sess_ok_retain: "hm_ok m \<Longrightarrow> sess_ok log m \<Longrightarrow> sess_ok log (hm_retain P m)"
  by (auto simp: sess_ok_def hm.get_ret_Some)

text \<open>Every operation either leaves the file alone or writes the sessions as they then are.\<close>

definition disk_follows :: "session_store \<Rightarrow> session_store \<Rightarrow> bool" where
  "disk_follows store store' \<longleftrightarrow>
    ss_disk store' = ss_disk store \<or> (\<exists>ttl now. ss_disk store' = Some (session_image ttl now (ss_map store')))"

lemma disk_follows_ops [simp]:
  "disk_follows store (snd (snd (session_get sk sid now ok store)))"
  "disk_follows store (snd (session_create sk new_id csrf now unix ch store))"
  "disk_follows store (snd (session_remove sk sid now ok store))"
  "disk_follows store (snd (session_promote auth pend sk old user new_id csrf now unix ch ok store))"
  "disk_follows store (snd (session_sweep now ok store))"
  "disk_follows store (session_set_oauth sk sid fl now ok store)"
  by (auto simp: disk_follows_def session_ops persist_locked_def split: option.split prod.split)

lemma disk_follows_simps [simp]:
  "disk_follows store store" "disk_follows store (store\<lparr>ss_map := m\<rparr>)"
  "disk_follows store (persist_locked now ok (store\<lparr>ss_map := m\<rparr>))"
  by (auto simp: disk_follows_def persist_locked_def)

lemma image_ok:
  assumes "hm_ok m" "sess_ok log m" "(k, x) \<in> set (session_image ttl now m)"
  shows "(k_authenticated x \<longrightarrow> full_in log k (k_username x)) \<and> (k_mfa_pending x \<longrightarrow> half_in log k (k_username x))"
proof -
  obtain s where "(k, s) \<in> set m" "x = to_disk s" using assms(3) by (auto simp: session_image_def)
  then show ?thesis using assms(1,2) by (simp add: sess_ok_def to_disk_def hm_get_mem)
qed

lemma sess_disk_follows:
  "disk_follows store store' \<Longrightarrow> sess_disk_ok log store \<Longrightarrow> hm_ok (ss_map store') \<Longrightarrow> sess_ok log (ss_map store') \<Longrightarrow> sess_disk_ok log store'"
  unfolding disk_follows_def sess_disk_ok_def using image_ok by (metis option.inject)

lemma goes_sessions:
  assumes "app_ok ev app \<Longrightarrow> hm_ok (ss_map ss) \<and> sess_ok (ap_log app) (ss_map ss)" "disk_follows (ap_sessions app) ss"
  shows "goes ev app (app\<lparr>ap_sessions := ss, ap_gone := ap_gone app @ g\<rparr>)" "goes ev app (app\<lparr>ap_sessions := ss\<rparr>)"
  using assms sess_disk_follows [OF assms(2)] by (simp_all add: goes_def app_ok_def)

lemma app_okD:
  "app_ok ev app \<Longrightarrow> hm_ok (ss_map (ap_sessions app))" "app_ok ev app \<Longrightarrow> sess_ok (ap_log app) (ss_map (ap_sessions app))"
  "app_ok ev app \<Longrightarrow> devices_ok (ap_devices app)" "app_ok ev app \<Longrightarrow> trust_ok (ap_log app) (ds_map (ap_devices app))"
  "app_ok ev app \<Longrightarrow> grants_ok (ap_shares app)" "app_ok ev app \<Longrightarrow> links_ok (ap_log app) (ap_shares app)"
  "app_ok ev app \<Longrightarrow> pools_ok (ap_terms app)" "app_ok ev app \<Longrightarrow> e \<in> set (ap_log app) \<Longrightarrow> event_ok ev (ap_log app) e"
  "app_ok ev app \<Longrightarrow> sess_disk_ok (ap_log app) (ap_sessions app)" "app_ok ev app \<Longrightarrow> trust_disk_ok (ap_log app) (ap_devices app)"
  by (simp_all add: app_ok_def list_all_iff)

lemma session_get_ok:
  "hm_ok (ss_map ss) \<Longrightarrow> sess_ok log (ss_map ss) \<Longrightarrow>
   hm_ok (ss_map (snd (snd (session_get sk sid now ok ss)))) \<and> sess_ok log (ss_map (snd (snd (session_get sk sid now ok ss))))"
  by (auto simp: session_get_def hm_laws sess_ok_remove split: option.splits)

lemma goes_current_session: "goes ev app (snd (current_session ev d j app))"
proof (cases "jar_get cookie_name j")
  case (Some sid)
  then show ?thesis
    using session_get_ok [of "ap_sessions app" "ap_log app" "ev_sk ev" sid "dr_now d" "dr_disk d 0"]
    by (auto simp: current_session_def split_def Let_def app_okD intro!: goes_sessions)
qed (simp add: current_session_def)

lemma current_session_SomeD:
  "current_session ev d j app = (Some (sid, s), app') \<Longrightarrow>
    app' = app \<and> jar_get cookie_name j = Some sid \<and> hm_get (ss_map (ap_sessions app)) (ev_sk ev sid) = Some s"
  by (auto simp: current_session_def session_get_def split: option.splits if_splits prod.splits)

lemma current_session_fields:
  "ap_log (snd (current_session ev d j app)) = ap_log app" "ap_terms (snd (current_session ev d j app)) = ap_terms app"
  "ap_shares (snd (current_session ev d j app)) = ap_shares app" "ap_devices (snd (current_session ev d j app)) = ap_devices app"
  by (simp_all add: current_session_def split_def Let_def split: option.splits)

lemma goes_create_session: "goes ev app (snd (create_session ev d app))"
  unfolding create_session_def split_def Let_def snd_conv
  by (rule goes_sessions)
    (auto simp: session_create_def session_fresh_def Let_def app_okD hm_laws split: option.splits prod.splits
      intro!: sess_ok_insert sess_ok_remove)

lemma goes_remove_session: "goes ev app (remove_session ev d sid app)"
  unfolding remove_session_def split_def Let_def
  by (rule goes_sessions)
    (auto simp: session_remove_def app_okD hm_laws sess_ok_remove split: option.splits)

lemma sess_ok_same:
  "sess_ok log m \<Longrightarrow> hm_get m k = Some s \<Longrightarrow> sess_ok log (hm_insert k (s\<lparr>s_oauth := fl\<rparr>) m)"
  by (rule sess_ok_insert) (auto simp: sess_ok_def)

lemma goes_set_oauth: "goes ev app (set_oauth ev d sid fl app)"
  unfolding set_oauth_def
  by (rule goes_sessions) (auto simp: session_set_oauth_def app_okD hm_laws sess_ok_same split: option.splits)

lemma goes_sweep_sessions: "goes ev app (app\<lparr>ap_sessions := snd (session_sweep now ok (ap_sessions app)), ap_gone := ap_gone app @ g\<rparr>)"
  by (rule goes_sessions) (auto simp: session_sweep_def app_okD hm_laws sess_ok_retain Let_def)

text \<open>Letting a session in, with the evidence for it.\<close>

lemma goes_promote:
  assumes "app_ok ev app \<Longrightarrow> event_ok ev (ap_log app) e"
    and "auth \<Longrightarrow> \<exists>r. e = Full_in (ev_sk ev new_id) user r"
    and "pend \<Longrightarrow> \<exists>f. e = Half_in (ev_sk ev new_id) f \<and> user = identity_str (factor_identity f)"
  shows "goes ev app (app\<lparr>ap_sessions := snd (session_promote auth pend (ev_sk ev) old user new_id csrf now unix ch ok (ap_sessions app)),
      ap_gone := ap_gone app @ g, ap_log := ap_log app @ [e]\<rparr>)"
proof -
  let ?app = "app\<lparr>ap_log := ap_log app @ [e]\<rparr>"
  let ?ss = "snd (session_promote auth pend (ev_sk ev) old user new_id csrf now unix ch ok (ap_sessions app))"
  have "goes ev app ?app" using assms(1) by (rule goes_log)
  moreover have "goes ev ?app (?app\<lparr>ap_sessions := ?ss, ap_gone := ap_gone ?app @ g\<rparr>)"
  proof (rule goes_sessions)
    assume ok: "app_ok ev ?app"
    have "sess_ok (ap_log ?app) (ss_map ?ss)"
      using app_okD(2) [OF ok] assms(2,3)
      by (auto simp: session_promote_def session_fresh_def full_in_def half_in_def Let_def
          intro!: sess_ok_insert sess_ok_remove)
    then show "hm_ok (ss_map ?ss) \<and> sess_ok (ap_log ?app) (ss_map ?ss)"
      using app_okD(1) [OF ok] by (simp add: session_promote_def Let_def hm_laws)
  qed simp
  ultimately have "goes ev app (?app\<lparr>ap_sessions := ?ss, ap_gone := ap_gone ?app @ g\<rparr>)" by (rule goes_trans)
  then show ?thesis by (cases app) simp
qed

lemma goes_login_session:
  "(app_ok ev app \<Longrightarrow> route_ok ev (ap_log app) user r) \<Longrightarrow> goes ev app (snd (login_session ev d old user r app))"
  unfolding login_session_def session_login_def split_def Let_def snd_conv
  by (rule goes_promote) (auto simp: event_ok_def)

lemma goes_begin_mfa:
  "factor_ok ev f \<Longrightarrow> user = identity_str (factor_identity f) \<Longrightarrow> goes ev app (snd (begin_mfa ev d old user f app))"
  unfolding begin_mfa_def session_begin_mfa_def split_def Let_def snd_conv
  by (rule goes_promote) (auto simp: event_ok_def)

subsection \<open>Trusted devices keep the invariant\<close>

definition mints :: "device_op \<Rightarrow> bool" where
  "mints p \<longleftrightarrow> (case p of Mint _ _ _ _ _ _ _ _ \<Rightarrow> True | _ \<Rightarrow> False)"

lemma trust_ok_step:
  assumes "devices_ok ds" "trust_ok log (ds_map ds)" "\<not> mints p"
  shows "trust_ok log (ds_map (device_step th p ok ds))"
  unfolding trust_ok_def
proof (intro allI impI)
  fix k x
  assume "hm_get (ds_map (device_step th p ok ds)) k = Some x"
  with assms(1) show "Remembered k (d_identity x) (d_enrolled_at x) \<in> set log"
  proof (cases rule: device_step_get)
    case (kept d0)
    then show ?thesis using assms(2) by (fastforce simp: trust_ok_def same_trust_def)
  next
    case made
    then show ?thesis using assms(3) by (simp add: mints_def)
  qed
qed

lemma device_disk_follows:
  "ds_disk (device_step th p ok s) = ds_disk s \<or>
   ds_disk (device_step th p ok s) = Some (device_order (ds_map (device_step th p ok s)))"
  by (cases p) (auto simp: device_ops device_write_def Let_def split: option.split)

lemma trust_disk_follows:
  assumes "devices_ok store'" "trust_ok log (ds_map store')" "trust_disk_ok log store"
    and "ds_disk store' = ds_disk store \<or> ds_disk store' = Some (device_order (ds_map store'))"
  shows "trust_disk_ok log store'"
proof -
  have "Remembered (d_token_hash x) (d_identity x) (d_enrolled_at x) \<in> set log" if "x \<in> set (device_order (ds_map store'))" for x
  proof -
    have "x \<in> snd ` set (ds_map store')" using that by (simp add: device_order_def hm_values_def)
    then obtain k where k: "(k, x) \<in> set (ds_map store')" by auto
    have "hm_get (ds_map store') k = Some x" using assms(1) k by (simp add: devices_ok_def hm_get_mem)
    then show ?thesis using assms(1,2) by (auto simp: devices_ok_def trust_ok_def)
  qed
  then show ?thesis using assms(3,4) by (auto simp: trust_disk_ok_def)
qed

lemma goes_device_step:
  assumes "\<not> mints p"
  shows "goes ev app (app\<lparr>ap_devices := device_step th p ok (ap_devices app)\<rparr>)"
  unfolding goes_def
proof (intro impI conjI)
  let ?ds = "device_step th p ok (ap_devices app)"
  assume ok: "app_ok ev app"
  have "devices_ok ?ds" "trust_ok (ap_log app) (ds_map ?ds)"
    using device_step_ok trust_ok_step [OF _ _ assms] app_okD(3,4) [OF ok] by blast+
  moreover from this have "trust_disk_ok (ap_log app) ?ds"
    by (rule trust_disk_follows [OF _ _ app_okD(10) [OF ok] device_disk_follows])
  ultimately show "app_ok ev (app\<lparr>ap_devices := ?ds\<rparr>)" using ok by (simp add: app_ok_def)
qed (simp_all add: app_ok_def)

lemmas goes_device_ops =
  goes_device_step [of "Authorize token who at cl now", unfolded mints_def, simplified]
  goes_device_step [of "Revoke_all who", unfolded mints_def, simplified]
  goes_device_step [of "Revoke_id who did", unfolded mints_def, simplified]
  goes_device_step [of "Revoke_token token", unfolded mints_def, simplified]
  goes_device_step [of "Forget token who", unfolded mints_def, simplified]
  goes_device_step [of "Sweep_devices now", unfolded mints_def, simplified]
  for token who at cl now did

lemma mint_Some: "fst (device_mint th who at window cp cl now token did ok ds) = Some (token', did') \<Longrightarrow> token' = token \<and> ok"
  by (auto simp: device_mint_def Let_def split: if_splits)

lemma goes_mint:
  fixes who :: identity
  assumes "\<And>t. app_ok ev app \<Longrightarrow> event_ok ev (ap_log app) (Remembered t who at)"
  shows "goes ev app (app\<lparr>ap_devices := snd (device_mint (ev_th ev) who at window cp cl now token did ok (ap_devices app)),
     ap_log := ap_log app @ (case fst (device_mint (ev_th ev) who at window cp cl now token did ok (ap_devices app)) of
       Some (t, _) \<Rightarrow> [Remembered (ev_th ev t) who at] | None \<Rightarrow> [])\<rparr>)"
proof -
  let ?m = "device_mint (ev_th ev) who at window cp cl now token did ok (ap_devices app)"
  let ?new = "case fst ?m of Some (t, _) \<Rightarrow> [Remembered (ev_th ev t) who at] | None \<Rightarrow> []"
  let ?app = "app\<lparr>ap_log := ap_log app @ ?new\<rparr>"
  have log: "goes ev app ?app"
  proof (cases "fst ?m")
    case (Some e)
    obtain t i where "e = (t, i)" by (cases e)
    then show ?thesis using goes_log [OF assms] Some by simp
  qed simp
  have "goes ev ?app (?app\<lparr>ap_devices := snd ?m\<rparr>)"
  proof -
    have "devices_ok (snd ?m) \<and> trust_ok (ap_log ?app) (ds_map (snd ?m))" if ok: "app_ok ev ?app"
    proof
      have "snd ?m = device_step (ev_th ev) (Mint who at window cp cl now token did) ok (ap_devices app)" by simp
      note step = this
      show "devices_ok (snd ?m)" unfolding step by (rule device_step_ok) (use app_okD(3) [OF ok] in simp)
      show "trust_ok (ap_log ?app) (ds_map (snd ?m))"
        unfolding trust_ok_def
      proof (intro allI impI)
        fix k x
        assume "hm_get (ds_map (snd ?m)) k = Some x"
        have dok: "devices_ok (ap_devices app)" using app_okD(3) [OF ok] by simp
        from dok \<open>hm_get (ds_map (snd ?m)) k = Some x\<close> [unfolded step]
        show "Remembered k (d_identity x) (d_enrolled_at x) \<in> set (ap_log ?app)"
        proof (cases rule: device_step_get)
          case (kept d0)
          then show ?thesis using app_okD(4) [OF ok] by (fastforce simp: trust_ok_def same_trust_def)
        next
          case made
          then have "fst ?m = Some (token, did)" by (simp add: device_mint_def Let_def)
          then show ?thesis using made by simp
        qed
      qed
    qed
    note kept = this
    have "trust_disk_ok (ap_log ?app) (snd ?m)" if ok: "app_ok ev ?app"
    proof (rule trust_disk_follows)
      show "trust_disk_ok (ap_log ?app) (ap_devices app)" using app_okD(10) [OF ok] by simp
      show "ds_disk (snd ?m) = ds_disk (ap_devices app) \<or> ds_disk (snd ?m) = Some (device_order (ds_map (snd ?m)))"
        using device_disk_follows [of "ev_th ev" "Mint who at window cp cl now token did" ok "ap_devices app"] by simp
    qed (use kept [OF ok] in blast)+
    with kept show ?thesis by (simp add: goes_def app_ok_def)
  qed
  with log have "goes ev app (?app\<lparr>ap_devices := snd ?m\<rparr>)" by (rule goes_trans)
  then show ?thesis by (cases app) simp
qed

subsection \<open>Share links keep the invariant\<close>

definition creating :: "share_op \<Rightarrow> bool" where
  "creating p \<longleftrightarrow> (case p of Create _ _ _ _ _ _ _ _ \<Rightarrow> True | _ \<Rightarrow> False)"

lemma links_ok_step:
  assumes "grants_ok m" "links_ok log m" "\<not> creating p"
  shows "links_ok log (snd (share_step cr key p m))"
  unfolding links_ok_def
proof (intro allI impI)
  fix k g
  assume "hm_get (snd (share_step cr key p m)) k = Some g"
  with assms(1) show "Shared (g_username g) (g_index g) (g_expires_at g) \<in> set log"
  proof (cases rule: share_step_get)
    case kept
    then show ?thesis using assms(2) by (auto simp: links_ok_def)
  next
    case made
    then show ?thesis using assms(3) by (simp add: creating_def)
  qed
qed

lemma goes_share_step:
  assumes "\<not> creating p"
  shows "goes ev app (app\<lparr>ap_shares := snd (share_step cr key p (ap_shares app)), ap_cut := ap_cut app @ c\<rparr>)"
  using links_ok_step [OF _ _ assms] share_step_ok by (simp add: goes_def app_ok_def)

lemmas goes_share_ops =
  goes_share_step [of "Sweep now", unfolded creating_def, simplified]
  goes_share_step [of "Resolve now token", unfolded creating_def, simplified]
  goes_share_step [of "Revoke user gid", unfolded creating_def, simplified]
  goes_share_step [of "Listing now user", unfolded creating_def, simplified]
  for now token user gid

lemma goes_share_created:
  assumes "share_create cr key user index ttl note now1 now2 gid ch (ap_shares app) = (Inr t, shut, gs)"
    and "app_ok ev app \<Longrightarrow> \<exists>k. full_in (ap_log app) k user"
  shows "goes ev app (app\<lparr>ap_shares := gs, ap_cut := ap_cut app @ c, ap_log := ap_log app @ [Shared user index (sat_add64 now1 ttl)]\<rparr>)"
proof -
  let ?e = "Shared user index (sat_add64 now1 ttl)"
  let ?app = "app\<lparr>ap_log := ap_log app @ [?e]\<rparr>"
  have log: "goes ev app ?app" by (rule goes_log) (use assms(2) in \<open>simp add: event_ok_def\<close>)
  let ?p = "Create user index ttl note now1 now2 gid ch"
  have gs: "gs = snd (share_step cr key ?p (ap_shares app))" using assms(1) by simp
  have "grants_ok gs \<and> links_ok (ap_log ?app) gs" if ok: "app_ok ev ?app"
  proof
    have g: "grants_ok (ap_shares app)" using app_okD(5) [OF ok] by simp
    then show "grants_ok gs" unfolding gs by (rule share_step_ok)
    show "links_ok (ap_log ?app) gs"
      unfolding links_ok_def
    proof (intro allI impI)
      fix k x
      assume "hm_get gs k = Some x"
      with g show "Shared (g_username x) (g_index x) (g_expires_at x) \<in> set (ap_log ?app)"
        unfolding gs
      proof (cases rule: share_step_get)
        case kept
        then show ?thesis using app_okD(6) [OF ok] by (auto simp: links_ok_def)
      next
        case made
        then show ?thesis by simp
      qed
    qed
  qed
  then have "goes ev ?app (?app\<lparr>ap_shares := gs, ap_cut := ap_cut app @ c\<rparr>)" by (simp add: goes_def app_ok_def)
  with log have "goes ev app (?app\<lparr>ap_shares := gs, ap_cut := ap_cut app @ c\<rparr>)" by (rule goes_trans)
  then show ?thesis by (cases app) simp
qed

lemma goes_share_refused:
  assumes "share_create cr key user index ttl note now1 now2 gid ch (ap_shares app) = (Inl e, shut, gs)"
  shows "goes ev app (app\<lparr>ap_shares := gs, ap_cut := ap_cut app @ c\<rparr>)"
proof -
  have "gs = snd (share_step cr key (Sweep now2) (ap_shares app))"
    using assms by (auto simp: share_create_def share_sweep_def Let_def split: if_splits prod.splits)
  moreover have "\<not> creating (Sweep now2)" by (simp add: creating_def)
  ultimately show ?thesis by (metis goes_share_step)
qed

subsection \<open>What does not touch the evidence\<close>

lemma goes_terms:
  "(pools_ok (ap_terms app) \<Longrightarrow> extends (ap_terms app) ts \<and> all_quiet (ap_terms app) ts) \<Longrightarrow> goes ev app (app\<lparr>ap_terms := ts\<rparr>)"
  by (auto simp: goes_def app_ok_def extends_def)

lemmas goes_terminals =
  goes_terms [OF conjI [OF slots_step_extends [OF p_list] all_quiet_read(2)]]
  goes_terms [OF conjI [OF slots_step_extends [OF p_reset] all_quiet_reset]]
  goes_terms [OF conjI [OF slots_step_extends [OF p_size] all_quiet_read(1)]]
  goes_terms [OF conjI [OF slots_step_extends [OF p_view] all_quiet_view]]

lemma goes_other:
  "goes ev app (app\<lparr>ap_prefs := ps\<rparr>)" "goes ev app (app\<lparr>ap_enrol := es\<rparr>)"
  "goes ev app (app\<lparr>ap_guard := gd\<rparr>)" "goes ev app (app\<lparr>ap_otp := os\<rparr>)" "goes ev app (on_guard f app)"
  by (simp_all add: goes_def app_ok_def on_guard_def)

subsection \<open>Answers are backed\<close>

text \<open>A handler's answer and new state, seen from the state it started in.\<close>

definition fine :: "env \<Rightarrow> 's app \<Rightarrow> response \<times> 's app \<Rightarrow> bool" where
  "fine ev app ra \<longleftrightarrow> goes ev app (snd ra) \<and> (app_ok ev app \<longrightarrow> body_ok ev (ap_log (snd ra)) (rs_body (fst ra)))"

definition plain :: "body \<Rightarrow> bool" where
  "plain b \<longleftrightarrow> (case b of Mux_upgrade _ _ _ \<Rightarrow> False | View_upgrade _ _ \<Rightarrow> False | _ \<Rightarrow> True)"

lemma plain_simps [simp]:
  "plain (Text_body t)" "plain (Html_body t)" "plain (Redirect_to t)" "plain Empty_body" "plain (Terminal_body ts)"
  "plain (Share_body t g n)" "plain (Shares_body es)" "plain (Devices_body b n ds)" "plain (Status_body b n)" "plain (Meta_body m)"
  by (simp_all add: plain_def)

lemma response_simps [simp]:
  "rs_body (with_jar j r) = rs_body r" "rs_body (status_text n t) = Text_body t" "rs_body (redirect u) = Redirect_to u"
  "rs_body (html_page hs t) = Html_body t" "rs_body (json b) = b" "rs_body no_content = Empty_body"
  "rs_status (with_jar j r) = rs_status r" "rs_status (status_text n t) = n" "rs_status (redirect u) = 303"
  "rs_status (html_page hs t) = 200" "rs_status (json b) = 200" "rs_status no_content = 204"
  "rs_cookies (with_jar j r) = jr_ops j" "rs_cookies (status_text n t) = []" "rs_cookies (redirect u) = []"
  "rs_cookies (html_page hs t) = []" "rs_cookies (json b) = []" "rs_cookies no_content = []"
  by (simp_all add: with_jar_def status_text_def redirect_def html_page_def json_def no_content_def)

lemma body_ok_plain: "plain b \<Longrightarrow> body_ok ev log b"
  by (auto simp: plain_def body_ok_def split: body.splits)

lemma fine_plain [intro]: "goes ev app app' \<Longrightarrow> plain (rs_body r) \<Longrightarrow> fine ev app (r, app')"
  by (simp add: fine_def body_ok_plain)

lemma fine_trans: "goes ev app app1 \<Longrightarrow> fine ev app1 ra \<Longrightarrow> fine ev app ra"
  by (auto simp: fine_def goes_def intro: extends_trans all_quiet_trans)

lemma fine_goes: "fine ev app (r, app') \<Longrightarrow> goes ev app app'"
  by (simp add: fine_def)

lemma fine_when_ok: "(app_ok ev app \<Longrightarrow> fine ev app ra) \<Longrightarrow> fine ev app ra"
  by (auto simp: fine_def goes_def)

text \<open>Which session a request is.\<close>

lemma current_session_in:
  assumes "current_session ev d j app = (Some (sid, s), app1)" "app_ok ev app1"
  shows "s_authenticated s \<longrightarrow> full_in (ap_log app1) (ev_sk ev sid) (s_username s)"
    and "s_mfa_pending s \<longrightarrow> half_in (ap_log app1) (ev_sk ev sid) (s_username s)"
  using current_session_SomeD [OF assms(1)] app_okD(2) [OF assms(2)] by (auto simp: sess_ok_def)

lemma goes_current: "current_session ev d j app = (r, app1) \<Longrightarrow> goes ev app app1"
  using goes_current_session [of ev app d j] by simp

lemma fine_with_auth:
  assumes "\<And>s app1. (app_ok ev app1 \<Longrightarrow> \<exists>k. full_in (ap_log app1) k (s_username s)) \<Longrightarrow> fine ev app1 (f s app1)"
  shows "fine ev app (with_auth ev d j f app)"
proof -
  obtain cur app1 where c: "current_session ev d j app = (cur, app1)" by (cases "current_session ev d j app")
  note g = goes_current [OF c]
  show ?thesis
  proof (cases "\<exists>sid s. cur = Some (sid, s) \<and> s_authenticated s")
    case True
    then obtain sid s where s: "cur = Some (sid, s)" "s_authenticated s" by blast
    then have "fine ev app1 (f s app1)" using assms current_session_in(1) [OF c [unfolded s(1)]] by blast
    then show ?thesis using c s by (auto simp: with_auth_def authed_session_def intro: fine_trans [OF g])
  next
    case False
    then show ?thesis using c g by (auto simp: with_auth_def authed_session_def split: option.splits)
  qed
qed

lemma fine_with_csrf: "fine ev app (f app) \<Longrightarrow> fine ev app (with_csrf s csrf f app)"
  by (auto simp: with_csrf_def)

subsection \<open>Handlers of the login\<close>

lemma fine_login_error: "fine ev app (login_error ev d j hs message app)"
  by (auto simp: login_error_def split_def Let_def intro: goes_current_session)

lemma goes_ensure_session: "goes ev app (snd (ensure_session ev d j app))"
proof -
  obtain cur app1 where c: "current_session ev d j app = (cur, app1)" by (cases "current_session ev d j app")
  then show ?thesis
    using goes_trans [OF goes_current [OF c] goes_create_session [of ev app1 d]] goes_current [OF c]
    by (auto simp: ensure_session_def split_def Let_def split: option.splits)
qed

lemma goes_session_get:
  "goes ev app (app\<lparr>ap_sessions := snd (snd (session_get (ev_sk ev) sid now ok (ap_sessions app))), ap_gone := ap_gone app @ g\<rparr>)"
  by (rule goes_sessions) (use session_get_ok in \<open>blast intro: app_okD\<close>, simp)

lemma fine_login_page: "fine ev app (login_page ev d j hs app)"
proof -
  obtain cur app1 where c: "current_session ev d j app = (cur, app1)" by (cases "current_session ev d j app")
  obtain j' sid app2 where e: "ensure_session ev d j app1 = ((j', sid), app2)" by (metis prod.exhaust)
  have "goes ev app1 app2" using goes_ensure_session [of ev app1 d j] e by simp
  then have "goes ev app1 (app2\<lparr>ap_sessions := snd (snd (session_get (ev_sk ev) sid (dr_now d) (dr_disk d 0) (ap_sessions app2))),
      ap_gone := ap_gone app2 @ g\<rparr>)" for g
    by (rule goes_trans) (rule goes_session_get)
  then show ?thesis
    using c e goes_current [OF c] goes_trans [OF goes_current [OF c]]
    by (auto simp: login_page_def split_def Let_def split: option.splits)
qed

lemma trusted_device_state: "goes ev app (snd (trusted_device ev d j who hs app))"
  by (auto simp: trusted_device_def split_def Let_def split: option.splits intro: goes_device_ops)

lemma trusted_device_SomeD:
  assumes "trusted_device ev d j who hs app = (Some (token, at, did), app1)"
  shows "remember_device (ev_cfg ev)" "current_enrolled_at who app = Some at" "ap_log app1 = ap_log app"
    "\<exists>x. hm_get (ds_map (ap_devices app)) (ev_th ev token) = Some x \<and> d_identity x = who \<and> d_enrolled_at x = at"
proof -
  show r: "remember_device (ev_cfg ev)" using assms by (auto simp: trusted_device_def split: if_splits)
  obtain t where t: "device_token j = Some t" "current_enrolled_at who app = Some at" "t = token"
    and a: "fst (device_authorize (ev_th ev) token who at (request_client hs) (dr_unix d) (dr_disk d 3) (ap_devices app)) = Some did"
    using assms r by (auto simp: trusted_device_def split_def Let_def split: option.splits)
  then show "current_enrolled_at who app = Some at" by simp
  show "ap_log app1 = ap_log app" using assms r t by (auto simp: trusted_device_def split_def Let_def)
  show "\<exists>x. hm_get (ds_map (ap_devices app)) (ev_th ev token) = Some x \<and> d_identity x = who \<and> d_enrolled_at x = at"
    using a by (auto simp: device_authorize_def split: option.splits if_splits)
qed

lemma goes_forget_stale: "goes ev app (snd (forget_stale_device ev d j who app))"
  by (auto simp: forget_stale_device_def split: option.splits intro: goes_device_ops)

lemma fine_first_factor:
  assumes "factor_ok ev f"
  shows "fine ev app (snd (first_factor ev d j hs sid f app))"
proof (cases "mfa_required (ev_cfg ev)")
  case False
  then have "goes ev app (snd (login_session ev d sid (identity_str (factor_identity f)) (Without_code f) app))"
    by (intro goes_login_session) (simp add: route_ok_def assms)
  then show ?thesis using False by (auto simp: first_factor_def split_def Let_def)
next
  case True
  let ?who = "factor_identity f"
  obtain td app1 where td: "trusted_device ev d j ?who hs app = (td, app1)" by (cases "trusted_device ev d j ?who hs app")
  have g: "goes ev app app1" using trusted_device_state [of ev app d j ?who hs] td by simp
  show ?thesis
  proof (cases td)
    case None
    obtain j' app2 where fs: "forget_stale_device ev d j ?who app1 = (j', app2)"
      by (cases "forget_stale_device ev d j ?who app1")
    have "goes ev app1 app2" using goes_forget_stale [of ev app1 d j ?who] fs by simp
    then have "goes ev app (snd (begin_mfa ev d sid (identity_str ?who) f app2))"
      using goes_trans goes_begin_mfa [OF assms refl] g by blast
    then show ?thesis using True td None fs by (auto simp: first_factor_def split_def Let_def)
  next
    case (Some e)
    obtain token at did where e: "e = (token, at, did)" by (cases e)
    note D = trusted_device_SomeD [OF td [unfolded Some e]]
    have "goes ev app (snd (login_session ev d sid (identity_str ?who) (Trusted_browser f token at) app1))"
    proof (cases "app_ok ev app")
      case ok: True
      then have "Remembered (ev_th ev token) ?who at \<in> set (ap_log app1)"
        using D(3,4) app_okD(4) [OF ok] by (fastforce simp: trust_ok_def)
      then have "goes ev app1 (snd (login_session ev d sid (identity_str ?who) (Trusted_browser f token at) app1))"
        by (intro goes_login_session) (simp add: route_ok_def assms D(1))
      with g show ?thesis by (rule goes_trans)
    qed (simp add: goes_def)
    then show ?thesis using True td Some e by (auto simp: first_factor_def split_def Let_def)
  qed
qed

lemma fine_finish_unlisted: "fine ev app (finish_unlisted ev d j hs app)"
  unfolding finish_unlisted_def by (rule fine_trans [OF goes_other(5) fine_login_error])

lemma fine_finish_password:
  assumes "permits (ev_cfg ev) who"
  shows "fine ev app (finish_password ev d j hs sid who password app)"
proof (cases "\<exists>hash. local_password (ev_cfg ev) who = Some hash \<and> dr_joined d \<and>
    verify_password (ev_hashers ev) hash password = Inr True")
  case True
  then obtain hash where h: "local_password (ev_cfg ev) who = Some hash" "dr_joined d"
    "verify_password (ev_hashers ev) hash password = Inr True" by blast
  let ?f = "By_password who hash password"
  have "factor_ok ev ?f" using assms h by (simp add: factor_ok_def factor_identity_def)
  then have F: "fine ev app (snd (first_factor ev d j hs sid ?f app))" by (rule fine_first_factor)
  obtain full r app' where ff: "first_factor ev d j hs sid ?f app = (full, r, app')" by (metis prod.exhaust)
  then have "rs_body r = Redirect_to ''/webshell/private/'' \<or> rs_body r = Redirect_to ''/webshell/mfa''"
    by (auto simp: first_factor_def split_def Let_def split: if_splits option.splits)
  then have "plain (rs_body r)" by auto
  then show ?thesis
    using h ff F goes_trans [OF fine_goes [of ev app r app'] goes_other(5)]
    by (auto simp: finish_password_def Let_def)
next
  case False
  then show ?thesis
    using fine_login_error fine_trans [OF goes_other(5) fine_login_error]
    by (auto simp: finish_password_def Let_def split: option.splits sum.splits bool.splits)
qed

lemma fine_oauth_start: "fine ev app (oauth_start ev d j csrf app)"
proof -
  obtain cur app1 where c: "current_session ev d j app = (cur, app1)" by (cases "current_session ev d j app")
  show ?thesis
    using c goes_current [OF c] goes_trans [OF goes_current [OF c] goes_set_oauth]
    by (auto simp: oauth_start_def Let_def split: option.splits)
qed

lemma fine_finish_google: "fine ev app (finish_google ev d g j hs sid fl auth_code app)"
proof (cases "exchange g (dr_unix d) (the (google_client_id (ev_cfg ev))) (the (google_client_secret (ev_cfg ev)))
        (the (redirect_uri (ev_cfg ev))) auth_code fl")
  case (Inl e)
  then show ?thesis by (simp add: finish_google_def fine_login_error)
next
  case (Inr v)
  show ?thesis
  proof (cases "permits (ev_cfg ev) (v_identity v)")
    case True
    have "factor_ok ev (By_google v)" using True Inr by (auto simp: factor_ok_def factor_identity_def)
    then show ?thesis
      using Inr True fine_trans [OF goes_other(2) fine_login_error]
        fine_trans [OF goes_other(2) fine_first_factor]
      by (auto simp: finish_google_def split_def Let_def split: sum.splits bool.splits)
  next
    case False
    then show ?thesis using Inr by (simp add: finish_google_def fine_login_error)
  qed
qed

lemma plain_render_mfa [simp]: "plain (rs_body (render_mfa ev d s hs e app))"
  by (auto simp: render_mfa_def Let_def split: sum.splits option.splits)

lemma pending_session_state: "pending_session ev d j app = (r, app1) \<Longrightarrow> goes ev app app1"
  using goes_current_session [of ev app d j] by (auto simp: pending_session_def split_def Let_def)

lemma pending_session_SomeD:
  assumes "pending_session ev d j app = (Some (sid, s), app1)"
  shows "app1 = app \<and> s_mfa_pending s \<and> current_session ev d j app = (Some (sid, s), app1)"
proof -
  obtain cur app2 where c: "current_session ev d j app = (cur, app2)" by (cases "current_session ev d j app")
  then have "cur = Some (sid, s)" "s_mfa_pending s" "app2 = app1"
    using assms by (auto simp: pending_session_def split: option.splits if_splits)
  then show ?thesis using c current_session_SomeD [of ev d j app sid s app1] by simp
qed

lemma fine_mfa_page: "fine ev app (mfa_page ev d j hs app)"
proof -
  obtain p app1 where p: "pending_session ev d j app = (p, app1)" by (cases "pending_session ev d j app")
  then show ?thesis using pending_session_state [OF p] by (auto simp: mfa_page_def split: option.splits)
qed

lemma fine_mfa_locked_out: "fine ev app (mfa_locked_out ev d j hs sid left app)"
proof -
  obtain new_id app1 where c: "create_session ev d (remove_session ev d sid app) = (new_id, app1)"
    by (cases "create_session ev d (remove_session ev d sid app)")
  then have "goes ev app app1"
    using goes_trans [OF goes_remove_session goes_create_session [of ev "remove_session ev d sid app" d]] by simp
  then have "fine ev app (login_error ev d j' hs m app1)" for j' m by (rule fine_trans) (rule fine_login_error)
  then show ?thesis using c by (auto simp: mfa_locked_out_def split_def Let_def fine_def)
qed

lemma fine_mfa_cancel: "fine ev app (mfa_cancel ev d j csrf app)"
proof -
  obtain p app1 where p: "pending_session ev d j app = (p, app1)" by (cases "pending_session ev d j app")
  note g = pending_session_state [OF p]
  show ?thesis
    using p g goes_trans [OF g goes_remove_session] by (auto simp: mfa_cancel_def Let_def split: option.splits)
qed

lemma fine_let_in:
  assumes code: "code_ok ev secret (mf_otp form) (dr_unix d)"
    and half: "half_in (ap_log app) (ev_sk ev sid) (s_username s)"
    and who: "identity_parse (s_username s) = Inr who"
  shows "fine ev app (let_in ev d j hs sid s who form enrolling secret app)"
proof -
  define app1 where "app1 = on_guard (\<lambda>g. mfa_succeeded (s_username s)
    (attempt_succeeded (''mfa:'' @ identity_str who) (dr_now d) g)) app"
  let ?r = "With_code (ev_sk ev sid) secret (mf_otp form) (dr_unix d)"
  obtain new_id app2 where l: "login_session ev d sid (s_username s) ?r app1 = (new_id, app2)"
    by (cases "login_session ev d sid (s_username s) ?r app1")
  have log1: "ap_log app1 = ap_log app" by (simp add: app1_def on_guard_def)
  have "goes ev app1 (snd (login_session ev d sid (s_username s) ?r app1))"
    by (rule goes_login_session) (simp add: route_ok_def code half log1)
  then have g: "goes ev app app2" using goes_trans [OF goes_other(5)] l by (simp add: app1_def)
  have "Full_in (ev_sk ev (dr_id d)) (s_username s) ?r \<in> set (ap_log app2)"
    using l by (auto simp: login_session_def split_def Let_def)
  then have "event_ok ev (ap_log app2) (Remembered t who at)" for t at
    using who unfolding event_ok_def event.case by blast
  then have m: "goes ev app (app2\<lparr>ap_devices := snd (device_mint (ev_th ev) who at window cp cl now token did ok (ap_devices app2)),
     ap_log := ap_log app2 @ (case fst (device_mint (ev_th ev) who at window cp cl now token did ok (ap_devices app2)) of
       Some (t, _) \<Rightarrow> [Remembered (ev_th ev t) who at] | None \<Rightarrow> [])\<rparr>)" for at window cp cl now token did ok
    by (intro goes_trans [OF g] goes_mint)
  have made: "fst (device_mint (ev_th ev) who at window cp cl now token did ok (ap_devices app2)) = Some (t, i) \<Longrightarrow>
      goes ev app (app2\<lparr>ap_devices := snd (device_mint (ev_th ev) who at window cp cl now token did ok (ap_devices app2)),
        ap_log := ap_log app2 @ [Remembered (ev_th ev t) who at]\<rparr>)" for at window cp cl now token did ok t i
    using m [of at window cp cl now token did ok] by simp
  have unmade: "fst (device_mint (ev_th ev) who at window cp cl now token did ok (ap_devices app2)) = None \<Longrightarrow>
      goes ev app (app2\<lparr>ap_devices := snd (device_mint (ev_th ev) who at window cp cl now token did ok (ap_devices app2)),
        ap_log := ap_log app2\<rparr>)" for at window cp cl now token did ok
    using m [of at window cp cl now token did ok] by simp
  show ?thesis
    using l g made unmade unfolding let_in_def Let_def app1_def [symmetric]
    by (auto simp: split_def split: option.splits)
qed

lemma accept_code_state: "accept_code d user otp app = (b, app1) \<Longrightarrow> goes ev app app1 \<and> ap_log app1 = ap_log app"
  by (auto simp: accept_code_def Let_def goes_other split: prod.splits)

lemma fine_finish_code:
  assumes half: "half_in (ap_log app) (ev_sk ev sid) (s_username s)"
    and who: "identity_parse (s_username s) = Inr who"
  shows "fine ev app (finish_code ev d j hs sid s who form app)"
proof -
  let ?r = "case enrol_get who (ap_enrol app) of Some r \<Rightarrow> r | None \<Rightarrow> record_default"
  define secret where "secret = (case r_mfa_secret ?r of Some x \<Rightarrow> x | None \<Rightarrow> (case mf_seed form of Some x \<Rightarrow> x | None \<Rightarrow> []))"
  define verified where "verified \<longleftrightarrow> valid_seed secret \<and> totp_verify (ev_hmac ev) secret (mf_otp form) (dr_unix d)"
  obtain accepted app1 where a:
    "(if verified then accept_code d (s_username s) (mf_otp form) app else (False, app)) = (accepted, app1)"
    by (metis prod.exhaust)
  have app1: "goes ev app app1" "ap_log app1 = ap_log app"
    using a accept_code_state [of d "s_username s" "mf_otp form" app accepted app1 ev] by (auto split: if_splits)
  have acc: "accepted \<Longrightarrow> code_ok ev secret (mf_otp form) (dr_unix d)"
    using a by (auto simp: code_ok_def verified_def split: if_splits)
  note half1 = half [unfolded app1(2) [symmetric]]
  have lock: "fine ev app (mfa_locked_out ev d j hs sid left app)" for left by (rule fine_mfa_locked_out)
  have wrong: "goes ev app (on_guard f app1)" for f by (rule goes_trans [OF app1(1) goes_other(5)])
  have wrong2: "goes ev app ((on_guard f app1)\<lparr>ap_guard := gd\<rparr>)" for f gd by (rule goes_trans [OF wrong goes_other(3)])
  have lock2: "fine ev app (mfa_locked_out ev d j hs sid left ((on_guard f app1)\<lparr>ap_guard := gd\<rparr>))" for left f gd
    by (rule fine_trans [OF wrong2 fine_mfa_locked_out])
  have enrolled: "goes ev app (app1\<lparr>ap_enrol := es\<rparr>)" for es by (rule goes_trans [OF app1(1) goes_other(2)])
  have inn: "accepted \<Longrightarrow> fine ev app (let_in ev d j hs sid s who form False secret app1)"
    by (rule fine_trans [OF app1(1)]) (rule fine_let_in [OF acc half1 who])
  have inn2: "accepted \<Longrightarrow> fine ev app (let_in ev d j hs sid s who form True secret
      (app1\<lparr>ap_enrol := es, ap_devices := snd (device_revoke_all who ok (ap_devices app1))\<rparr>))" for es ok
  proof (rule fine_trans [OF goes_trans [OF enrolled [of es]]])
    show "goes ev (app1\<lparr>ap_enrol := es\<rparr>) (app1\<lparr>ap_enrol := es, ap_devices := snd (device_revoke_all who ok (ap_devices app1))\<rparr>)"
      using goes_device_ops(2) [of ev "app1\<lparr>ap_enrol := es\<rparr>"] by simp
  next
    assume "accepted"
    then show "fine ev (app1\<lparr>ap_enrol := es, ap_devices := snd (device_revoke_all who ok (ap_devices app1))\<rparr>)
      (let_in ev d j hs sid s who form True secret
        (app1\<lparr>ap_enrol := es, ap_devices := snd (device_revoke_all who ok (ap_devices app1))\<rparr>))"
      using half1 by (intro fine_let_in acc who) (auto simp: app1(2))
  qed
  show ?thesis
    using lock wrong wrong2 lock2 enrolled inn inn2
    unfolding finish_code_def Let_def secret_def [symmetric] verified_def [symmetric] a prod.case
    by (auto split: option.splits prod.splits sum.splits)
qed

subsection \<open>Handlers of the private namespace\<close>

lemma fine_logout: "fine ev app (logout ev d j csrf forget_field app)"
proof -
  obtain cur app1 where c: "current_session ev d j app = (cur, app1)" by (cases "current_session ev d j app")
  note g = goes_current [OF c]
  note r = goes_trans [OF g goes_remove_session]
  show ?thesis
    using c g r goes_trans [OF r goes_device_ops(4)]
    by (auto simp: logout_def Let_def split: option.splits)
qed

lemma fine_terminal_page: "fine ev app (terminal_page ev d j hs app)"
proof -
  obtain cur app1 where c: "current_session ev d j app = (cur, app1)" by (cases "current_session ev d j app")
  then show ?thesis
    using goes_current [OF c] by (auto simp: terminal_page_def authed_session_def split: option.splits)
qed

lemma fine_list_terminals: "fine ev app (list_terminals ev d j app)"
  unfolding list_terminals_def by (rule fine_with_auth) (auto simp: split_def Let_def intro!: goes_terminals(1))

lemma fine_reset_terminal: "fine ev app (reset_terminal ev d j csrf index app)"
  unfolding reset_terminal_def by (intro fine_with_auth fine_with_csrf) (auto intro!: goes_terminals(2))

lemma fine_set_prefs: "fine ev app (set_prefs ev d j csrf font_size font_family app)"
  unfolding set_prefs_def by (intro fine_with_auth fine_with_csrf) (auto simp: goes_other)

lemma fine_create_share: "fine ev app (create_share ev d j csrf index ttl note app)"
proof (cases "sharing_enabled (ev_cfg ev)")
  case True
  show ?thesis
    unfolding create_share_def
    apply (simp only: True not_True_eq_False if_False)
    apply (intro fine_with_auth fine_with_csrf)
    subgoal premises prems for s app1
    proof -
      obtain r shut gs where c: "share_create (ev_crypto ev) (ev_share_key ev) (s_username s) index
          (clamp 1 (max_share_secs (ev_cfg ev)) ttl) note (dr_unix d) (dr_unix d) (dr_did d) (dr_chan d) (ap_shares app1)
        = (r, shut, gs)"
        by (metis prod.exhaust)
      show ?thesis
      proof (cases r)
        case (Inl e)
        then show ?thesis
          using c goes_share_refused [OF c [unfolded Inl], of ev] by (cases e) (auto simp: Let_def)
      next
        case (Inr t)
        then show ?thesis
          using c goes_share_created [OF c [unfolded Inr] prems] by (auto simp: Let_def split: prod.splits)
      qed
    qed
    done
qed (auto simp: create_share_def)

lemma fine_list_shares: "fine ev app (list_shares ev d j app)"
  unfolding list_shares_def
  by (rule fine_with_auth) (auto simp: split_def Let_def intro!: goes_share_ops(4))

lemma fine_revoke_share: "fine ev app (revoke_share ev d j csrf gid app)"
  unfolding revoke_share_def
  by (intro fine_with_auth fine_with_csrf) (auto simp: split_def Let_def intro!: goes_share_ops(3))

lemma fine_list_devices: "fine ev app (list_devices ev d j app)"
  unfolding list_devices_def by (rule fine_with_auth) (auto simp: Let_def split: sum.splits)

lemma fine_revoke_device: "fine ev app (revoke_device ev d j csrf did every app)"
  unfolding revoke_device_def
  by (intro fine_with_auth fine_with_csrf)
    (auto simp: split_def Let_def split: sum.splits intro!: goes_device_ops(2) goes_device_ops(3))

lemma fine_ws_handler: "fine ev app (ws_handler ev d j hs csrf app)"
  unfolding ws_handler_def
  by (intro fine_with_auth fine_with_csrf) (auto simp: fine_def body_ok_def)

lemma fine_private_handler: "fine ev app (private_handler ev d j hs req app)"
  by (cases req) (simp_all add: private_handler_def fine_terminal_page fine_ws_handler fine_logout fine_list_terminals
      fine_reset_terminal fine_create_share fine_list_shares fine_revoke_share fine_set_prefs fine_list_devices
      fine_revoke_device)

lemma fine_require_auth: "fine ev app (require_auth ev d j hs req app)"
proof -
  obtain cur app1 where c: "current_session ev d j app = (cur, app1)" by (cases "current_session ev d j app")
  note g = goes_current [OF c]
  show ?thesis
    using c g fine_trans [OF g fine_private_handler]
    by (auto simp: require_auth_def authed_session_def Let_def split: option.splits if_splits)
qed

subsection \<open>Handlers of the public namespace\<close>

lemma goes_resolve_share: "goes ev app (snd (resolve_share ev d token app))"
  by (auto simp: resolve_share_def split_def Let_def intro: goes_share_ops(2))

lemma fine_access_page: "fine ev app (access_page ev d hs token app)"
  using goes_resolve_share [of ev app d token] by (auto simp: access_page_def split: option.splits prod.splits)

lemma fine_access_status: "fine ev app (access_status ev d token app)"
  by (auto simp: access_status_def Let_def split: option.splits)

lemma fine_access_meta: "fine ev app (access_meta ev d token app)"
  using goes_resolve_share [of ev app d token] goes_trans [OF _ goes_terminals(3), of ev app "snd (resolve_share ev d token app)"]
  by (auto simp: access_meta_def split_def Let_def split: option.splits)

lemma fine_access_ws: "fine ev app (access_ws ev d hs token epoch offset app)"
proof (cases "\<exists>l. sharing_enabled (ev_cfg ev) \<and> origin_allowed (ev_cfg ev) hs \<and>
    share_lease (ev_crypto ev) (ev_share_key ev) (dr_permit d) (dr_unix d) token (ap_shares app) = Inr l")
  case True
  then obtain l where s: "sharing_enabled (ev_cfg ev)" "origin_allowed (ev_cfg ev) hs"
    and l: "share_lease (ev_crypto ev) (ev_share_key ev) (dr_permit d) (dr_unix d) token (ap_shares app) = Inr l" by blast
  from l have "app_ok ev app \<longrightarrow> Shared (l_username l) (l_index l) (l_expires_at l) \<in> set (ap_log app)"
  proof (rule share_lease_Inr)
    fix gid g
    assume "hm_get (ap_shares app) gid = Some g" "g_username g = l_username l" "g_index g = l_index l"
      "g_expires_at g = l_expires_at l"
    then show ?thesis using app_okD(6) [of ev app] by (fastforce simp: links_ok_def)
  qed
  then show ?thesis
    using s l by (auto simp: access_ws_def split_def Let_def fine_def body_ok_def goes_terminals(4) split: option.splits sum.splits)
next
  case False
  then show ?thesis by (auto simp: access_ws_def split: sum.splits lease_error.splits)
qed

lemma fine_public_handler: "fine ev app (public_handler ev d hs req app)"
  by (cases req) (simp_all add: public_handler_def fine_access_page fine_access_ws fine_access_status fine_access_meta)

subsection \<open>Any request\<close>

definition sound :: "env \<Rightarrow> 's app \<Rightarrow> progress \<times> 's app \<Rightarrow> bool" where
  "sound ev app pa \<longleftrightarrow>
    (case pa of
      (Reply r, app') \<Rightarrow> fine ev app (r, app')
    | (Pause p, app') \<Rightarrow> goes ev app app' \<and> (app_ok ev app \<longrightarrow> pause_ok ev (ap_log app') p))"

lemma sound_simps [simp]:
  "sound ev app (Reply r, app') \<longleftrightarrow> fine ev app (r, app')"
  "sound ev app (Pause p, app') \<longleftrightarrow> goes ev app app' \<and> (app_ok ev app \<longrightarrow> pause_ok ev (ap_log app') p)"
  "sound ev app (reply ra) \<longleftrightarrow> fine ev app ra"
  by (simp_all add: sound_def reply_def map_prod_def split_def)

lemma sound_local_login: "sound ev app (local_login ev d j hs form app)"
proof -
  obtain cur app1 where c: "current_session ev d j app = (cur, app1)" by (cases "current_session ev d j app")
  note g = goes_current [OF c]
  show ?thesis
    using c g fine_trans [OF g fine_login_error]
    by (auto simp: local_login_def Let_def pause_ok_def turn_ok_def split: option.splits)
qed

lemma sound_oauth_callback: "sound ev app (oauth_callback ev d j hs q app)"
proof -
  obtain cur app1 where c: "current_session ev d j app = (cur, app1)" by (cases "current_session ev d j app")
  note g = goes_current [OF c]
  show ?thesis
    using c g fine_trans [OF g fine_login_error] goes_trans [OF g goes_set_oauth]
    by (auto simp: oauth_callback_def Let_def pause_ok_def split: option.splits)
qed

lemma sound_mfa_submit: "sound ev app (mfa_submit ev d j hs form app)"
proof -
  obtain p app1 where p: "pending_session ev d j app = (p, app1)" by (cases "pending_session ev d j app")
  note g = pending_session_state [OF p]
  show ?thesis
  proof (cases p)
    case None
    then show ?thesis using p g by (auto simp: mfa_submit_def)
  next
    case (Some e)
    obtain sid s where e: "e = (sid, s)" by (cases e)
    note D = pending_session_SomeD [OF p [unfolded Some e]]
    have "half_in (ap_log app1) (ev_sk ev sid) (s_username s)" if "app_ok ev app"
      using current_session_in(2) [of ev d j app sid s app1] D that by auto
    then show ?thesis
      using p g Some e by (auto simp: mfa_submit_def pause_ok_def turn_ok_def split: sum.splits)
  qed
qed

lemma sound_handle: "sound ev app (handle ev d j hs req app)"
  by (cases req) (simp_all add: handle_def fine_login_page fine_oauth_start fine_mfa_page fine_mfa_cancel fine_require_auth
      fine_public_handler sound_local_login sound_oauth_callback sound_mfa_submit)

lemma fine_finish_turn:
  assumes "app_ok ev app \<Longrightarrow> turn_ok ev (ap_log app) t"
  shows "fine ev app (finish_turn ev d t app)"
proof (rule fine_when_ok)
  assume "app_ok ev app"
  with assms have "turn_ok ev (ap_log app) t" by blast
  then show "fine ev app (finish_turn ev d t app)"
    by (cases t) (simp_all add: finish_turn_def turn_ok_def fine_finish_unlisted fine_finish_password fine_finish_code)
qed

lemma goes_minute_sweep: "goes ev app (minute_sweep d app)"
proof -
  let ?a = "app\<lparr>ap_sessions := snd (session_sweep (dr_now d) (dr_disk d 0) (ap_sessions app)),
    ap_gone := ap_gone app @ fst (session_sweep (dr_now d) (dr_disk d 0) (ap_sessions app))\<rparr>"
  let ?b = "?a\<lparr>ap_shares := snd (snd (share_sweep (\<lambda>_. False) (dr_unix d) (ap_shares ?a))),
    ap_cut := ap_cut ?a @ fst (snd (share_sweep (\<lambda>_. False) (dr_unix d) (ap_shares ?a)))\<rparr>"
  let ?c = "?b\<lparr>ap_devices := snd (device_sweep (dr_unix d) (dr_disk d 1) (ap_devices ?b))\<rparr>"
  have "goes ev app ?c"
    by (rule goes_trans [OF goes_trans [OF goes_sweep_sessions goes_share_ops(1)] goes_device_ops(6)])
  moreover have "minute_sweep d app = ?c" by (simp add: minute_sweep_def split_def Let_def)
  ultimately show ?thesis by simp
qed

subsection \<open>Restarts\<close>

lemma sess_ok_load:
  assumes "sess_disk_ok log store" "session_load ttl now unix ch ok (map_option Inr (ss_disk store)) = (Inr ss :: 'e + session_store)"
  shows "hm_ok (ss_map ss) \<and> sess_ok log (ss_map ss) \<and> sess_disk_ok log ss"
proof (cases "ss_disk store")
  case None
  then show ?thesis using assms(2) by (auto simp: session_load_def sess_ok_def sess_disk_ok_def hm_get_def)
next
  case (Some es)
  let ?f = "\<lambda>m (k, x). case load_entry ttl now unix x (ch + length m) of None \<Rightarrow> m | Some s \<Rightarrow> hm_insert k s m"
  let ?ok = "\<lambda>k x. (k_authenticated x \<longrightarrow> full_in log k (k_username x)) \<and> (k_mfa_pending x \<longrightarrow> half_in log k (k_username x))"
  have step: "hm_ok (?f m (k, x)) \<and> sess_ok log (?f m (k, x))" if "hm_ok m" "sess_ok log m" "?ok k x" for m k x
  proof (cases "load_entry ttl now unix x (ch + length m)")
    case (Some s)
    then have "s_authenticated s = k_authenticated x" "s_mfa_pending s = k_mfa_pending x" "s_username s = k_username x"
      by (auto simp: load_entry_def split: if_splits)
    then show ?thesis using that Some by (auto simp: hm_laws intro: sess_ok_insert)
  qed (use that in simp)
  have loaded: "hm_ok (foldl ?f m es) \<and> sess_ok log (foldl ?f m es)"
    if "hm_ok m" "sess_ok log m" "\<forall>(k, x)\<in>set es. ?ok k x" for m
    using that
  proof (induction es arbitrary: m)
    case (Cons e es)
    obtain k x where e: "e = (k, x)" by (cases e)
    have "hm_ok (?f m e) \<and> sess_ok log (?f m e)" unfolding e by (rule step) (use Cons.prems e in auto)
    then show ?case using Cons.IH [of "?f m e"] Cons.prems(3) by simp
  qed simp
  have es: "\<forall>(k, x)\<in>set es. ?ok k x" using assms(1) Some by (fastforce simp: sess_disk_ok_def)
  let ?raw = "\<lparr>ss_map = foldl ?f [] es, ss_ttl = ttl, ss_path = True, ss_disk = Some es\<rparr>"
  have ss: "ss = persist_locked now ok ?raw" using assms(2) Some by (simp add: session_load_def)
  then have m: "ss_map ss = foldl ?f [] es" by simp
  have ok: "hm_ok (ss_map ss) \<and> sess_ok log (ss_map ss)" unfolding m by (rule loaded) (use es in \<open>auto simp: sess_ok_def hm_get_def\<close>)
  moreover have "sess_disk_ok log ?raw" using es by (fastforce simp: sess_disk_ok_def)
  moreover have "disk_follows ?raw ss" unfolding ss disk_follows_def persist_locked_def by (cases ok) auto
  ultimately show ?thesis using sess_disk_follows by blast
qed

lemma trust_ok_load:
  assumes "trust_disk_ok log store" "device_load (map_option Inr (ds_disk store)) now = (Inr m :: 'e + (string, device) hmap)"
  shows "devices_ok \<lparr>ds_map = m, ds_disk = ds\<rparr> \<and> trust_ok log m"
proof (cases "ds_disk store")
  case None
  then show ?thesis using assms(2) by (auto simp: device_load_def devices_ok_def trust_ok_def hm_get_def)
next
  case (Some xs)
  have loaded: "devices_ok \<lparr>ds_map = foldl (\<lambda>m x. hm_insert (d_token_hash x) x m) m0 ys, ds_disk = ds\<rparr> \<and>
    trust_ok log (foldl (\<lambda>m x. hm_insert (d_token_hash x) x m) m0 ys)"
    if "devices_ok \<lparr>ds_map = m0, ds_disk = ds\<rparr>" "trust_ok log m0" "set ys \<subseteq> set xs" for m0 ys
    using that
  proof (induction ys arbitrary: m0)
    case (Cons y ys)
    have y: "Remembered (d_token_hash y) (d_identity y) (d_enrolled_at y) \<in> set log"
      using assms(1) Some Cons.prems(3) by (auto simp: trust_disk_ok_def)
    have "devices_ok \<lparr>ds_map = hm_insert (d_token_hash y) y m0, ds_disk = ds\<rparr>"
      using Cons.prems(1) by (auto simp: devices_ok_def hm_laws)
    moreover have "trust_ok log (hm_insert (d_token_hash y) y m0)"
      using Cons.prems(2) y by (auto simp: trust_ok_def hm_laws)
    ultimately show ?case using Cons.IH Cons.prems(3) by simp
  qed simp
  have m: "m = foldl (\<lambda>m x. hm_insert (d_token_hash x) x m) [] (filter (\<lambda>x. \<not> device_expired x now) xs)"
    using assms(2) Some by (simp add: device_load_def)
  show ?thesis unfolding m by (rule loaded) (auto simp: devices_ok_def trust_ok_def hm_get_def)
qed

lemma restart_ok:
  assumes "open_app ev d simple (files_left app) = Inr app'" and ok: "app_ok ev app"
  shows "app_ok ev (app'\<lparr>ap_log := ap_log app\<rparr>)"
proof -
  let ?cfg = "ev_cfg ev" and ?ttl = "secs (session_ttl_secs (ev_cfg ev))"
  have fe: "(case fl_enrol (files_left app) of Some (Inr es) \<Rightarrow> Some es | _ \<Rightarrow> None) = es_disk (ap_enrol app)"
    and fd: "(case fl_devices (files_left app) of Some (Inr ds) \<Rightarrow> Some ds | _ \<Rightarrow> None) = ds_disk (ap_devices app)"
    by (simp_all add: files_left_def split: option.split)
  obtain em dm ss where dm: "device_load (fl_devices (files_left app)) (dr_unix d) = Inr dm"
    and ss: "(if simple \<or> session_path ?cfg = None then Inr (session_new ?ttl)
      else session_load ?ttl (dr_now d) (dr_unix d) (dr_chan d) (dr_disk d 0) (fl_sessions (files_left app))) = (Inr ss :: unit + session_store)"
    and app': "app' = app_new ss (terms_new ?cfg) \<lparr>es_map = em, es_disk = es_disk (ap_enrol app)\<rparr>
      \<lparr>ds_map = dm, ds_disk = ds_disk (ap_devices app)\<rparr>"
    using assms(1) unfolding open_app_def Let_def fe fd
    by (cases "enrol_load (fl_enrol (files_left app))"; cases "device_load (fl_devices (files_left app)) (dr_unix d)")
      (auto split: sum.splits)
  have "hm_ok (ss_map ss) \<and> sess_ok (ap_log app) (ss_map ss) \<and> sess_disk_ok (ap_log app) ss"
    using ss sess_ok_load [OF app_okD(9) [OF ok]]
    by (fastforce simp: files_left_def session_new_def sess_ok_def sess_disk_ok_def hm_get_def split: if_splits)
  moreover have "devices_ok \<lparr>ds_map = dm, ds_disk = ds_disk (ap_devices app)\<rparr> \<and> trust_ok (ap_log app) dm"
    using dm trust_ok_load [OF app_okD(10) [OF ok]] by (simp add: files_left_def)
  moreover have "trust_disk_ok (ap_log app) \<lparr>ds_map = dm, ds_disk = ds_disk (ap_devices app)\<rparr>"
    using app_okD(10) [OF ok] by (simp add: trust_disk_ok_def)
  ultimately show ?thesis
    using ok by (simp add: app_ok_def app' app_new_def terms_new_def terminals_new_ok grants_ok_Nil links_ok_def hm_get_def)
qed

subsection \<open>Every state the server reaches\<close>

definition server_ok :: "env \<Rightarrow> 's server \<Rightarrow> bool" where
  "server_ok ev sv \<longleftrightarrow> app_ok ev (sv_app sv) \<and> (\<forall>p\<in>set (sv_waiting sv). pause_ok ev (ap_log (sv_app sv)) p) \<and>
     (\<forall>h\<in>set (sv_holding sv). turn_ok ev (ap_log (sv_app sv)) (snd h)) \<and>
     (\<forall>r\<in>set (sv_answers sv). body_ok ev (ap_log (sv_app sv)) (rs_body r))"

lemma server_ok_goes:
  assumes "server_ok ev sv" "goes ev (sv_app sv) app" "set ws \<subseteq> set (sv_waiting sv)" "set hs \<subseteq> set (sv_holding sv)"
  shows "server_ok ev (sv\<lparr>sv_app := app, sv_waiting := ws, sv_holding := hs\<rparr>)"
proof -
  from assms(1,2) have "app_ok ev app" and sub: "set (ap_log (sv_app sv)) \<subseteq> set (ap_log app)"
    by (auto simp: server_ok_def goes_def)
  then show ?thesis
    using assms(1,3,4) log_mono(8,9,10) [OF sub] by (fastforce simp: server_ok_def)
qed

lemma server_ok_answer:
  assumes "server_ok ev sv" "fine ev (sv_app sv) (r, app)" "set ws \<subseteq> set (sv_waiting sv)" "set hs \<subseteq> set (sv_holding sv)"
  shows "server_ok ev ((answer ev r app sv)\<lparr>sv_waiting := ws, sv_holding := hs\<rparr>)"
proof -
  have b: "rs_body (hsts (ev_cfg ev) r) = rs_body r" by (simp add: hsts_def)
  have "body_ok ev (ap_log app) (rs_body r)" using assms(1,2) by (simp add: server_ok_def fine_def)
  with server_ok_goes [OF assms(1) fine_goes [OF assms(2)] assms(3,4)] show ?thesis
    by (auto simp: server_ok_def answer_def b)
qed

lemma server_ok_attend: "attend ev sv sv' \<Longrightarrow> server_ok ev sv \<Longrightarrow> server_ok ev sv'"
proof (induction rule: attend.induct)
  case (v_reply d j hs req sv r app)
  then have "fine ev (sv_app sv) (r, app)" using sound_handle [of ev "sv_app sv" d j hs req] by simp
  then show ?case using server_ok_answer [OF v_reply(2), of r app "sv_waiting sv" "sv_holding sv"] by (simp add: answer_def)
next
  case (v_pause d j hs req sv p app)
  then have "goes ev (sv_app sv) app" "pause_ok ev (ap_log app) p"
    using sound_handle [of ev "sv_app sv" d j hs req] by (simp_all add: server_ok_def)
  then show ?case
    using server_ok_goes [OF v_pause(2), of app "sv_waiting sv" "sv_holding sv"] by (auto simp: server_ok_def)
next
  case (v_turn t sv now wake g)
  then have "turn_ok ev (ap_log (sv_app sv)) t" by (auto simp: server_ok_def pause_ok_def)
  then show ?case
    using server_ok_goes [OF v_turn(4) goes_other(3) set_remove1_subset subset_refl]
    by (auto simp: server_ok_def)
next
  case (v_finish wake t sv d r app)
  then have "turn_ok ev (ap_log (sv_app sv)) t" by (force simp: server_ok_def)
  then have "fine ev (sv_app sv) (r, app)" using fine_finish_turn [of ev "sv_app sv" t d] v_finish(3) by simp
  then show ?case
    using server_ok_answer [OF v_finish(4) _ subset_refl set_remove1_subset] by (simp add: answer_def)
next
  case (v_google j hs sid fl auth_code sv d g r app)
  then have "fine ev (sv_app sv) (r, app)" using fine_finish_google [of ev "sv_app sv" d g j hs sid fl auth_code] by simp
  then show ?case
    using server_ok_answer [OF v_google(3) _ set_remove1_subset subset_refl] by (simp add: answer_def)
next
  case (v_hang_up sv p)
  then show ?case using server_ok_goes [OF v_hang_up goes_refl set_remove1_subset subset_refl] by simp
next
  case (v_give_up sv h)
  then show ?case using server_ok_goes [OF v_give_up goes_refl subset_refl set_remove1_subset] by simp
next
  case (v_sweep sv d)
  then show ?case using server_ok_goes [OF v_sweep goes_minute_sweep subset_refl subset_refl] by simp
qed

text \<open>What the rest of the program does to the terminals touches no evidence.\<close>

lemma server_ok_terms:
  "server_ok ev sv \<Longrightarrow> extends (ap_terms (sv_app sv)) ts \<Longrightarrow> server_ok ev (sv\<lparr>sv_app := (sv_app sv)\<lparr>ap_terms := ts\<rparr>\<rparr>)"
  by (simp add: server_ok_def app_ok_def extends_def)

lemma server_ok_serve: "serve ev em sv sv' \<Longrightarrow> server_ok ev sv \<Longrightarrow> server_ok ev sv'"
proof (induction rule: serve.induct)
  case (v_terminals sv ts)
  then have "pools_ok (ap_terms (sv_app sv))" by (simp add: server_ok_def app_ok_def)
  from server_ok_terms [OF v_terminals(2) slots_step_extends [OF v_terminals(1) this]] show ?case .
qed (rule server_ok_attend)

lemma server_ok_process: "process ev em sv sv' \<Longrightarrow> server_ok ev sv \<Longrightarrow> server_ok ev sv'"
proof (induction rule: process.induct)
  case (r_restart d simple sv app)
  then show ?case using restart_ok [OF r_restart(1)] by (simp add: server_ok_def)
qed (rule server_ok_serve)

lemma server_ok_new: "server_ok ev (server_new ev es)"
  by (simp add: Let_def terms_new_def terminals_new_ok server_ok_def server_new_def app_new_def app_ok_def session_new_def
      device_new_def sess_ok_def trust_ok_def sess_disk_ok_def trust_disk_ok_def links_ok_def grants_ok_Nil devices_ok_def
      hm_ok_def hm_get_def)

lemma reached_ok: "(process ev em)\<^sup>*\<^sup>* (server_new ev es) sv \<Longrightarrow> server_ok ev sv"
  by (induction rule: rtranclp_induct) (auto intro: server_ok_new server_ok_process)

end
