(* ===== verification/Access.thy ===== *)
theory Access
  imports Server
begin

text \<open>
  What the whole server promises, over every state it reaches (theory \<open>Server\<close>) or every call of a
  handler: who gets in and on what evidence, what a request without a session or without its token can
  do, and that no request reaches what belongs to someone else.
\<close>

subsection \<open>A concrete server\<close>

definition toy_cfg :: config where
  "toy_cfg = \<lparr>bind_addr = ''127.0.0.1:8080'', users = [identity_new Local ''u''], login_methods = [Local],
     local_passwords = [(''local:u'', ''pw'')], mfa_required = False, google_client_id = None,
     google_client_secret = None, mfa_enrollment_path = ''mfa.json'', remember_device = True,
     remember_device_window = 2592000, device_path = ''devices.json'', max_devices_per_identity = 5, owner = ''o'',
     owner_home = ''/'', slots_per_user = 2, max_share_secs = 3600, sharing_enabled = True, public_base_url = None,
     login_cmd = [''/bin/sh''], envs = [], scrollback_cap = 10, redraw_interval = None, session_ttl_secs = 600,
     session_path = None, cookie_secure = False, allowed_origins = [], strict_origin = False,
     ws_message_limit = 65536, secret_base64 = None, tls = None\<rparr>"

definition toy_env :: env where
  "toy_env = \<lparr>ev_cfg = toy_cfg, ev_sk = id, ev_th = id,
     ev_hashers = \<lparr>h_hash = Inr, h_bcrypt = (\<lambda>_ _. Inr False), h_phc = (\<lambda>_. None), h_argon2 = (\<lambda>_ _. PasswordInvalid)\<rparr>,
     ev_hmac = toy_hmac, ev_crypto = toy_crypto, ev_share_key = [7], ev_s256 = id,
     ev_assets = \<lparr>as_login = [], as_mfa_verify = [], as_mfa = [], as_terminal = [], as_access = [], as_qr_svg = Some\<rparr>\<rparr>"

definition toy_draw :: "nat \<Rightarrow> string \<Rightarrow> draw" where
  "toy_draw t n = \<lparr>dr_now = secs t, dr_unix = 3000 + t, dr_disk = (\<lambda>_. True), dr_id = n, dr_csrf = CHR ''c'' # n, dr_chan = t,
     dr_nonce = n, dr_seed = [], dr_tokens = (\<lambda>_ _. n), dr_token = CHR ''t'' # n, dr_did = CHR ''d'' # n, dr_joined = True,
     dr_permit = (\<lambda>_. True)\<rparr>"

definition toy_jar :: "string list \<Rightarrow> jar" where
  "toy_jar sids = \<lparr>jr_values = map (Pair cookie_name) sids, jr_ops = []\<rparr>"

lemmas toy_defs = toy_cfg_def toy_env_def toy_draw_def toy_jar_def

text \<open>A login page, a password, and the session it opens.\<close>

definition toy_app :: "(string, session) hmap \<Rightarrow> nat list \<Rightarrow> (string, bucket) hmap \<Rightarrow> event list \<Rightarrow> unit app" where
  "toy_app ss gn bs es = \<lparr>ap_sessions = \<lparr>ss_map = ss, ss_ttl = secs 600, ss_path = False, ss_disk = None\<rparr>, ap_gone = gn,
     ap_terms = terminals_new 2 [''/bin/sh''] [] ''o'' ''/'' 10, ap_shares = [], ap_cut = [], ap_prefs = [],
     ap_guard = \<lparr>lg_buckets = bs, lg_mfa = []\<rparr>, ap_enrol = enrol_new, ap_devices = device_new, ap_otp = [], ap_log = es\<rparr>"

definition toy_session :: "bool \<Rightarrow> string \<Rightarrow> string \<Rightarrow> nat \<Rightarrow> session" where
  "toy_session auth user n t = session_fresh auth False user (CHR ''c'' # n) (secs t) (3000 + t) t"

definition toy_form :: login_form where
  "toy_form = \<lparr>lf_csrf = ''ca'', lf_username = ''u'', lf_password = ''pw''\<rparr>"

definition toy_turn :: turn where
  "toy_turn = Check_password (toy_jar [''a'']) [] ''a'' (identity_new Local ''u'') ''pw''"

definition toy_event :: event where
  "toy_event = Full_in ''b'' ''local:u'' (Without_code (By_password (identity_new Local ''u'') ''pw'' ''pw''))"

lemmas toy_session_ops =
  current_session_def jar_get_def session_get_def session_expired_def session_ttl_def preauth_ttl_def nanos_def session_fresh_def
  hm_get_def hm_insert_def hm_remove_def persist_locked_def chan_of_def Let_def

lemma toy_strings:
  "trim ''u'' = ''u''" "trim ''pw'' = ''pw''" "trim ''local:u'' = ''local:u''" "to_lowercase ''u'' = ''u''"
  "to_lowercase ''local:u'' = ''local:u''" "looks_hashed ''pw'' = False"
  by (simp_all add: trim_def trim_start_def trim_end_def is_whitespace_def to_lowercase_def char_lower_def has_lower_def char_class_defs code_def
      looks_hashed_def split_on_free)

lemma toy_start: "sv_app (server_new toy_env enrol_new) = toy_app [] [] [] []"
  by (simp add: server_new_def terms_new_def app_new_def toy_app_def session_new_def toy_defs guard_new_def Let_def)

lemma toy_page:
  "\<exists>r. handle toy_env (toy_draw 1 ''a'') (toy_jar []) [] Login_page (toy_app [] [] [] []) =
     (Reply r, toy_app [(''a'', toy_session False [] ''a'' 1)] [] [] [])"
  by (simp add: handle_def login_page_def ensure_session_def create_session_def session_create_def max_sessions_def
      toy_app_def toy_session_def toy_defs toy_session_ops jar_add_def session_cookie_def reply_def)

lemma toy_login:
  "handle toy_env (toy_draw 2 ''b'') (toy_jar [''a'']) [] (Local_login toy_form) (toy_app [(''a'', toy_session False [] ''a'' 1)] [] [] []) =
     (Pause (For_turn toy_turn), toy_app [(''a'', toy_session False [] ''a'' 1)] [] [] [])"
  by (simp add: handle_def local_login_def csrf_matches_def toy_form_def toy_turn_def local_usable_def permits_def identity_new_def
      toy_app_def toy_session_def toy_defs toy_session_ops)

lemma toy_enter:
  "guard_enter ''local:u'' (secs 2) \<lparr>lg_buckets = [], lg_mfa = []\<rparr> = (secs 2, \<lparr>lg_buckets = [(''local:u'', (0, secs 2))], lg_mfa = []\<rparr>)"
  by (simp add: guard_enter_def recent_failures_def hm_get_def hm_insert_def)

lemma toy_finish:
  "\<exists>r. finish_turn toy_env (toy_draw 3 ''b'') toy_turn
      (toy_app [(''a'', toy_session False [] ''a'' 1)] [] [(''local:u'', (0, secs 2))] []) =
     (r, toy_app [(''b'', toy_session True ''local:u'' ''b'' 3)] [1] [(''local:u'', (0, secs 3))] [toy_event])"
  by (simp add: finish_turn_def finish_password_def toy_turn_def verify_password_def toy_strings local_password_def
      first_factor_def factor_identity_def login_session_def session_login_def session_promote_def on_guard_def
      attempt_succeeded_def identity_str_def identity_new_def
      toy_app_def toy_session_def toy_event_def toy_defs toy_session_ops)

lemma four_steps: "R a b \<Longrightarrow> R b c \<Longrightarrow> R c d \<Longrightarrow> R d e \<Longrightarrow> R\<^sup>*\<^sup>* a e"
  by (meson rtranclp.rtrancl_into_rtrancl rtranclp.rtrancl_refl)

text \<open>The server that let the user in.\<close>

definition toy_in :: "unit app" where
  "toy_in = toy_app [(''b'', toy_session True ''local:u'' ''b'' 3)] [1] [(''local:u'', (0, secs 3))] [toy_event]"

lemma toy_in_attended: "\<exists>sv. (attend toy_env)\<^sup>*\<^sup>* (server_new toy_env enrol_new) sv \<and> sv_app sv = toy_in"
proof -
  define A where "A = toy_app [(''a'', toy_session False [] ''a'' 1)] [] [] []"
  define g where "g = \<lparr>lg_buckets = [(''local:u'', (0::nat, secs 2))], lg_mfa = []\<rparr>"
  define s0 :: "unit server" where "s0 = server_new toy_env enrol_new"
  have 0: "sv_app s0 = toy_app [] [] [] []" "sv_waiting s0 = []" "sv_holding s0 = []"
    using toy_start by (simp_all add: s0_def server_new_def Let_def)
  obtain r where "handle toy_env (toy_draw 1 ''a'') (toy_jar []) [] Login_page (sv_app s0) = (Reply r, A)"
    using toy_page unfolding 0 A_def by blast
  then have s1: "attend toy_env s0 (answer toy_env r A s0)" by (rule v_reply)
  define a1 where "a1 = answer toy_env r A s0"
  have 1: "sv_app a1 = A" "sv_waiting a1 = []" "sv_holding a1 = []" by (simp_all add: a1_def answer_def 0)
  have s2: "attend toy_env a1 (a1\<lparr>sv_app := A, sv_waiting := sv_waiting a1 @ [For_turn toy_turn]\<rparr>)"
    by (rule v_pause [of _ "toy_draw 2 ''b''" "toy_jar [''a'']" "[]" "Local_login toy_form"]) (simp only: 1 A_def toy_login)
  define a2 where "a2 = a1\<lparr>sv_app := A, sv_waiting := sv_waiting a1 @ [For_turn toy_turn]\<rparr>"
  have 2: "sv_app a2 = A" "sv_waiting a2 = [For_turn toy_turn]" "sv_holding a2 = []" by (simp_all add: a2_def 1)
  have s3: "attend toy_env a2 (a2\<lparr>sv_app := (sv_app a2)\<lparr>ap_guard := g\<rparr>,
      sv_waiting := remove1 (For_turn toy_turn) (sv_waiting a2), sv_holding := sv_holding a2 @ [(secs 2, toy_turn)]\<rparr>)"
    by (rule v_turn [where now = "secs 2"])
      (use toy_enter in \<open>simp_all add: 2 A_def g_def toy_turn_def turn_bucket_def identity_str_def identity_new_def toy_strings
        toy_app_def\<close>)
  define a3 where "a3 = a2\<lparr>sv_app := (sv_app a2)\<lparr>ap_guard := g\<rparr>,
      sv_waiting := remove1 (For_turn toy_turn) (sv_waiting a2), sv_holding := sv_holding a2 @ [(secs 2, toy_turn)]\<rparr>"
  have 3: "sv_app a3 = toy_app [(''a'', toy_session False [] ''a'' 1)] [] [(''local:u'', (0, secs 2))] []"
    "sv_holding a3 = [(secs 2, toy_turn)]"
    by (simp_all add: a3_def 2 A_def g_def toy_app_def)
  obtain r' where f: "finish_turn toy_env (toy_draw 3 ''b'') toy_turn (sv_app a3) = (r', toy_in)"
    using toy_finish unfolding 3 toy_in_def by blast
  have s4: "attend toy_env a3 ((answer toy_env r' toy_in a3)\<lparr>sv_holding := remove1 (secs 2, toy_turn) (sv_holding a3)\<rparr>)"
    by (rule v_finish [OF _ _ f]) (simp_all add: 3 toy_draw_def)
  have "(attend toy_env)\<^sup>*\<^sup>* s0 ((answer toy_env r' toy_in a3)\<lparr>sv_holding := remove1 (secs 2, toy_turn) (sv_holding a3)\<rparr>)"
    by (rule four_steps [where R = "attend toy_env", OF s1 [folded a1_def] s2 [folded a2_def] s3 [folded a3_def] s4])
  moreover have "sv_app ((answer toy_env r' toy_in a3)\<lparr>sv_holding := hs\<rparr>) = toy_in" for hs by (simp add: answer_def)
  ultimately show ?thesis unfolding s0_def by blast
qed

lemma toy_in_served: "\<exists>sv. (serve toy_env unit_emulator)\<^sup>*\<^sup>* (server_new toy_env enrol_new) sv \<and> sv_app sv = toy_in"
  using toy_in_attended attend_serve by blast


subsection \<open>Who is in\<close>

text \<open>A one-time code was checked for a login that had passed its first factor.\<close>

definition coded :: "env \<Rightarrow> event list \<Rightarrow> string \<Rightarrow> string \<Rightarrow> string \<Rightarrow> string \<Rightarrow> nat \<Rightarrow> bool" where
  "coded ev log user k secret otp t \<longleftrightarrow> code_ok ev secret otp t \<and>
     (\<exists>f. Half_in k f \<in> set log \<and> factor_ok ev f \<and> user = identity_str (factor_identity f))"

lemma coded_event:
  assumes "app_ok ev app" "Full_in k user (With_code k0 secret otp t) \<in> set (ap_log app)"
  shows "coded ev (ap_log app) user k0 secret otp t"
  using app_okD(8) [OF assms(1) assms(2)] app_okD(8) [OF assms(1)]
  by (fastforce simp: event_ok_def route_ok_def half_in_def coded_def)

lemma authed_SomeD:
  assumes "authed_session ev d j app = (Some s, app1)"
  shows "app1 = app \<and> s_authenticated s \<and>
    (\<exists>sid. jar_get cookie_name j = Some sid \<and> hm_get (ss_map (ap_sessions app)) (ev_sk ev sid) = Some s \<and>
       current_session ev d j app = (Some (sid, s), app))"
proof -
  obtain cur app2 where c: "current_session ev d j app = (cur, app2)" by (cases "current_session ev d j app")
  then obtain sid where "cur = Some (sid, s)" "s_authenticated s" "app2 = app1"
    using assms by (auto simp: authed_session_def split: option.splits if_splits)
  then show ?thesis using c current_session_SomeD [of ev d j app sid s app1] by auto
qed


definition backed :: "env \<Rightarrow> event list \<Rightarrow> string \<Rightarrow> route \<Rightarrow> bool" where
  "backed ev log user r \<longleftrightarrow>
    (case r of
      Without_code f \<Rightarrow> \<not> mfa_required (ev_cfg ev) \<and> factor_ok ev f \<and> user = identity_str (factor_identity f)
    | Trusted_browser f token at \<Rightarrow> remember_device (ev_cfg ev) \<and> factor_ok ev f \<and> user = identity_str (factor_identity f) \<and>
        (\<exists>k user' k0 secret otp t. Full_in k user' (With_code k0 secret otp t) \<in> set log \<and>
          identity_parse user' = Inr (factor_identity f) \<and> coded ev log user' k0 secret otp t)
    | With_code k0 secret otp t \<Rightarrow> coded ev log user k0 secret otp t)"

lemma backed_event:
  assumes "app_ok ev app" "Full_in k user r \<in> set (ap_log app)"
  shows "backed ev (ap_log app) user r"
proof (cases r)
  case (Trusted_browser f token at)
  have route: "route_ok ev (ap_log app) user r" using app_okD(8) [OF assms] by (simp add: event_ok_def)
  then have "Remembered (ev_th ev token) (factor_identity f) at \<in> set (ap_log app)"
    by (simp add: route_ok_def Trusted_browser)
  from app_okD(8) [OF assms(1) this] obtain k' user' k0 secret otp t
    where "Full_in k' user' (With_code k0 secret otp t) \<in> set (ap_log app)" "identity_parse user' = Inr (factor_identity f)"
    by (auto simp: event_ok_def)
  then show ?thesis
    using route coded_event [OF assms(1)] unfolding backed_def route_ok_def Trusted_browser route.case by blast
next
  case (Without_code f)
  then show ?thesis using app_okD(8) [OF assms] by (simp add: event_ok_def route_ok_def backed_def)
next
  case (With_code k0 secret otp t)
  then show ?thesis using coded_event [OF assms(1)] assms(2) by (simp add: backed_def)
qed


lemma toy_authed:
  "authed_session toy_env (toy_draw 4 ''c'') (toy_jar [''b'']) toy_in = (Some (toy_session True ''local:u'' ''b'' 3), toy_in)"
  by (simp add: toy_in_def authed_session_def toy_app_def toy_session_def toy_defs toy_session_ops)


subsection \<open>Upgrades\<close>

text \<open>Only two routes answer with an upgrade.\<close>

lemma plain_login_error [simp]: "plain (rs_body (fst (login_error ev d j hs m app)))"
  by (simp add: login_error_def split_def Let_def)

lemma plain_with_auth: "(\<And>s app1. plain (rs_body (fst (f s app1)))) \<Longrightarrow> plain (rs_body (fst (with_auth ev d j f app)))"
  by (auto simp: with_auth_def split: option.splits prod.splits)

lemma plain_with_csrf: "plain (rs_body (fst (f app))) \<Longrightarrow> plain (rs_body (fst (with_csrf s csrf f app)))"
  by (simp add: with_csrf_def)

lemmas plain_guards = plain_with_auth plain_with_csrf

lemma plain_create_share: "plain (rs_body (fst (create_share ev d j csrf index ttl note app)))"
  by (auto simp: create_share_def Let_def split_def split: sum.splits create_error.splits intro!: plain_guards)

lemma plain_private:
  "(\<And>csrf. req \<noteq> Websocket csrf) \<Longrightarrow> plain (rs_body (fst (private_handler ev d j hs req app)))"
  by (cases req)
    (auto simp: private_handler_def terminal_page_def list_terminals_def reset_terminal_def set_prefs_def plain_create_share
      list_shares_def revoke_share_def list_devices_def revoke_device_def logout_def Let_def split_def
      split: option.splits sum.splits intro!: plain_guards)

lemma plain_public:
  "(\<And>token epoch offset. req \<noteq> Access_ws token epoch offset) \<Longrightarrow> plain (rs_body (fst (public_handler ev d hs req app)))"
  by (cases req)
    (auto simp: public_handler_def access_page_def access_status_def access_meta_def Let_def split_def split: option.splits)

lemma plain_pages [simp]:
  "plain (rs_body (fst (login_page ev d j hs app)))" "plain (rs_body (fst (mfa_page ev d j hs app)))"
  "plain (rs_body (fst (oauth_start ev d j csrf app)))" "plain (rs_body (fst (mfa_cancel ev d j csrf app)))"
  by (auto simp: login_page_def mfa_page_def oauth_start_def mfa_cancel_def Let_def split_def split: option.splits prod.splits)

lemma reply_eq: "reply ra = (p, app) \<longleftrightarrow> p = Reply (fst ra) \<and> app = snd ra"
  by (cases ra) (auto simp: reply_def)

lemma plain_handle:
  assumes "handle ev d j hs req app = (Reply r, app1)" "\<not> plain (rs_body r)"
  shows "(\<exists>csrf. req = Private (Websocket csrf) \<and> (r, app1) = require_auth ev d j hs (Websocket csrf) app) \<or>
    (\<exists>token epoch offset. req = Public (Access_ws token epoch offset) \<and> (r, app1) = access_ws ev d hs token epoch offset app)"
proof (cases req)
  case (Local_login form)
  then have "plain (rs_body r)"
    using assms(1) by (auto simp: handle_def local_login_def reply_eq Let_def split: option.splits prod.splits if_splits)
  with assms(2) show ?thesis by simp
next
  case (Oauth_callback q)
  then have "plain (rs_body r)"
    using assms(1) by (auto simp: handle_def oauth_callback_def reply_eq Let_def split: option.splits prod.splits if_splits)
  with assms(2) show ?thesis by simp
next
  case (Mfa_submit form)
  then have "plain (rs_body r)"
    using assms(1) by (auto simp: handle_def mfa_submit_def reply_eq split: option.splits prod.splits if_splits sum.splits)
  with assms(2) show ?thesis by simp
next
  case (Private q)
  then have eq: "(r, app1) = require_auth ev d j hs q app" using assms(1) by (simp add: handle_def reply_eq)
  show ?thesis
  proof (cases "\<exists>csrf. q = Websocket csrf")
    case False
    then have "plain (rs_body (fst (require_auth ev d j hs q app)))"
      using plain_private [of q] by (auto simp: require_auth_def Let_def split: option.splits prod.splits)
    then show ?thesis using assms(2) by (simp flip: eq)
  qed (use Private eq in auto)
next
  case (Public q)
  then have eq: "(r, app1) = public_handler ev d hs q app" using assms(1) by (simp add: handle_def reply_eq)
  show ?thesis
  proof (cases "\<exists>token epoch offset. q = Access_ws token epoch offset")
    case False
    then show ?thesis using assms(2) plain_public [of q ev d hs app] by (auto simp flip: eq)
  qed (use Public eq in \<open>auto simp: public_handler_def\<close>)
qed (use assms in \<open>auto simp: handle_def reply_eq\<close>)

lemma access_ws_View:
  assumes "access_ws ev d hs token epoch offset app = (r, app1)" "rs_body r = View_upgrade att l"
  shows "sharing_enabled (ev_cfg ev) \<and> origin_allowed (ev_cfg ev) hs \<and>
    share_lease (ev_crypto ev) (ev_share_key ev) (dr_permit d) (dr_unix d) token (ap_shares app) = Inr l \<and>
    r = \<lparr>rs_status = 101, rs_headers = [], rs_body = View_upgrade att l, rs_cookies = []\<rparr> \<and>
    attach_view (l_username l) (l_index l) (case (epoch, offset) of (Some e, Some off) \<Rightarrow> Some (e, off) | _ \<Rightarrow> None) (ap_terms app)
      = (Inr att, ap_terms app1) \<and> app1 = app\<lparr>ap_terms := ap_terms app1\<rparr>"
  using assms
  by (auto simp: access_ws_def Let_def split_def split: if_splits sum.splits lease_error.splits dest!: prod_eqI)
    (auto simp: prod_eq_iff)

lemma attach_view_slot:
  assumes "pools_ok ts" "attach_view u i resume ts = (Inr att, ts')"
  shows "slot_of ts u i = Some (at_term att)"
  using assms live_slot_eq [OF assms(1), of i u]
  by (auto simp: attach_view_def Let_def split: if_splits option.splits)

lemma ws_not_View: "rs_body (fst (require_auth ev d j hs (Websocket csrf) app)) \<noteq> View_upgrade att l"
proof -
  have "rs_body (fst (ws_handler ev d j hs csrf app1)) \<noteq> View_upgrade att l" for app1 :: "'a app"
    by (simp add: ws_handler_def with_auth_def with_csrf_def split: option.split prod.split)
  then show ?thesis by (simp add: require_auth_def private_handler_def Let_def split: option.split prod.split)
qed

text \<open>C4: nobody views a terminal its owner did not share: the server only ever upgrades a request to a viewer's
  stream when sharing is on, the origin is allowed and the link's expiry lies ahead, and then what the
  viewer is attached to is the slot of a link that a logged-in session of that very owner created, for
  this slot and with this expiry. Attaching changes nothing but the terminals.\<close>

theorem viewer_admission:
  assumes "(process ev em)\<^sup>*\<^sup>* (server_new ev es) sv"
    and "handle ev d j hs req (sv_app sv) = (Reply r, app1)" "rs_body r = View_upgrade att l"
  shows "sharing_enabled (ev_cfg ev) \<and> origin_allowed (ev_cfg ev) hs \<and> dr_unix d < l_expires_at l \<and>
    slot_of (ap_terms (sv_app sv)) (l_username l) (l_index l) = Some (at_term att) \<and>
    app1 = (sv_app sv)\<lparr>ap_terms := ap_terms app1\<rparr> \<and>
    Shared (l_username l) (l_index l) (l_expires_at l) \<in> set (ap_log (sv_app sv)) \<and>
    (\<exists>k r. Full_in k (l_username l) r \<in> set (ap_log (sv_app sv)) \<and> backed ev (ap_log (sv_app sv)) (l_username l) r)"
proof -
  have ok: "app_ok ev (sv_app sv)" using reached_ok [OF assms(1)] by (simp add: server_ok_def)
  have "\<not> plain (rs_body r)" by (simp add: assms(3) plain_def)
  then obtain token epoch offset where a: "access_ws ev d hs token epoch offset (sv_app sv) = (r, app1)"
    using plain_handle [OF assms(2)] ws_not_View [of ev d j hs _ "sv_app sv" att l] assms(3) by (metis fst_conv)
  note V = access_ws_View [OF a assms(3)]
  have "body_ok ev (ap_log app1) (rs_body r)"
    using fine_access_ws [of ev "sv_app sv" d hs token epoch offset] ok by (simp add: a fine_def)
  moreover have "ap_log app1 = ap_log (sv_app sv)" by (subst conjunct2 [OF conjunct2 [OF conjunct2 [OF conjunct2 [OF conjunct2 [OF V]]]]]) simp
  ultimately have s: "Shared (l_username l) (l_index l) (l_expires_at l) \<in> set (ap_log (sv_app sv))"
    by (simp add: assms(3) body_ok_def)
  then have "\<exists>k r. Full_in k (l_username l) r \<in> set (ap_log (sv_app sv)) \<and> backed ev (ap_log (sv_app sv)) (l_username l) r"
    using app_okD(8) [OF ok s] backed_event [OF ok] by (fastforce simp: event_ok_def full_in_def)
  moreover have "dr_unix d < l_expires_at l" using V by (blast elim: share_lease_Inr)
  moreover have "slot_of (ap_terms (sv_app sv)) (l_username l) (l_index l) = Some (at_term att)"
    using V attach_view_slot [OF app_okD(7) [OF ok]] by blast
  ultimately show ?thesis using V s by blast
qed

text \<open>C3: the owner's stream is only opened for its owner: an upgrade to the multiplexed stream comes from a request
  with an authenticated session, an allowed origin and the session's CSRF token; the stream carries that
  session's user and revocation channel, ends when the session does, and leaves the state as it was.\<close>

theorem mux_admission:
  assumes "handle ev d j hs req app = (Reply r, app1)" "rs_body r = Mux_upgrade user ch deadline"
  shows "\<exists>csrf sid s. req = Private (Websocket csrf) \<and> jar_get cookie_name j = Some sid \<and>
    hm_get (ss_map (ap_sessions app)) (ev_sk ev sid) = Some s \<and> s_authenticated s \<and>
    \<not> session_expired (ss_ttl (ap_sessions app)) (dr_now d) s \<and> csrf = s_csrf s \<and>
    origin_allowed (ev_cfg ev) hs \<and> user = s_username s \<and> ch = s_chan s \<and>
    deadline = dr_now d + session_remaining (ss_ttl (ap_sessions app)) (dr_now d) s \<and> app1 = app"
proof -
  have "\<not> plain (rs_body r)" by (simp add: assms(2) plain_def)
  then obtain csrf where req: "req = Private (Websocket csrf)"
    and a: "require_auth ev d j hs (Websocket csrf) app = (r, app1)"
    using plain_handle [OF assms(1)] assms(2)
    by (auto simp: access_ws_def Let_def split_def split: if_splits sum.splits lease_error.splits)
  obtain s where s: "authed_session ev d j app = (Some s, app)"
    using a assms(2) authed_SomeD [of ev d j app] by (auto simp: require_auth_def Let_def split: option.splits prod.splits if_splits)
  then obtain sid where sid: "jar_get cookie_name j = Some sid" "hm_get (ss_map (ap_sessions app)) (ev_sk ev sid) = Some s"
    "s_authenticated s" "current_session ev d j app = (Some (sid, s), app)"
    using authed_SomeD [OF s] by blast
  have live: "\<not> session_expired (ss_ttl (ap_sessions app)) (dr_now d) s"
    using sid(1,2,4) by (auto simp: current_session_def session_get_def split: if_splits)
  have "r = \<lparr>rs_status = 101, rs_headers = [], rs_body = Mux_upgrade (s_username s) (s_chan s)
      (dr_now d + session_remaining (ss_ttl (ap_sessions app)) (dr_now d) s), rs_cookies = []\<rparr>"
    and "csrf_matches (s_csrf s) csrf" "origin_allowed (ev_cfg ev) hs" "app1 = app"
    using a assms(2) s by (auto simp: require_auth_def private_handler_def ws_handler_def with_auth_def with_csrf_def split: if_splits)
  then show ?thesis
    using req sid live assms(2)
    by (auto simp: csrf_matches_def)
qed

definition toy_headers :: headers where
  "toy_headers = [(''origin'', ''http://h''), (''host'', ''h'')]"

lemma toy_origin: "origin_allowed toy_cfg toy_headers"
proof -
  have "str_find ''://'' ''http://h'' = Some 4" "str_find ''://'' ''h'' = None" by (simp_all add: starts_with_def)
  then have "split_str ''://'' ''http://h'' = [''http'', ''h'']"
    by (subst split_str.simps, subst split_str.simps) (simp add: numeral_eq_Suc)
  then show ?thesis
    by (simp add: origin_allowed_def toy_headers_def header_def visible_def code_def toy_cfg_def nth_piece_def)
qed

definition toy_mux_answer :: response where
  "toy_mux_answer = \<lparr>rs_status = 101, rs_headers = [], rs_body = Mux_upgrade ''local:u'' 3 (secs 603), rs_cookies = []\<rparr>"

lemma toy_mux:
  "handle toy_env (toy_draw 4 ''c'') (toy_jar [''b'']) toy_headers (Private (Websocket ''cb'')) toy_in = (Reply toy_mux_answer, toy_in)"
  using toy_origin
  by (simp add: handle_def require_auth_def private_handler_def ws_handler_def with_auth_def with_csrf_def toy_authed
      reply_def csrf_matches_def session_remaining_def session_ttl_def toy_mux_answer_def)
    (simp add: toy_session_def session_fresh_def toy_in_def toy_app_def toy_draw_def toy_env_def)

theorem mux_admission_witness:
  "\<exists>sid s. jar_get cookie_name (toy_jar [''b'']) = Some sid \<and> hm_get (ss_map (ap_sessions toy_in)) (ev_sk toy_env sid) = Some s \<and>
     s_authenticated s \<and> s_username s = ''local:u'' \<and> s_csrf s = ''cb'' \<and> origin_allowed (ev_cfg toy_env) toy_headers"
proof -
  have "rs_body toy_mux_answer = Mux_upgrade ''local:u'' 3 (secs 603)" by (simp add: toy_mux_answer_def)
  from mux_admission [OF toy_mux this] show ?thesis by auto
qed

text \<open>The user shares the first slot and opens it; someone follows the link.\<close>

definition toy_grant :: grant where
  "toy_grant = \<lparr>g_id = ''dc'', g_username = ''local:u'', g_index = 0, g_expires_at = 3104, g_note = [], g_chan = 4\<rparr>"

definition toy_link :: string where
  "toy_link = share_encode toy_crypto [7] ''dc'' 0 3104 ''local:u''"

definition toy_shared :: "unit app" where
  "toy_shared = toy_in\<lparr>ap_shares := [(''dc'', toy_grant)], ap_log := ap_log toy_in @ [Shared ''local:u'' 0 3104]\<rparr>"

lemma toy_create_share:
  "\<exists>r. handle toy_env (toy_draw 4 ''c'') (toy_jar [''b'']) [] (Private (Share_slot ''cb'' 0 100 [])) (toy_in\<lparr>ap_terms := ts\<rparr>) =
     (Reply r, toy_shared\<lparr>ap_terms := ts\<rparr>)"
proof -
  have "authed_session toy_env (toy_draw 4 ''c'') (toy_jar [''b'']) (toy_in\<lparr>ap_terms := ts\<rparr>) =
      (Some (toy_session True ''local:u'' ''b'' 3), toy_in\<lparr>ap_terms := ts\<rparr>)"
    by (simp add: toy_in_def authed_session_def toy_app_def toy_session_def toy_defs toy_session_ops)
  then show ?thesis
    by (simp add: handle_def require_auth_def private_handler_def create_share_def with_auth_def with_csrf_def reply_def
        csrf_matches_def sanitize_note_def)
      (simp add: toy_session_def session_fresh_def toy_in_def toy_app_def toy_shared_def toy_grant_def toy_defs clamp_def share_create_def
        prune_expired_def held_by_def hm_values_def hm_retain_def hm_insert_def hm_get_def max_grants_per_user_def sat_add64_def
        sanitize_note_def split_whitespace_def Let_def)
qed

definition toy_terms :: "unit terminals" where
  "toy_terms = snd (snd (attach unit_emulator toy_os ''local:u'' 0 80 24 None (ap_terms toy_in)))"

lemma toy_in_attach:
  obtains evs where "attach unit_emulator toy_os ''local:u'' 0 80 24 None (ap_terms toy_in) =
      (Inr (attach_cut None 0 (join_resized 80 24 toy_shell)), evs, toy_terms)"
    "ts_heap toy_terms = [join_resized 80 24 toy_shell]"
proof -
  have ts: "ap_terms toy_in = toy_slots" by (simp add: toy_in_def toy_app_def toy_slots_def)
  obtain evs where sp: "spawn_terminal unit_emulator toy_os (ts_login_cmd toy_slots) ''local:u'' (ts_owner toy_slots) (ts_home toy_slots)
     (ts_envs toy_slots) 80 24 (ts_cap toy_slots) = (Inr toy_shell, evs)" using toy_spawn by blast
  have h: "ts_heap toy_slots = []" "0 < ts_slots toy_slots" "slot_of toy_slots ''local:u'' 0 = None"
    by (simp_all add: toy_slots_def terminals_new_def slot_of_def)
  then have "slot_dead toy_slots ''local:u'' 0" by (simp add: slot_dead_def)
  note at = attach_cold [OF toy_slots_ok h(2) this sp, of None]
  show thesis
    by (rule that) (use at h(1,3) in \<open>simp_all add: toy_terms_def ts Let_def vacated_def on_term_heap\<close>)
qed

lemma toy_terms: "live_slot ''local:u'' 0 toy_terms = Some 0" "0 < ts_slots toy_terms"
proof -
  have ts: "ap_terms toy_in = toy_slots" by (simp add: toy_in_def toy_app_def toy_slots_def)
  obtain evs where at: "attach unit_emulator toy_os ''local:u'' 0 80 24 None toy_slots =
      (Inr (attach_cut None 0 (join_resized 80 24 toy_shell)), evs, toy_terms)"
    "ts_heap toy_terms = [join_resized 80 24 toy_shell]"
    by (rule toy_in_attach) (simp add: ts)
  have ok: "pools_ok toy_terms" unfolding toy_terms_def ts by (rule attach_ok [OF toy_slots_ok])
  show n: "0 < ts_slots toy_terms"
    unfolding toy_terms_def ts using attach_att [OF toy_slots_ok at(1)] by (simp add: toy_slots_def terminals_new_def)
  have "slot_of toy_terms ''local:u'' 0 = Some 0"
    using attach_att [OF toy_slots_ok at(1)] by (simp add: attach_cut_def split_def Let_def)
  then show "live_slot ''local:u'' 0 toy_terms = Some 0"
    using live_slot_eq [OF ok n, of "''local:u''"]
    by (simp add: slot_dead_def at(2) toy_shell_def term_new_def)
qed

lemma toy_shared_served:
  "\<exists>sv. (serve toy_env unit_emulator)\<^sup>*\<^sup>* (server_new toy_env enrol_new) sv \<and> sv_app sv = toy_shared\<lparr>ap_terms := toy_terms\<rparr>"
proof -
  obtain sv where sv: "(serve toy_env unit_emulator)\<^sup>*\<^sup>* (server_new toy_env enrol_new) sv" "sv_app sv = toy_in"
    using toy_in_served by blast
  have "slots_step unit_emulator (ap_terms (sv_app sv)) toy_terms" unfolding sv(2) toy_terms_def by (rule p_attach)
  then have 1: "serve toy_env unit_emulator sv (sv\<lparr>sv_app := (sv_app sv)\<lparr>ap_terms := toy_terms\<rparr>\<rparr>)" by (rule v_terminals)
  let ?sv = "sv\<lparr>sv_app := (sv_app sv)\<lparr>ap_terms := toy_terms\<rparr>\<rparr>"
  obtain r where "handle toy_env (toy_draw 4 ''c'') (toy_jar [''b'']) [] (Private (Share_slot ''cb'' 0 100 [])) (sv_app ?sv) =
      (Reply r, toy_shared\<lparr>ap_terms := toy_terms\<rparr>)"
    using toy_create_share sv(2) by auto
  then have 2: "serve toy_env unit_emulator ?sv (answer toy_env r (toy_shared\<lparr>ap_terms := toy_terms\<rparr>) ?sv)"
    by (rule v_attend [OF v_reply])
  have "sv_app (answer toy_env r (toy_shared\<lparr>ap_terms := toy_terms\<rparr>) ?sv) = toy_shared\<lparr>ap_terms := toy_terms\<rparr>"
    by (simp add: answer_def)
  with rtranclp.rtrancl_into_rtrancl [OF rtranclp.rtrancl_into_rtrancl [OF sv(1) 1] 2] show ?thesis by blast
qed

lemma toy_shared_reached:
  "\<exists>sv. (process toy_env unit_emulator)\<^sup>*\<^sup>* (server_new toy_env enrol_new) sv \<and> sv_app sv = toy_shared\<lparr>ap_terms := toy_terms\<rparr>"
  using toy_shared_served serve_process by blast

definition toy_view_lease :: lease where
  "toy_view_lease = \<lparr>l_username = ''local:u'', l_index = 0, l_expires_at = 3104, l_chan = 4\<rparr>"

definition toy_view_att :: attachment where
  "toy_view_att = attach_cut None 0 (ts_heap (snd (pool_of ''local:u'' toy_terms)) ! 0)"

lemma toy_view:
  obtains r ts where "handle toy_env (toy_draw 50 ''x'') (toy_jar []) toy_headers (Public (Access_ws toy_link None None))
      (toy_shared\<lparr>ap_terms := toy_terms\<rparr>) = (Reply r, toy_shared\<lparr>ap_terms := ts\<rparr>)"
    "rs_body r = View_upgrade toy_view_att toy_view_lease"
proof -
  let ?app = "toy_shared\<lparr>ap_terms := toy_terms\<rparr>"
  have "share_verify toy_crypto [7] toy_link = Some (''dc'', ''local:u'', 0, 3104)"
    unfolding toy_link_def by (rule share_token_roundtrip_aux [OF toy_crypto_laws]) simp_all
  then have l: "share_lease (ev_crypto toy_env) (ev_share_key toy_env) (dr_permit (toy_draw 50 ''x'')) (dr_unix (toy_draw 50 ''x''))
      toy_link (ap_shares ?app) = Inr toy_view_lease"
    by (simp add: toy_env_def toy_draw_def share_lease_def toy_shared_def toy_grant_def hm_get_def grant_matches_def toy_view_lease_def)
  obtain ts where ts: "attach_view ''local:u'' 0 None toy_terms = (Inr toy_view_att, ts)"
    using toy_terms by (simp add: attach_view_def Let_def toy_view_att_def)
  have o: "origin_allowed (ev_cfg toy_env) toy_headers" using toy_origin by (simp add: toy_env_def)
  have s: "sharing_enabled (ev_cfg toy_env)" by (simp add: toy_env_def toy_cfg_def)
  let ?r = "\<lparr>rs_status = 101, rs_headers = [], rs_body = View_upgrade toy_view_att toy_view_lease, rs_cookies = []\<rparr>"
  have "access_ws toy_env (toy_draw 50 ''x'') toy_headers toy_link None None ?app = (?r, ?app\<lparr>ap_terms := ts\<rparr>)"
    unfolding access_ws_def l using s o ts by (simp add: toy_view_lease_def)
  then have "handle toy_env (toy_draw 50 ''x'') (toy_jar []) toy_headers (Public (Access_ws toy_link None None)) ?app =
      (Reply ?r, toy_shared\<lparr>ap_terms := ts\<rparr>)"
    by (simp add: handle_def public_handler_def reply_def)
  then show thesis by (rule that) (rule response.select_convs)
qed

theorem viewer_admission_witness:
  "slot_of toy_terms ''local:u'' 0 = Some 0 \<and> Shared ''local:u'' 0 3104 \<in> set (ap_log toy_shared)"
proof (rule toy_view)
  fix r :: response and ts
  let ?app = "toy_shared\<lparr>ap_terms := toy_terms\<rparr>"
  assume h: "handle toy_env (toy_draw 50 ''x'') (toy_jar []) toy_headers (Public (Access_ws toy_link None None)) ?app =
      (Reply r, toy_shared\<lparr>ap_terms := ts\<rparr>)" and r: "rs_body r = View_upgrade toy_view_att toy_view_lease"
  obtain sv where sv: "(process toy_env unit_emulator)\<^sup>*\<^sup>* (server_new toy_env enrol_new) sv" "sv_app sv = ?app"
    using toy_shared_reached by blast
  have "at_term toy_view_att = 0" by (simp add: toy_view_att_def attach_cut_def split_def Let_def)
  with viewer_admission [OF sv(1), unfolded sv(2), OF h r] show ?thesis by (simp add: toy_view_lease_def)
qed

end
