(* ===== verification/Requests.thy ===== *)
theory Requests
  imports Access
begin

text \<open>
  What one request does, whatever the state: which requests are refused, that a refusal changes nothing,
  when a login succeeds and what it leaves behind, and that a user's requests leave alone what belongs
  to others.
\<close>

subsection \<open>Refusals\<close>

lemma current_session_NoneD:
  assumes "current_session ev d j app = (None, app1)"
  shows "app1 = app\<lparr>ap_sessions := ap_sessions app1, ap_gone := ap_gone app1\<rparr>"
    and "hm_get (ss_map (ap_sessions app1)) k = Some s \<Longrightarrow> hm_get (ss_map (ap_sessions app)) k = Some s"
    and "current_session ev d' j app1 = (None, app1)"
proof -
  show "app1 = app\<lparr>ap_sessions := ap_sessions app1, ap_gone := ap_gone app1\<rparr>"
    using assms by (auto simp: current_session_def split_def Let_def split: option.splits)
  show "hm_get (ss_map (ap_sessions app1)) k = Some s \<Longrightarrow> hm_get (ss_map (ap_sessions app)) k = Some s"
    using assms by (auto simp: current_session_def session_get_def hm_laws split_def Let_def split: option.splits if_splits)
  show "current_session ev d' j app1 = (None, app1)"
    using assms by (auto simp: current_session_def session_get_def hm_laws split_def Let_def split: option.splits if_splits)
qed

lemma authed_NoneD:
  assumes "authed_session ev d j app = (None, app1)"
  shows "app1 = app\<lparr>ap_sessions := ap_sessions app1, ap_gone := ap_gone app1\<rparr>"
    and "hm_get (ss_map (ap_sessions app1)) k = Some s \<Longrightarrow> hm_get (ss_map (ap_sessions app)) k = Some s"
proof -
  obtain cur app2 where c: "current_session ev d j app = (cur, app2)" by (cases "current_session ev d j app")
  then have [simp]: "app2 = app1" using assms by (simp add: authed_session_def)
  show "app1 = app\<lparr>ap_sessions := ap_sessions app1, ap_gone := ap_gone app1\<rparr>"
    using c current_session_NoneD(1) [of ev d j app app1] current_session_SomeD [of ev d j app _ _ app1]
    by (cases cur) auto
  show "hm_get (ss_map (ap_sessions app1)) k = Some s \<Longrightarrow> hm_get (ss_map (ap_sessions app)) k = Some s"
    using c current_session_NoneD(2) [of ev d j app app1] current_session_SomeD [of ev d j app _ _ app1]
    by (cases cur) auto
qed

text \<open>without a session that completed its login, no private route does anything: the answer is the way to the
  login page or 401, no cookie is set, and the state stays as it was except that expired sessions may go.\<close>

theorem private_refused:
  assumes "authed_session ev d j app = (None, app1)"
  shows "require_auth ev d j hs req app \<in> {(redirect ''/webshell/login'', app1), (status_text 401 ''not authenticated'', app1)} \<and>
    app1 = app\<lparr>ap_sessions := ap_sessions app1, ap_gone := ap_gone app1\<rparr> \<and>
    {k. hm_get (ss_map (ap_sessions app1)) k \<noteq> None} \<subseteq> {k. hm_get (ss_map (ap_sessions app)) k \<noteq> None}"
  using authed_NoneD [OF assms] by (auto simp: require_auth_def assms Let_def)

lemma toy_pending: "authed_session toy_env (toy_draw 2 ''c'') (toy_jar [''a'']) (toy_app [(''a'', toy_session False [] ''a'' 1)] [] [] [])
   = (None, toy_app [(''a'', toy_session False [] ''a'' 1)] [] [] [])"
  by (simp add: authed_session_def toy_app_def toy_session_def toy_defs toy_session_ops)

theorem private_refused_witness:
  "rs_status (fst (require_auth toy_env (toy_draw 2 ''c'') (toy_jar [''a'']) [] (Reset ''ca'' 0)
     (toy_app [(''a'', toy_session False [] ''a'' 1)] [] [] []))) \<in> {303, 401}"
  using private_refused [OF toy_pending, of "[]" "Reset ''ca'' 0"] by auto

text \<open>The form token a request carries.\<close>

definition private_token :: "private_request \<Rightarrow> string option" where
  "private_token req =
    (case req of
      Websocket csrf \<Rightarrow> Some csrf
    | Logout csrf _ \<Rightarrow> Some csrf
    | Reset csrf _ \<Rightarrow> Some csrf
    | Share_slot csrf _ _ _ \<Rightarrow> Some csrf
    | Revoke_share csrf _ \<Rightarrow> Some csrf
    | Prefs csrf _ _ \<Rightarrow> Some csrf
    | Revoke_device csrf _ _ \<Rightarrow> Some csrf
    | _ \<Rightarrow> None)"

definition request_token :: "request \<Rightarrow> string option" where
  "request_token req =
    (case req of
      Local_login form \<Rightarrow> Some (lf_csrf form)
    | Oauth_start csrf \<Rightarrow> Some csrf
    | Mfa_submit form \<Rightarrow> Some (mf_csrf form)
    | Mfa_cancel csrf \<Rightarrow> Some csrf
    | Private q \<Rightarrow> private_token q
    | _ \<Rightarrow> None)"

lemma private_token_refused:
  assumes "current_session ev d j app = (Some (sid, s), app1)" "private_token req = Some c" "c \<noteq> s_csrf s"
  shows "\<exists>r. require_auth ev d j hs req app = (r, app) \<and> plain (rs_body r) \<and> rs_status r \<in> {303, 401, 403}"
proof -
  have app1: "app1 = app" using current_session_SomeD [OF assms(1)] by simp
  have a: "authed_session ev d j app = (if s_authenticated s then Some s else None, app)"
    using assms(1) by (simp add: authed_session_def app1)
  show ?thesis
    using assms by (cases req) (auto simp: require_auth_def private_handler_def private_token_def a Let_def ws_handler_def logout_def
        reset_terminal_def create_share_def revoke_share_def set_prefs_def revoke_device_def with_auth_def with_csrf_def
        csrf_matches_def app1)
qed

text \<open>C15: a request made with a session but without that session's form token changes nothing and starts nothing:
  every route that reads a token answers such a request at once, with a refusal or a redirect, and the state
  is the one before; this covers the login forms, the second factor and every changing private route.\<close>

theorem csrf_refused:
  assumes "current_session ev d j app = (Some (sid, s), app1)" "request_token req = Some c" "c \<noteq> s_csrf s"
  shows "\<exists>r. handle ev d j hs req app = (Reply r, app) \<and> plain (rs_body r) \<and> rs_status r \<in> {303, 401, 403}"
proof (cases req)
  case (Private q)
  then show ?thesis
    using private_token_refused [OF assms(1) _ assms(3), of q hs] assms(2)
    by (auto simp: handle_def reply_def request_token_def)
qed (use assms current_session_SomeD [OF assms(1)] in
  \<open>auto simp: handle_def reply_def request_token_def local_login_def oauth_start_def mfa_submit_def mfa_cancel_def
    pending_session_def csrf_matches_def Let_def\<close>)

theorem csrf_refused_witness:
  "\<exists>r. handle toy_env (toy_draw 4 ''c'') (toy_jar [''b'']) [] (Private (Reset ''forged'' 0)) toy_in = (Reply r, toy_in) \<and>
     plain (rs_body r) \<and> rs_status r \<in> {303, 401, 403}"
proof -
  have "current_session toy_env (toy_draw 4 ''c'') (toy_jar [''b'']) toy_in = (Some (''b'', toy_session True ''local:u'' ''b'' 3), toy_in)"
    by (simp add: toy_in_def toy_app_def toy_session_def toy_defs toy_session_ops)
  moreover have "request_token (Private (Reset ''forged'' 0)) = Some ''forged''"
    by (simp add: request_token_def private_token_def)
  moreover have "''forged'' \<noteq> s_csrf (toy_session True ''local:u'' ''b'' 3)"
    by (simp add: toy_session_def session_fresh_def)
  ultimately show ?thesis by (rule csrf_refused)
qed

subsection \<open>An expired login page\<close>

text \<open>a login form that comes back after its session is gone cannot be sent again: the page it is answered with
  carries no cookie and an empty form token, and the server keeps no session for the browser's cookie, so
  however often \<open>Try again\<close> is followed the answer stays the same. (\<open>login_page\<close> would have made a new session.)\<close>

theorem login_retry_refused:
  assumes "current_session ev d j app = (None, app1)"
  shows "\<exists>r. local_login ev d j hs form app = (Reply r, app1) \<and> rs_cookies r = [] \<and>
    rs_body r = Html_body (render_login (ev_assets ev) (ev_cfg ev) [] (dr_nonce d)
      (error_paragraph (html_escape ''Your login page expired. Try again.''))) \<and>
    current_session ev d' j app1 = (None, app1)"
  using assms current_session_NoneD(3) [OF assms]
  by (auto simp: local_login_def login_error_def reply_def)

theorem login_retry_refused_witness:
  "\<exists>r. local_login toy_env (toy_draw 9 ''c'') (toy_jar [''gone'']) [] toy_form toy_in = (Reply r, toy_in) \<and> rs_cookies r = []"
proof -
  have "current_session toy_env (toy_draw 9 ''c'') (toy_jar [''gone'']) toy_in = (None, toy_in)"
    by (simp add: toy_in_def toy_app_def toy_defs toy_session_ops)
  from login_retry_refused [OF this, where form = toy_form and hs = "[]"] show ?thesis by auto
qed

subsection \<open>Passwords\<close>



subsection \<open>Logins that succeed\<close>

lemma login_session_in:
  assumes "login_session ev d old user r app = (n, app1)"
  shows "n = dr_id d" and "Full_in (ev_sk ev (dr_id d)) user r \<in> set (ap_log app1)"
    and "hm_get (ss_map (ap_sessions app1)) (ev_sk ev (dr_id d)) =
      Some (session_fresh True False user (dr_csrf d) (dr_now d) (dr_unix d) (dr_chan d))"
    and "ev_sk ev old \<noteq> ev_sk ev (dr_id d) \<Longrightarrow> hm_get (ss_map (ap_sessions app1)) (ev_sk ev old) = None"
    and "ss_ttl (ap_sessions app1) = ss_ttl (ap_sessions app)"
  using assms by (auto simp: login_session_def session_login_def session_promote_def persist_locked_def hm_laws Let_def split_def)

lemma jar_get_add [simp]: "jar_get n (jar_add c j) = (if n = ck_name c then Some (ck_value c) else jar_get n j)"
  by (simp add: jar_get_def jar_add_def hm_laws)

lemma session_cookie_fields [simp]: "ck_name (session_cookie cfg n) = cookie_name" "ck_value (session_cookie cfg n) = n"
  by (simp_all add: session_cookie_def)

text \<open>A browser that was let in: its cookie is that of a session which is authenticated for this user as long as it
  lives, and the session the login began with is gone.\<close>

definition welcomed :: "env \<Rightarrow> draw \<Rightarrow> string \<Rightarrow> string \<Rightarrow> response \<Rightarrow> 's app \<Rightarrow> bool" where
  "welcomed ev d old user r app \<longleftrightarrow>
    rs_status r = 303 \<and> rs_body r = Redirect_to ''/webshell/private/'' \<and>
    Add_cookie (session_cookie (ev_cfg ev) (dr_id d)) \<in> set (rs_cookies r) \<and>
    hm_get (ss_map (ap_sessions app)) (ev_sk ev old) = None \<and>
    (\<forall>d' j. jar_get cookie_name j = Some (dr_id d) \<longrightarrow> dr_now d' - dr_now d < ss_ttl (ap_sessions app) \<longrightarrow>
      (\<exists>s. authed_session ev d' j app = (Some s, app) \<and> s_username s = user))"

lemma welcomed_login:
  assumes "login_session ev d old user r app = (n, app1)" "ev_sk ev old \<noteq> ev_sk ev (dr_id d)"
    and "ap_sessions app2 = ap_sessions app1" "jr_ops j' = ops @ [Add_cookie (session_cookie (ev_cfg ev) (dr_id d))] @ ops'"
  shows "welcomed ev d old user (with_jar j' (redirect ''/webshell/private/'')) app2"
  using login_session_in [OF assms(1)] assms(2-4)
  by (auto simp: welcomed_def authed_session_def current_session_def session_get_def session_expired_def session_ttl_def
      session_fresh_def Let_def)

text \<open>A handler that waits for its turn gets it once its bucket is free, and goes on at most five seconds later.\<close>

lemma guard_enter_wake: "fst (guard_enter b now g) \<le> now + millis 5000"
  by (simp add: guard_enter_def Let_def)

lemma turn_served:
  assumes "handle ev d j hs req (sv_app sv) = (Pause (For_turn t), sv_app sv)"
    and "turn_bucket t \<notin> turn_bucket ` snd ` set (sv_holding sv)" "now + millis 5000 \<le> dr_now d2"
    and "finish_turn ev d2 t ((sv_app sv)\<lparr>ap_guard := snd (guard_enter (turn_bucket t) now (ap_guard (sv_app sv)))\<rparr>) = (r, app1)"
  shows "\<exists>sv'. (attend ev)\<^sup>*\<^sup>* sv sv' \<and> sv_app sv' = app1 \<and> sv_answers sv' = sv_answers sv @ [hsts (ev_cfg ev) r]"
proof -
  obtain wake g where g: "guard_enter (turn_bucket t) now (ap_guard (sv_app sv)) = (wake, g)" by (rule prod.exhaust)
  let ?s1 = "sv\<lparr>sv_app := sv_app sv, sv_waiting := sv_waiting sv @ [For_turn t]\<rparr>"
  let ?s2 = "?s1\<lparr>sv_app := (sv_app ?s1)\<lparr>ap_guard := g\<rparr>, sv_waiting := remove1 (For_turn t) (sv_waiting ?s1),
    sv_holding := sv_holding ?s1 @ [(wake, t)]\<rparr>"
  let ?s3 = "(answer ev r app1 ?s2)\<lparr>sv_holding := remove1 (wake, t) (sv_holding ?s2)\<rparr>"
  have "attend ev sv ?s1" by (rule v_pause [OF assms(1)])
  moreover have "attend ev ?s1 ?s2" by (rule v_turn) (use assms(2) g in simp_all)
  moreover have "attend ev ?s2 ?s3"
    by (rule v_finish) (use guard_enter_wake [of "turn_bucket t" now "ap_guard (sv_app sv)"] assms(3,4) g in simp_all)
  ultimately have "(attend ev)\<^sup>*\<^sup>* sv ?s3" by (meson converse_rtranclp_into_rtranclp rtranclp.rtrancl_refl)
  then show ?thesis by (intro exI [of _ ?s3]) (simp add: answer_def)
qed

lemma password_welcomed:
  assumes "local_password (ev_cfg ev) who = Some hash" "verify_password (ev_hashers ev) hash password = Inr True"
    and "dr_joined d" "\<not> mfa_required (ev_cfg ev)" "ev_sk ev sid \<noteq> ev_sk ev (dr_id d)"
  shows "case finish_password ev d j hs sid who password app of (r, app1) \<Rightarrow> welcomed ev d sid (identity_str who) r app1"
proof -
  let ?f = "By_password who hash password"
  obtain n app1 where l: "login_session ev d sid (identity_str who) (Without_code ?f) app = (n, app1)"
    by (cases "login_session ev d sid (identity_str who) (Without_code ?f) app")
  have "finish_password ev d j hs sid who password app =
      (with_jar (jar_add (session_cookie (ev_cfg ev) (dr_id d)) j) (redirect ''/webshell/private/''),
       on_guard (attempt_succeeded (identity_str who) (dr_now d)) app1)"
    using assms l login_session_in(1) [OF l] by (simp add: finish_password_def first_factor_def factor_identity_def Let_def)
  moreover have "welcomed ev d sid (identity_str who)
      (with_jar (jar_add (session_cookie (ev_cfg ev) (dr_id d)) j) (redirect ''/webshell/private/''))
      (on_guard (attempt_succeeded (identity_str who) (dr_now d)) app1)"
    by (rule welcomed_login [OF l assms(5), where ops' = "[]"]) (simp_all add: on_guard_def jar_add_def)
  ultimately show ?thesis by simp
qed

text \<open>C17: whoever is on the allowlist and types the right password is let in: in any state of the server, when local login
  is usable and no second factor is required, a login form sent with its page's session and token is made to wait for
  its turn with the name's throttle bucket; and once the bucket is free the attempt goes on at most five seconds
  later, whatever went wrong before, is answered with the way in, and leaves the browser logged in as that user.\<close>

theorem password_lets_in:
  assumes "current_session ev d j (sv_app sv) = (Some (sid, s), sv_app sv)" "csrf_matches (s_csrf s) (lf_csrf form)"
    and "local_usable (ev_cfg ev)" "who = identity_new Local (lf_username form)" "permits (ev_cfg ev) who"
    and "local_password (ev_cfg ev) who = Some hash" "verify_password (ev_hashers ev) hash (lf_password form) = Inr True"
    and "\<not> mfa_required (ev_cfg ev)" "identity_str who \<notin> turn_bucket ` snd ` set (sv_holding sv)"
    and "now + millis 5000 \<le> dr_now d2" "dr_joined d2" "ev_sk ev sid \<noteq> ev_sk ev (dr_id d2)"
  shows "let t = Check_password j hs sid who (lf_password form);
      app = (sv_app sv)\<lparr>ap_guard := snd (guard_enter (identity_str who) now (ap_guard (sv_app sv)))\<rparr>
    in handle ev d j hs (Local_login form) (sv_app sv) = (Pause (For_turn t), sv_app sv) \<and>
      (case finish_turn ev d2 t app of (r, app1) \<Rightarrow> welcomed ev d2 sid (identity_str who) r app1 \<and>
        (\<exists>sv'. (attend ev)\<^sup>*\<^sup>* sv sv' \<and> sv_app sv' = app1 \<and> sv_answers sv' = sv_answers sv @ [hsts (ev_cfg ev) r]))"
proof -
  let ?t = "Check_password j hs sid who (lf_password form)"
  have h: "handle ev d j hs (Local_login form) (sv_app sv) = (Pause (For_turn ?t), sv_app sv)"
    using assms(1-5) by (simp add: handle_def local_login_def Let_def)
  have b: "turn_bucket ?t = identity_str who" by (simp add: turn_bucket_def)
  show ?thesis
    using h password_welcomed [OF assms(6,7,11,8,12), where j = j and hs = hs]
      turn_served [OF h _ assms(10), where r = r and ?app1.0 = app1 for r app1] assms(9)
    by (fastforce simp: b finish_turn_def Let_def)
qed

theorem password_lets_in_witness:
  "case finish_turn toy_env (toy_draw 9 ''b'') toy_turn
     (toy_app [(''a'', toy_session False [] ''a'' 1)] [] [(''local:u'', (0, secs 2))] []) of
   (r, app1) \<Rightarrow> welcomed toy_env (toy_draw 9 ''b'') ''a'' (identity_str (identity_new Local ''u'')) r app1"
proof -
  let ?sv = "\<lparr>sv_app = toy_app [(''a'', toy_session False [] ''a'' 1)] [] [] [], sv_waiting = [], sv_holding = [], sv_answers = []\<rparr>"
  have c: "current_session toy_env (toy_draw 2 ''b'') (toy_jar [''a'']) (sv_app ?sv) =
      (Some (''a'', toy_session False [] ''a'' 1), sv_app ?sv)"
    by (simp add: toy_app_def toy_session_def toy_defs toy_session_ops)
  have f: "csrf_matches (s_csrf (toy_session False [] ''a'' 1)) (lf_csrf toy_form)"
    by (simp add: csrf_matches_def toy_session_def session_fresh_def toy_form_def)
  have l: "local_usable (ev_cfg toy_env)" "identity_new Local ''u'' = identity_new Local (lf_username toy_form)"
    "permits (ev_cfg toy_env) (identity_new Local ''u'')"
    by (simp_all add: local_usable_def permits_def toy_form_def toy_defs identity_new_def toy_strings)
  have p: "local_password (ev_cfg toy_env) (identity_new Local ''u'') = Some ''pw''"
    by (simp add: local_password_def toy_defs toy_strings identity_str_def identity_new_def)
  have v: "verify_password (ev_hashers toy_env) ''pw'' (lf_password toy_form) = Inr True"
    by (simp add: verify_password_def toy_strings toy_form_def)
  have m: "\<not> mfa_required (ev_cfg toy_env)" "identity_str (identity_new Local ''u'') \<notin> turn_bucket ` snd ` set (sv_holding ?sv)"
    "secs 2 + millis 5000 \<le> dr_now (toy_draw 9 ''b'')" "dr_joined (toy_draw 9 ''b'')" "ev_sk toy_env ''a'' \<noteq> ev_sk toy_env (dr_id (toy_draw 9 ''b''))"
    by (simp_all add: toy_defs)
  note w = password_lets_in [OF c f l p v m, where hs = "[]"]
  have t: "Check_password (toy_jar [''a'']) [] ''a'' (identity_new Local ''u'') (lf_password toy_form) = toy_turn"
    by (simp add: toy_turn_def toy_form_def)
  have "(sv_app ?sv)\<lparr>ap_guard := snd (guard_enter (identity_str (identity_new Local ''u'')) (secs 2) (ap_guard (sv_app ?sv)))\<rparr> =
      toy_app [(''a'', toy_session False [] ''a'' 1)] [] [(''local:u'', (0, secs 2))] []"
    using toy_enter by (simp add: identity_str_def identity_new_def toy_strings toy_app_def)
  then show ?thesis using w unfolding t Let_def by (auto split: prod.splits)
qed

subsection \<open>One-time codes\<close>

text \<open>The seed a code is checked against: the enrolled one, or else the one of the enrolment form.\<close>

definition user_record :: "identity \<Rightarrow> 's app \<Rightarrow> enrol_record" where
  "user_record who app = (case enrol_get who (ap_enrol app) of Some r \<Rightarrow> r | None \<Rightarrow> record_default)"

definition code_secret :: "identity \<Rightarrow> mfa_form \<Rightarrow> 's app \<Rightarrow> string" where
  "code_secret who form app =
    (case r_mfa_secret (user_record who app) of Some x \<Rightarrow> x | None \<Rightarrow> (case mf_seed form of Some x \<Rightarrow> x | None \<Rightarrow> []))"

definition code_passes :: "env \<Rightarrow> draw \<Rightarrow> session \<Rightarrow> identity \<Rightarrow> mfa_form \<Rightarrow> 's app \<Rightarrow> bool" where
  "code_passes ev d s who form app \<longleftrightarrow>
    mfa_locked (s_username s) (dr_now d) (ap_guard app) = None \<and>
    code_ok ev (code_secret who form app) (mf_otp form) (dr_unix d) \<and>
    fst (accept_at (mf_otp form) (dr_unix d) (replay_guard (s_username s) app)) \<and>
    (enrolled (user_record who app) \<or>
      (case fst (enroll who (code_secret who form app) (dr_unix d) (dr_disk d 5) (ap_enrol app)) of Inl _ \<Rightarrow> False | Inr _ \<Rightarrow> True))"

lemma let_in_spec:
  fixes s :: session
  assumes "let_in ev d j hs sid s who form enrolling secret app = (r, app1)"
  obtains n app2 ops where
    "login_session ev d sid (s_username s) (With_code (ev_sk ev sid) secret (mf_otp form) (dr_unix d))
      (on_guard (\<lambda>g. mfa_succeeded (s_username s) (attempt_succeeded (''mfa:'' @ identity_str who) (dr_now d) g)) app) = (n, app2)"
    "ap_sessions app1 = ap_sessions app2" "set (ap_log app2) \<subseteq> set (ap_log app1)"
    "\<exists>j'. r = with_jar j' (redirect ''/webshell/private/'') \<and>
      jr_ops j' = jr_ops j @ [Add_cookie (session_cookie (ev_cfg ev) (dr_id d))] @ ops"
proof -
  let ?app = "on_guard (\<lambda>g. mfa_succeeded (s_username s) (attempt_succeeded (''mfa:'' @ identity_str who) (dr_now d) g)) app"
  obtain n app2 where l: "login_session ev d sid (s_username s) (With_code (ev_sk ev sid) secret (mf_otp form) (dr_unix d)) ?app = (n, app2)"
    by (cases "login_session ev d sid (s_username s) (With_code (ev_sk ev sid) secret (mf_otp form) (dr_unix d)) ?app")
  show thesis
    using that [OF l] assms login_session_in(1) [OF l]
    unfolding let_in_def Let_def l prod.case
    by (fastforce simp: split_def jar_add_def split: if_splits option.splits)
qed

text \<open>Nobody was let in and no browser became trusted.\<close>

definition in_sessions :: "'s app \<Rightarrow> (string \<times> session) set" where
  "in_sessions app = {(k, s). hm_get (ss_map (ap_sessions app)) k = Some s \<and> s_authenticated s}"

definition shut :: "'s app \<Rightarrow> 's app \<Rightarrow> bool" where
  "shut app app' \<longleftrightarrow> ap_log app' = ap_log app \<and> ap_devices app' = ap_devices app \<and> in_sessions app' \<subseteq> in_sessions app"

lemma shut_refl [simp]: "shut app app"
  by (simp add: shut_def)

lemma shut_trans: "shut a b \<Longrightarrow> shut b c \<Longrightarrow> shut a c"
  by (auto simp: shut_def)

lemma shut_other: "shut app (on_guard f app)" "shut app (app\<lparr>ap_guard := g\<rparr>)" "shut app (app\<lparr>ap_enrol := es\<rparr>)" "shut app (app\<lparr>ap_otp := os\<rparr>)"
  by (simp_all add: shut_def on_guard_def in_sessions_def)

lemma shut_login_error: "shut app (snd (login_error ev d j hs m app))"
  by (auto simp: shut_def in_sessions_def login_error_def current_session_def session_get_def hm_laws split_def Let_def split: option.splits if_splits)

lemma persist_map [simp]: "ss_map (persist_locked now ok ss) = ss_map ss"
  by (simp add: persist_locked_def)

lemma shut_locked_out: "shut app (snd (mfa_locked_out ev d j hs sid left app))"
proof -
  have "shut app (remove_session ev d sid app)"
    by (auto simp: shut_def in_sessions_def remove_session_def session_remove_def hm_laws split_def Let_def split: option.splits if_splits)
  moreover have "shut a (snd (create_session ev d a))" for a :: "'a app"
    by (auto simp: shut_def in_sessions_def create_session_def session_create_def session_fresh_def hm_laws split_def Let_def
        split: option.splits if_splits)
  ultimately show ?thesis
    by (auto simp: mfa_locked_out_def split_def Let_def intro: shut_trans shut_login_error)
qed

lemma body_locked_out: "rs_body (fst (mfa_locked_out ev d j hs sid left app)) \<noteq> Redirect_to u"
  by (simp add: mfa_locked_out_def login_error_def split_def Let_def)

lemma body_render_mfa: "rs_body (render_mfa ev d s hs e app) \<noteq> Redirect_to u"
  by (auto simp: render_mfa_def Let_def split: sum.splits option.splits)

lemma code_secret_alt:
  "(case enrol_get who (ap_enrol app) of Some r \<Rightarrow> r | None \<Rightarrow> record_default) = user_record who app"
  "(case r_mfa_secret (user_record who app) of Some x \<Rightarrow> x | None \<Rightarrow> (case mf_seed form of Some x \<Rightarrow> x | None \<Rightarrow> [])) =
    code_secret who form app"
  by (simp_all add: user_record_def code_secret_def)

lemma code_ok_alt: "(valid_seed secret \<and> totp_verify (ev_hmac ev) secret otp t) = code_ok ev secret otp t"
  by (simp add: code_ok_def)

lemma accept_code_alt:
  "accept_code d user otp app =
    (fst (accept_at otp (dr_unix d) (replay_guard user app)),
     app\<lparr>ap_otp := hm_insert user (snd (accept_at otp (dr_unix d) (replay_guard user app))) (ap_otp app)\<rparr>)"
  by (simp add: accept_code_def split_def Let_def)

lemmas finish_code_alt = finish_code_def [unfolded code_secret_alt code_ok_alt accept_code_alt Let_def]

text \<open>The three outcomes: the way in, and the two ways to stay out.\<close>

lemma let_in_opens:
  fixes s :: session
  shows "rs_body (fst (let_in ev d j hs sid s who form e secret a)) = Redirect_to ''/webshell/private/'' \<and>
    Full_in (ev_sk ev (dr_id d)) (s_username s) (With_code (ev_sk ev sid) secret (mf_otp form) (dr_unix d))
      \<in> set (ap_log (snd (let_in ev d j hs sid s who form e secret a)))"
proof -
  obtain r a1 where L: "let_in ev d j hs sid s who form e secret a = (r, a1)" by (cases "let_in ev d j hs sid s who form e secret a")
  then show ?thesis
  proof (rule let_in_spec)
    fix n app2 ops
    assume l: "login_session ev d sid (s_username s) (With_code (ev_sk ev sid) secret (mf_otp form) (dr_unix d))
        (on_guard (\<lambda>g. mfa_succeeded (s_username s) (attempt_succeeded (''mfa:'' @ identity_str who) (dr_now d) g)) a) = (n, app2)"
      and sub: "set (ap_log app2) \<subseteq> set (ap_log a1)"
      and r: "\<exists>j'. r = with_jar j' (redirect ''/webshell/private/'') \<and>
        jr_ops j' = jr_ops j @ [Add_cookie (session_cookie (ev_cfg ev) (dr_id d))] @ ops"
    have "rs_body r = Redirect_to ''/webshell/private/''" using r by auto
    then show ?thesis using login_session_in(2) [OF l] sub unfolding L fst_conv snd_conv by blast
  qed
qed

definition stays_out :: "'s app \<Rightarrow> response \<times> 's app \<Rightarrow> bool" where
  "stays_out app ra \<longleftrightarrow> rs_body (fst ra) \<noteq> Redirect_to ''/webshell/private/'' \<and> shut app (snd ra)"

lemma locked_stays_out: "shut app a \<Longrightarrow> stays_out app (mfa_locked_out ev d j hs sid left a)"
  by (simp add: stays_out_def body_locked_out shut_trans [OF _ shut_locked_out])

lemma wrong_code_stays_out:
  assumes "mfa_locked (s_username s) (dr_now d) (ap_guard app) = None" "\<not> code_ok ev (code_secret who form app) (mf_otp form) (dr_unix d)"
  shows "stays_out app (finish_code ev d j hs sid s who form app)"
proof -
  have "shut app ((on_guard f app)\<lparr>ap_guard := g\<rparr>)" for f g by (rule shut_trans [OF shut_other(1,2)])
  then show ?thesis
    using assms locked_stays_out
    by (simp add: finish_code_alt split_def stays_out_def body_render_mfa body_locked_out shut_trans [OF _ shut_locked_out]
        split: option.split)
qed

lemma used_code_stays_out:
  assumes "mfa_locked (s_username s) (dr_now d) (ap_guard app) = None" "code_ok ev (code_secret who form app) (mf_otp form) (dr_unix d)"
    and "\<not> code_passes ev d s who form app"
  shows "stays_out app (finish_code ev d j hs sid s who form app)"
proof -
  let ?app = "app\<lparr>ap_otp := hm_insert (s_username s) (snd (accept_at (mf_otp form) (dr_unix d) (replay_guard (s_username s) app))) (ap_otp app)\<rparr>"
  have "shut app (on_guard f ?app)" "shut app (?app\<lparr>ap_enrol := es\<rparr>)" for f es by (rule shut_trans [OF shut_other(4,1)] shut_trans [OF shut_other(4,3)])+
  then show ?thesis
    using assms by (auto simp: finish_code_alt code_passes_def stays_out_def body_render_mfa split: sum.splits prod.splits)
qed

text \<open>C16: the second factor lets in exactly when its five checks pass: the account is not locked, the seed (the enrolled
  one, else the form's) is a valid one, the code is that seed's for this moment or a neighbouring one, it is not among
  the codes the replay guard still remembers (the last three accepted within ninety seconds), and a first enrolment
  could be saved. Then the login is logged with that evidence; otherwise nobody is let in and no browser becomes
  trusted.\<close>

theorem code_gate:
  "case finish_code ev d j hs sid s who form app of (r, app1) \<Rightarrow>
    if code_passes ev d s who form app
    then rs_body r = Redirect_to ''/webshell/private/'' \<and>
      Full_in (ev_sk ev (dr_id d)) (s_username s) (With_code (ev_sk ev sid) (code_secret who form app) (mf_otp form) (dr_unix d))
        \<in> set (ap_log app1)
    else rs_body r \<noteq> Redirect_to ''/webshell/private/'' \<and> shut app app1"
proof (cases "code_passes ev d s who form app")
  case True
  then show ?thesis
    using let_in_opens [of ev d j hs sid s who form _ "code_secret who form app"]
    by (auto simp: code_passes_def finish_code_alt split_def split: sum.splits prod.splits)
next
  case False
  have "stays_out app (finish_code ev d j hs sid s who form app)"
  proof (cases "mfa_locked (s_username s) (dr_now d) (ap_guard app)")
    case (Some left)
    then show ?thesis using locked_stays_out [of app app] by (simp add: finish_code_def)
  qed (use False wrong_code_stays_out used_code_stays_out in blast)
  then show ?thesis using False by (simp add: stays_out_def split_def)
qed

lemma code_welcomed:
  assumes "code_passes ev d s who form app" "ev_sk ev sid \<noteq> ev_sk ev (dr_id d)"
  shows "case finish_code ev d j hs sid s who form app of (r, app1) \<Rightarrow> welcomed ev d sid (s_username s) r app1"
proof -
  let ?secret = "code_secret who form app"
  have inn: "welcomed ev d sid (s_username s) (fst (let_in ev d j hs sid s who form e ?secret a))
      (snd (let_in ev d j hs sid s who form e ?secret a))" for e and a :: "'a app"
  proof -
    obtain r app1 where L: "let_in ev d j hs sid s who form e ?secret a = (r, app1)"
      by (cases "let_in ev d j hs sid s who form e ?secret a")
    then have "welcomed ev d sid (s_username s) r app1"
    proof (rule let_in_spec)
      fix n app2 ops
      assume l: "login_session ev d sid (s_username s) (With_code (ev_sk ev sid) ?secret (mf_otp form) (dr_unix d))
          (on_guard (\<lambda>g. mfa_succeeded (s_username s) (attempt_succeeded (''mfa:'' @ identity_str who) (dr_now d) g)) a) = (n, app2)"
        and ss: "ap_sessions app1 = ap_sessions app2"
        and "\<exists>j'. r = with_jar j' (redirect ''/webshell/private/'') \<and>
          jr_ops j' = jr_ops j @ [Add_cookie (session_cookie (ev_cfg ev) (dr_id d))] @ ops"
      then obtain j' where "r = with_jar j' (redirect ''/webshell/private/'')"
        "jr_ops j' = jr_ops j @ [Add_cookie (session_cookie (ev_cfg ev) (dr_id d))] @ ops" by blast
      then show ?thesis using welcomed_login [OF l assms(2) ss] by simp
    qed
    then show ?thesis by (simp add: L)
  qed
  show ?thesis
    using assms(1) inn by (auto simp: code_passes_def finish_code_alt split_def split: sum.splits)
qed

lemma code_passes_guard:
  "lg_mfa g = lg_mfa (ap_guard app) \<Longrightarrow> code_passes ev d s who form (app\<lparr>ap_guard := g\<rparr>) = code_passes ev d s who form app"
  by (simp add: code_passes_def mfa_locked_def code_secret_def user_record_def replay_guard_def)

lemma enter_mfa: "lg_mfa (snd (guard_enter b now g)) = lg_mfa g"
  by (simp add: guard_enter_def Let_def)

text \<open>C18: whoever has passed the first factor and gives the right code is let in: in any state of the server, a code sent
  with the half-finished session and its token is made to wait for its turn with the identity's bucket; and once
  the bucket is free, if by then the account is not locked, the code is right for the seed (the enrolled one or, at a
  first enrolment that can be saved, the valid one of the form) and it is not one of the codes the replay guard
  remembers, it is answered at most five seconds later with the way in, and the browser is logged in as that user.\<close>

theorem code_lets_in:
  assumes "current_session ev d j (sv_app sv) = (Some (sid, s), sv_app sv)" "s_mfa_pending s"
    and "csrf_matches (s_csrf s) (mf_csrf form)" "identity_parse (s_username s) = Inr who"
    and "''mfa:'' @ identity_str who \<notin> turn_bucket ` snd ` set (sv_holding sv)"
    and "now + millis 5000 \<le> dr_now d2" "code_passes ev d2 s who form (sv_app sv)" "ev_sk ev sid \<noteq> ev_sk ev (dr_id d2)"
  shows "let t = Check_code j hs sid s who form;
      app = (sv_app sv)\<lparr>ap_guard := snd (guard_enter (''mfa:'' @ identity_str who) now (ap_guard (sv_app sv)))\<rparr>
    in handle ev d j hs (Mfa_submit form) (sv_app sv) = (Pause (For_turn t), sv_app sv) \<and>
      (case finish_turn ev d2 t app of (r, app1) \<Rightarrow> welcomed ev d2 sid (s_username s) r app1 \<and>
        (\<exists>sv'. (attend ev)\<^sup>*\<^sup>* sv sv' \<and> sv_app sv' = app1 \<and> sv_answers sv' = sv_answers sv @ [hsts (ev_cfg ev) r]))"
proof -
  let ?t = "Check_code j hs sid s who form"
  have h: "handle ev d j hs (Mfa_submit form) (sv_app sv) = (Pause (For_turn ?t), sv_app sv)"
    using assms(1-4) by (simp add: handle_def mfa_submit_def pending_session_def Let_def)
  have b: "turn_bucket ?t = ''mfa:'' @ identity_str who" by (simp add: turn_bucket_def)
  let ?app = "(sv_app sv)\<lparr>ap_guard := snd (guard_enter (''mfa:'' @ identity_str who) now (ap_guard (sv_app sv)))\<rparr>"
  have "code_passes ev d2 s who form ?app" using assms(7) by (simp add: code_passes_guard enter_mfa)
  from code_welcomed [OF this assms(8), where j = j and hs = hs] show ?thesis
    using h turn_served [OF h _ assms(6), where r = r and ?app1.0 = app1 for r app1] assms(5)
    by (fastforce simp: b finish_turn_def Let_def)
qed

definition toy_coder :: session where
  "toy_coder = session_fresh False True ''local:u'' ''cm'' 0 3000 1"

definition toy_enrolled :: "unit app" where
  "toy_enrolled = (toy_app [(''m'', toy_coder)] [] [] [])\<lparr>ap_enrol := snd (enroll (identity_new Local ''u'') toy_seed 1 True enrol_new)\<rparr>"

definition toy_code_form :: mfa_form where
  "toy_code_form = \<lparr>mf_csrf = ''cm'', mf_otp = ''000100'', mf_seed = None, mf_remember = None\<rparr>"

lemma toy_record: "user_record (identity_new Local ''u'') toy_enrolled = \<lparr>r_sub = None, r_mfa_secret = Some toy_seed, r_enrolled_at = Some 1\<rparr>"
  by (simp add: user_record_def toy_enrolled_def enrol_get_def enrol_ops enrol_new_def hm_laws record_default_def)

lemma toy_code_passes: "code_passes toy_env (toy_draw 6 ''n'') toy_coder (identity_new Local ''u'') toy_code_form toy_enrolled"
proof -
  have secret: "code_secret (identity_new Local ''u'') toy_code_form toy_enrolled = toy_seed"
    by (simp add: code_secret_def toy_record)
  have t: "trim ''000100'' = ''000100''" by (simp add: trim_def trim_start_def trim_end_def is_whitespace_def code_def)
  have "totp_verify toy_hmac toy_seed ''000100'' 3006" by (simp add: totp_verify_iff t toy_codes sat_add64_def)
  moreover have "valid_seed toy_seed" by (simp add: valid_seed_def toy_seed_def decode_encode_base32)
  ultimately have "code_ok toy_env toy_seed ''000100'' 3006" by (simp add: code_ok_def toy_env_def)
  moreover have "fst (accept_at ''000100'' 3006 [])" by (simp add: accept_at_def)
  ultimately show ?thesis
    unfolding code_passes_def secret
    by (simp add: toy_record enrolled_def replay_guard_def mfa_locked_def)
      (simp add: toy_enrolled_def toy_app_def toy_code_form_def toy_draw_def hm_get_def)
qed

theorem code_lets_in_witness:
  "\<exists>r app1 sv'. (attend toy_env)\<^sup>*\<^sup>* \<lparr>sv_app = toy_enrolled, sv_waiting = [], sv_holding = [], sv_answers = []\<rparr> sv' \<and>
     sv_app sv' = app1 \<and> sv_answers sv' = [r] \<and> welcomed toy_env (toy_draw 6 ''n'') ''m'' (s_username toy_coder) r app1"
proof -
  let ?sv = "\<lparr>sv_app = toy_enrolled, sv_waiting = [], sv_holding = [], sv_answers = []\<rparr>"
  have c: "current_session toy_env (toy_draw 0 ''n'') (toy_jar [''m'']) (sv_app ?sv) = (Some (''m'', toy_coder), sv_app ?sv)"
    by (simp add: toy_enrolled_def toy_app_def toy_coder_def toy_defs toy_session_ops)
  have f: "s_mfa_pending toy_coder" "csrf_matches (s_csrf toy_coder) (mf_csrf toy_code_form)"
    by (simp_all add: toy_coder_def session_fresh_def csrf_matches_def toy_code_form_def)
  have low: "to_lowercase ''local'' = ''local''" "trim ''local'' = ''local''"
    by (simp_all add: trim_def trim_start_def trim_end_def is_whitespace_def to_lowercase_def char_lower_def has_lower_def
        char_class_defs code_def)
  have i: "identity_parse (s_username toy_coder) = Inr (identity_new Local ''u'')"
    using low by (simp add: toy_coder_def session_fresh_def identity_parse_def toy_strings provider_parse_def split_once_def)
  have m: "''mfa:'' @ identity_str (identity_new Local ''u'') \<notin> turn_bucket ` snd ` set (sv_holding ?sv)"
    "0 + millis 5000 \<le> dr_now (toy_draw 6 ''n'')" by (simp_all add: toy_defs)
  have k: "ev_sk toy_env ''m'' \<noteq> ev_sk toy_env (dr_id (toy_draw 6 ''n''))" by (simp add: toy_defs)
  from code_lets_in [OF c f i m _ k, where hs = "[]"] toy_code_passes show ?thesis
    by (auto simp: Let_def hsts_def toy_defs split: prod.splits)
qed

subsection \<open>Whose state a request reaches\<close>

text \<open>Everything that is not the user's own: the preferences and slots of others with the terminals in them, the links
  of others that have not expired, the trusted browsers of other identities save the one whose token the
  request itself carries, other sessions, and the evidence of enrolments, throttle and used codes.\<close>

definition leaves_alone :: "env \<Rightarrow> draw \<Rightarrow> jar \<Rightarrow> string \<Rightarrow> string \<Rightarrow> 's app \<Rightarrow> 's app \<Rightarrow> bool" where
  "leaves_alone ev d j sid u app app' \<longleftrightarrow>
    ap_enrol app' = ap_enrol app \<and> ap_guard app' = ap_guard app \<and> ap_otp app' = ap_otp app \<and>
    (\<forall>v. v \<noteq> u \<longrightarrow> hm_get (ap_prefs app') v = hm_get (ap_prefs app) v) \<and>
    (\<forall>v i. v \<noteq> u \<longrightarrow> slot_of (ap_terms app') v i = slot_of (ap_terms app) v i \<and>
      (case slot_of (ap_terms app) v i of None \<Rightarrow> True | Some a \<Rightarrow> ts_heap (ap_terms app') ! a = ts_heap (ap_terms app) ! a)) \<and>
    (\<forall>k g. hm_get (ap_shares app) k = Some g \<longrightarrow> g_username g \<noteq> u \<longrightarrow> dr_unix d < g_expires_at g \<longrightarrow>
      hm_get (ap_shares app') k = Some g) \<and>
    (\<forall>k x. hm_get (ds_map (ap_devices app)) k = Some x \<longrightarrow> identity_parse u \<noteq> Inr (d_identity x) \<longrightarrow>
      map_option (ev_th ev) (device_token j) \<noteq> Some k \<longrightarrow> hm_get (ds_map (ap_devices app')) k = Some x) \<and>
    (\<forall>k. k \<noteq> ev_sk ev sid \<longrightarrow> hm_get (ss_map (ap_sessions app')) k = hm_get (ss_map (ap_sessions app)) k)"

lemma alone_refl [simp]: "leaves_alone ev d j sid u app app"
  by (simp add: leaves_alone_def split: option.split)

lemma reset_others:
  assumes "pools_ok ts" "v \<noteq> u"
  shows "slot_of (terminal_reset u i ts) v k = slot_of ts v k \<and>
    (case slot_of ts v k of None \<Rightarrow> True | Some a \<Rightarrow> ts_heap (terminal_reset u i ts) ! a = ts_heap ts ! a)"
proof (cases "ts_slots ts \<le> i")
  case True
  then show ?thesis by (simp add: reset_eq [OF assms(1)] split: option.split)
next
  case False
  then have i: "i < ts_slots ts" by simp
  have "ts_heap (vacated u i ts) ! a = ts_heap ts ! a" if "slot_of ts v k = Some a" for a
  proof -
    have "slot_of ts u i \<noteq> Some a" using pools_okD(2) [OF assms(1) that, of u i] assms(2) by auto
    then show ?thesis by (auto simp: vacated_def on_term_heap split: option.split)
  qed
  then show ?thesis
    using False assms(2) vacated_fields(4) [OF assms(1) i] by (simp add: reset_eq [OF assms(1)] split: option.split)
qed

lemma alone_terms:
  "pools_ok (ap_terms app) \<Longrightarrow> leaves_alone ev d j sid u app (app\<lparr>ap_terms := terminal_reset u i (ap_terms app)\<rparr>)"
  "leaves_alone ev d j sid u app (app\<lparr>ap_terms := snd (terminal_list u (ap_terms app))\<rparr>)"
proof -
  assume "pools_ok (ap_terms app)"
  note O = reset_others [OF this, of _ u i]
  have "ts_heap (terminal_reset u i (ap_terms app)) ! a = ts_heap (ap_terms app) ! a"
    if "v \<noteq> u" "slot_of (ap_terms app) v k = Some a" for v k a
    using O [OF that(1), of k] that(2) by simp
  then show "leaves_alone ev d j sid u app (app\<lparr>ap_terms := terminal_reset u i (ap_terms app)\<rparr>)"
    using O by (simp add: leaves_alone_def split: option.split)
qed (simp add: leaves_alone_def terminal_list_def split_def Let_def split: option.split)

lemma alone_prefs: "leaves_alone ev d j sid u app (app\<lparr>ap_prefs := hm_insert u p (ap_prefs app)\<rparr>)"
  by (simp add: leaves_alone_def hm_laws split: option.split)

lemma alone_shares:
  assumes "\<And>k g. hm_get (ap_shares app) k = Some g \<Longrightarrow> g_username g \<noteq> u \<Longrightarrow> dr_unix d < g_expires_at g \<Longrightarrow> hm_get gs k = Some g"
  shows "leaves_alone ev d j sid u app (app\<lparr>ap_shares := gs, ap_cut := c\<rparr>)"
    "leaves_alone ev d j sid u app (app\<lparr>ap_shares := gs, ap_cut := c, ap_log := l\<rparr>)"
  using assms by (simp_all add: leaves_alone_def split: option.split)

lemma alone_devices:
  assumes "\<And>k x. hm_get (ds_map (ap_devices app)) k = Some x \<Longrightarrow> identity_parse u \<noteq> Inr (d_identity x) \<Longrightarrow>
      map_option (ev_th ev) (device_token j) \<noteq> Some k \<Longrightarrow> hm_get (ds_map ds) k = Some x"
  shows "leaves_alone ev d j sid u app (app\<lparr>ap_devices := ds\<rparr>)"
  using assms by (simp add: leaves_alone_def split: option.split)

lemma prune_kept: "hm_ok m \<Longrightarrow> hm_get m k = Some g \<Longrightarrow> now < g_expires_at g \<Longrightarrow> hm_get (snd (snd (prune_expired live now m))) k = Some g"
  by (simp add: prune_get)

lemma alone_create:
  fixes s :: session
  assumes "grants_ok (ap_shares app)" "hm_get (ap_shares app) (dr_did d) = None" "authed_session ev d j app = (Some s, app)"
  shows "leaves_alone ev d j sid (s_username s) app (snd (create_share ev d j csrf index ttl note app))"
proof -
  obtain r shut gs where c: "share_create (ev_crypto ev) (ev_share_key ev) (s_username s) index (clamp 1 (max_share_secs (ev_cfg ev)) ttl)
      note (dr_unix d) (dr_unix d) (dr_did d) (dr_chan d) (ap_shares app) = (r, shut, gs)"
    by (metis prod.exhaust)
  have kept: "hm_get gs k = Some g" if "hm_get (ap_shares app) k = Some g" "dr_unix d < g_expires_at g" for k g
  proof -
    obtain n cs kept where p: "prune_expired (\<lambda>_. False) (dr_unix d) (ap_shares app) = (n, cs, kept)" by (metis prod.exhaust)
    then have "hm_get kept k = Some g" using prune_kept [OF grants_ok_D(1) [OF assms(1)] that, of "\<lambda>_. False"] by simp
    moreover have "k \<noteq> dr_did d" using that(1) assms(2) by auto
    ultimately show ?thesis using c p by (auto simp: share_create_def Let_def hm_laws split: if_splits)
  qed
  show ?thesis
    using c alone_shares [of app "s_username s" d gs] kept
    by (cases r) (auto simp: create_share_def with_auth_def with_csrf_def assms(3) Let_def split: create_error.split prod.split)
qed

lemma alone_if: "leaves_alone ev d j sid u app (snd (if b then x else y)) =
  (if b then leaves_alone ev d j sid u app (snd x) else leaves_alone ev d j sid u app (snd y))"
  by simp

lemma alone_revoke_share:
  "grants_ok (ap_shares app) \<Longrightarrow>
   leaves_alone ev d j sid u app (app\<lparr>ap_shares := snd (snd (share_revoke u gid (ap_shares app))), ap_cut := c\<rparr>)"
  by (rule alone_shares) (rule share_foreign_untouched)

lemma alone_list_shares:
  "grants_ok (ap_shares app) \<Longrightarrow>
   leaves_alone ev d j sid u app (app\<lparr>ap_shares := snd (snd (share_list (dr_unix d) u (ap_shares app))), ap_cut := c\<rparr>)"
  by (rule alone_shares) (use prune_kept [OF grants_ok_D(1)] in \<open>auto simp: share_list_def split_def Let_def\<close>)

lemma alone_revoke_devices:
  assumes "devices_ok (ap_devices app)" "identity_parse u = Inr who"
  shows "leaves_alone ev d j sid u app (app\<lparr>ap_devices := snd (device_revoke_all who ok (ap_devices app))\<rparr>)"
    and "leaves_alone ev d j sid u app (app\<lparr>ap_devices := snd (device_revoke who did ok (ap_devices app))\<rparr>)"
proof -
  have m: "hm_ok (ds_map (ap_devices app))" using assms(1) by (simp add: devices_ok_def)
  show "leaves_alone ev d j sid u app (app\<lparr>ap_devices := snd (device_revoke_all who ok (ap_devices app))\<rparr>)"
    by (rule alone_devices) (use m assms(2) in \<open>auto simp: device_ops Let_def hm_laws hm.get_ret_Some\<close>)
  show "leaves_alone ev d j sid u app (app\<lparr>ap_devices := snd (device_revoke who did ok (ap_devices app))\<rparr>)"
    by (rule alone_devices) (use assms(2) in \<open>auto simp: device_ops hm_laws split: option.splits dest!: hm_ok_find [OF m]\<close>)
qed

lemma alone_logout:
  assumes "current_session ev d j app = (Some (sid, s), app)"
  shows "leaves_alone ev d j sid u app (snd (logout ev d j csrf forget_field app))"
proof -
  have rem: "leaves_alone ev d j sid u app (remove_session ev d sid app)"
    by (simp add: leaves_alone_def remove_session_def session_remove_def hm_laws split_def Let_def split: option.split)
  have "device_token (jar_remove (bare_cookie cookie_name) j) = device_token j"
    by (simp add: device_token_def jar_get_def jar_remove_def bare_cookie_def cookie_name_def device_cookie_name_def hm_laws)
  moreover have "leaves_alone ev d j sid u app
      ((remove_session ev d sid app)\<lparr>ap_devices := snd (device_revoke_token (ev_th ev) t ok (ap_devices (remove_session ev d sid app)))\<rparr>)"
    if "device_token j = Some t" for t ok
    using that
    by (simp add: leaves_alone_def remove_session_def session_remove_def device_ops hm_laws split_def Let_def split: option.split)
  ultimately show ?thesis
    using assms rem by (simp add: logout_def Let_def split: option.split)
qed

text \<open>C14: a user's requests stay with the user: whatever a logged-in session asks of the private namespace, the preferences,
  slots and running terminals of other users, their unexpired links, the trusted browsers of other identities
  (unless the request carries that browser's own token), all other sessions, and the enrolments, the throttle
  and the used codes are as they were.\<close>

theorem private_scoped:
  assumes "(process ev em)\<^sup>*\<^sup>* (server_new ev es) sv" "current_session ev d j (sv_app sv) = (Some (sid, s), app1)"
    and "hm_get (ap_shares (sv_app sv)) (dr_did d) = None"
  shows "leaves_alone ev d j sid (s_username s) (sv_app sv) (snd (require_auth ev d j hs req (sv_app sv)))"
proof -
  let ?app = "sv_app sv"
  have ok: "app_ok ev ?app" using reached_ok [OF assms(1)] by (simp add: server_ok_def)
  note I = app_okD(3,5,7) [OF ok]
  have cur: "current_session ev d j ?app = (Some (sid, s), ?app)" using assms(2) current_session_SomeD [OF assms(2)] by simp
  show ?thesis
  proof (cases "s_authenticated s")
    case False
    then show ?thesis by (simp add: require_auth_def authed_session_def cur Let_def)
  next
    case True
    then have au: "authed_session ev d j ?app = (Some s, ?app)" by (simp add: authed_session_def cur)
    note guards = with_auth_def with_csrf_def au
    have "leaves_alone ev d j sid (s_username s) ?app (snd (private_handler ev d j hs req ?app))"
    proof (cases req)
      case (Share_slot csrf index ttl memo)
      then show ?thesis using alone_create [OF I(2) assms(3) au] by (simp add: private_handler_def)
    qed (use I alone_terms alone_prefs alone_revoke_share alone_list_shares alone_revoke_devices alone_logout [OF cur]
         in \<open>auto simp: private_handler_def guards terminal_page_def ws_handler_def list_terminals_def reset_terminal_def
           set_prefs_def list_shares_def revoke_share_def list_devices_def revoke_device_def split_def Let_def split: sum.splits\<close>)
    then show ?thesis by (simp add: require_auth_def au)
  qed
qed

theorem private_scoped_witness:
  "leaves_alone toy_env (toy_draw 5 ''x'') (toy_jar [''b'']) ''b'' ''local:u'' (toy_shared\<lparr>ap_terms := toy_terms\<rparr>)
     (snd (require_auth toy_env (toy_draw 5 ''x'') (toy_jar [''b'']) [] (Reset ''cb'' 0) (toy_shared\<lparr>ap_terms := toy_terms\<rparr>)))"
proof -
  let ?app = "toy_shared\<lparr>ap_terms := toy_terms\<rparr>"
  obtain sv where sv: "(process toy_env unit_emulator)\<^sup>*\<^sup>* (server_new toy_env enrol_new) sv" "sv_app sv = ?app"
    using toy_shared_reached by blast
  have "current_session toy_env (toy_draw 5 ''x'') (toy_jar [''b'']) ?app = (Some (''b'', toy_session True ''local:u'' ''b'' 3), ?app)"
    by (simp add: toy_shared_def toy_in_def toy_app_def toy_session_def toy_defs toy_session_ops)
  moreover have "hm_get (ap_shares ?app) (dr_did (toy_draw 5 ''x'')) = None"
    by (simp add: toy_shared_def toy_draw_def hm_get_def)
  moreover have "s_username (toy_session True ''local:u'' ''b'' 3) = ''local:u''" by (simp add: toy_session_def session_fresh_def)
  ultimately show ?thesis using private_scoped [OF sv(1), unfolded sv(2)] by metis
qed

subsection \<open>A browser two people share\<close>

text \<open>a trusted browser of someone else loses its cookie: when another identity signs in on it and needs a second
  factor, the owner's record stays in the store, as the comment says, but the browser is told to drop the
  cookie, so that the owner is asked for a code at the next login and the record can only expire.\<close>

theorem foreign_device_cookie_cleared:
  assumes "remember_device (ev_cfg ev)" "device_token j = Some token"
    and "hm_get (ds_map (ap_devices app)) (ev_th ev token) = Some x" "d_identity x \<noteq> who"
  shows "snd (forget_stale_device ev d j who app) = app \<and>
    Remove_cookie cleared_device_cookie \<in> set (jr_ops (fst (forget_stale_device ev d j who app))) \<and>
    ck_path cleared_device_cookie = ck_path (device_cookie (ev_cfg ev) token) \<and>
    device_token (fst (forget_stale_device ev d j who app)) = None"
  using assms
  by (simp add: forget_stale_device_def device_ops jar_remove_def device_token_def jar_get_def cleared_device_cookie_def
      bare_cookie_def device_cookie_def hm_laws)

definition toy_trusted :: "unit app" where
  "toy_trusted = toy_in\<lparr>ap_devices := snd (device_mint id (identity_new Local ''v'') 1 100 5 toy_client 3000 ''tok'' ''did'' True device_new)\<rparr>"

theorem foreign_device_cookie_cleared_witness:
  "let j = \<lparr>jr_values = [(device_cookie_name, ''tok'')], jr_ops = []\<rparr> in
   device_token (fst (forget_stale_device toy_env (toy_draw 3 ''b'') j (identity_new Local ''u'') toy_trusted)) = None"
proof -
  let ?j = "\<lparr>jr_values = [(device_cookie_name, ''tok'')], jr_ops = []\<rparr>"
  have "\<exists>x. hm_get (ds_map (ap_devices toy_trusted)) ''tok'' = Some x \<and> d_identity x = identity_new Local ''v''"
    by (simp add: toy_trusted_def device_mint_def device_new_def device_ops Let_def hm_laws mint_victims_def hm_values_def)
  then obtain x where x: "hm_get (ds_map (ap_devices toy_trusted)) ''tok'' = Some x" "d_identity x = identity_new Local ''v''" by blast
  have ne: "d_identity x \<noteq> identity_new Local ''u''"
    by (simp add: x(2) identity_new_def trim_def trim_start_def trim_end_def is_whitespace_def to_lowercase_def char_lower_def
        has_lower_def char_class_defs code_def)
  have "remember_device (ev_cfg toy_env)" "device_token ?j = Some ''tok''" "ev_th toy_env ''tok'' = ''tok''"
    by (simp_all add: toy_defs device_token_def jar_get_def hm_get_def)
  then show ?thesis
    using foreign_device_cookie_cleared [of toy_env ?j "''tok''" toy_trusted x "identity_new Local ''u''" "toy_draw 3 ''b''"] x(1) ne
    by (simp add: Let_def)
qed

end
