(* ===== verification/Live.thy ===== *)
theory Live
  imports Viewer Requests
begin

text \<open>
  The server with its open WebSockets: requests, the owners' connections, the viewers of share links and
  the terminals run interleaved over one set of terminals, and a restart closes every socket. What the
  single connection and the single request are shown to do elsewhere is shown here of all of them at once.

  A socket opens some time after the answer that upgrades it (\<open>on_upgrade\<close>), or never. A viewer's receiver
  of its link's channel (\<open>w_value\<close>) has seen \<open>true\<close> at the latest when it next looks after the store sent it.
\<close>

subsection \<open>State and steps\<close>

record owner_socket =
  os_mux :: mux
  os_chan :: nat
  os_deadline :: nat

record view_socket =
  vs_world :: world
  vs_view :: viewer
  vs_att :: attachment
  vs_lease :: lease

text \<open>\<open>lv_taken\<close>: the answers whose upgrade has been taken up, or never can be. \<open>lv_now\<close> is the monotonic clock.\<close>

record 's live =
  lv_server :: "'s server"
  lv_taken :: "nat list"
  lv_owners :: "owner_socket list"
  lv_viewers :: "view_socket list"
  lv_now :: nat

definition live_new :: "env \<Rightarrow> enrol_store \<Rightarrow> 's live" where
  "live_new ev es = \<lparr>lv_server = server_new ev es, lv_taken = [], lv_owners = [], lv_viewers = [], lv_now = 0\<rparr>"

abbreviation live_app :: "'s live \<Rightarrow> 's app" where
  "live_app lv \<equiv> sv_app (lv_server lv)"

abbreviation live_terms :: "'s live \<Rightarrow> 's terminals" where
  "live_terms lv \<equiv> ap_terms (live_app lv)"

definition with_terms :: "'s terminals \<Rightarrow> 's live \<Rightarrow> 's live" where
  "with_terms ts lv = lv\<lparr>lv_server := (lv_server lv)\<lparr>sv_app := (live_app lv)\<lparr>ap_terms := ts\<rparr>\<rparr>\<rparr>"

text \<open>An owner's connection is to end: its deadline has passed, or its session was ended.\<close>

definition due_end :: "'s live \<Rightarrow> owner_socket \<Rightarrow> bool" where
  "due_end lv sk \<longleftrightarrow> os_deadline sk \<le> lv_now lv \<or> os_chan sk \<in> set (ap_gone (live_app lv))"

definition signalled :: "'s app \<Rightarrow> lease \<Rightarrow> world \<Rightarrow> bool" where
  "signalled app l wd \<longleftrightarrow> (l_chan l \<in> set (ap_cut app) \<longrightarrow> w_value (wd_watch wd))"

text \<open>Every step has its name: a request or the minute sweep is attended to, time passes, a thread of the terminal \<open>a\<close> runs,
  the socket of the answer \<open>i\<close> opens, the \<open>i\<close>th owner's connection or the \<open>i\<close>th viewer does something.\<close>

datatype live_event = Attends | Ticks | Runs nat | Opens nat | Owner_does nat mux_event | Viewer_does nat

inductive live_does ::
  "env \<Rightarrow> 's emulator \<Rightarrow> (string \<Rightarrow> control_frame option) \<Rightarrow> (string \<Rightarrow> (nat \<times> nat) option) \<Rightarrow> (u8 list \<Rightarrow> string) \<Rightarrow>
   live_event \<Rightarrow> 's live \<Rightarrow> 's live \<Rightarrow> bool"
  for ev em parse_mux parse_view b64 where
  x_attend: "attend ev (lv_server lv) sv' \<Longrightarrow>
    live_does ev em parse_mux parse_view b64 Attends lv (lv\<lparr>lv_server := sv'\<rparr>)"
| x_time: "lv_now lv \<le> now \<Longrightarrow> live_does ev em parse_mux parse_view b64 Ticks lv (lv\<lparr>lv_now := now\<rparr>)"
| x_thread: "a < length (ts_heap (live_terms lv)) \<Longrightarrow> thread_step em (ts_heap (live_terms lv) ! a) t' \<Longrightarrow>
    live_does ev em parse_mux parse_view b64 (Runs a) lv (with_terms (on_term a (\<lambda>_. t') (live_terms lv)) lv)"
| x_hangup: "a < length (ts_heap (live_terms lv)) \<Longrightarrow> tm_cmd (ts_heap (live_terms lv) ! a) = Taking \<Longrightarrow>
    tm_queue (ts_heap (live_terms lv) ! a) = [] \<Longrightarrow>
    live_does ev em parse_mux parse_view b64 (Runs a) lv (with_terms (on_term a cmd_disconnected (live_terms lv)) lv)"
| x_open_owner: "i < length (sv_answers (lv_server lv)) \<Longrightarrow> i \<notin> set (lv_taken lv) \<Longrightarrow>
    rs_body (sv_answers (lv_server lv) ! i) = Mux_upgrade user ch deadline \<Longrightarrow>
    live_does ev em parse_mux parse_view b64 (Opens i) lv (lv\<lparr>lv_taken := i # lv_taken lv,
      lv_owners := lv_owners lv @ [\<lparr>os_mux = mux_new user, os_chan = ch, os_deadline = deadline\<rparr>]\<rparr>)"
| x_open_viewer: "i < length (sv_answers (lv_server lv)) \<Longrightarrow> i \<notin> set (lv_taken lv) \<Longrightarrow>
    rs_body (sv_answers (lv_server lv) ! i) = View_upgrade att l \<Longrightarrow> signalled (live_app lv) l wd \<Longrightarrow>
    viewer_open wd att True (Some l) (live_terms lv) = (vw, ts) \<Longrightarrow>
    live_does ev em parse_mux parse_view b64 (Opens i) lv ((with_terms ts lv)\<lparr>lv_taken := i # lv_taken lv,
      lv_viewers := lv_viewers lv @ [\<lparr>vs_world = wd, vs_view = vw, vs_att = att, vs_lease = l\<rparr>]\<rparr>)"
| x_owner: "i < length (lv_owners lv) \<Longrightarrow>
    mux_act parse_mux b64 em (due_end lv (lv_owners lv ! i)) e (os_mux (lv_owners lv ! i), live_terms lv) (mx, ts) \<Longrightarrow>
    live_does ev em parse_mux parse_view b64 (Owner_does i e) lv
      ((with_terms ts lv)\<lparr>lv_owners := (lv_owners lv)[i := (lv_owners lv ! i)\<lparr>os_mux := mx\<rparr>]\<rparr>)"
| x_viewer: "i < length (lv_viewers lv) \<Longrightarrow> later (vs_world (lv_viewers lv ! i)) wd \<Longrightarrow>
    signalled (live_app lv) (vs_lease (lv_viewers lv ! i)) wd \<Longrightarrow>
    viewer_move parse_view b64 em wd (vs_view (lv_viewers lv ! i), live_terms lv) (vw, ts) \<Longrightarrow>
    live_does ev em parse_mux parse_view b64 (Viewer_does i) lv
      ((with_terms ts lv)\<lparr>lv_viewers := (lv_viewers lv)[i := (lv_viewers lv ! i)\<lparr>vs_world := wd, vs_view := vw\<rparr>]\<rparr>)"

definition live_step ::
  "env \<Rightarrow> 's emulator \<Rightarrow> (string \<Rightarrow> control_frame option) \<Rightarrow> (string \<Rightarrow> (nat \<times> nat) option) \<Rightarrow> (u8 list \<Rightarrow> string) \<Rightarrow>
   's live \<Rightarrow> 's live \<Rightarrow> bool" where
  "live_step ev em parse_mux parse_view b64 lv lv' \<longleftrightarrow> (\<exists>what. live_does ev em parse_mux parse_view b64 what lv lv')"

lemma live_stepI: "live_does ev em parse_mux parse_view b64 what lv lv' \<Longrightarrow> live_step ev em parse_mux parse_view b64 lv lv'"
  by (auto simp: live_step_def)

lemmas l_attend = x_attend [THEN live_stepI] and l_thread = x_thread [THEN live_stepI] and
  l_open_owner = x_open_owner [THEN live_stepI] and l_open_viewer = x_open_viewer [THEN live_stepI] and
  l_owner = x_owner [THEN live_stepI] and l_viewer = x_viewer [THEN live_stepI]

lemma live_step_cases [consumes 1, case_names l_attend l_time l_thread l_hangup l_open_owner l_open_viewer l_owner l_viewer]:
  assumes "live_step ev em parse_mux parse_view b64 lv lv'"
    and "\<And>sv'. lv' = lv\<lparr>lv_server := sv'\<rparr> \<Longrightarrow> attend ev (lv_server lv) sv' \<Longrightarrow> P"
    and "\<And>now. lv' = lv\<lparr>lv_now := now\<rparr> \<Longrightarrow> lv_now lv \<le> now \<Longrightarrow> P"
    and "\<And>a t'. lv' = with_terms (on_term a (\<lambda>_. t') (live_terms lv)) lv \<Longrightarrow> a < length (ts_heap (live_terms lv)) \<Longrightarrow>
      thread_step em (ts_heap (live_terms lv) ! a) t' \<Longrightarrow> P"
    and "\<And>a. lv' = with_terms (on_term a cmd_disconnected (live_terms lv)) lv \<Longrightarrow> a < length (ts_heap (live_terms lv)) \<Longrightarrow>
      tm_cmd (ts_heap (live_terms lv) ! a) = Taking \<Longrightarrow> tm_queue (ts_heap (live_terms lv) ! a) = [] \<Longrightarrow> P"
    and "\<And>i user ch deadline. lv' = lv\<lparr>lv_taken := i # lv_taken lv,
        lv_owners := lv_owners lv @ [\<lparr>os_mux = mux_new user, os_chan = ch, os_deadline = deadline\<rparr>]\<rparr> \<Longrightarrow>
      i < length (sv_answers (lv_server lv)) \<Longrightarrow> i \<notin> set (lv_taken lv) \<Longrightarrow>
      rs_body (sv_answers (lv_server lv) ! i) = Mux_upgrade user ch deadline \<Longrightarrow> P"
    and "\<And>i att l wd vw ts. lv' = (with_terms ts lv)\<lparr>lv_taken := i # lv_taken lv,
        lv_viewers := lv_viewers lv @ [\<lparr>vs_world = wd, vs_view = vw, vs_att = att, vs_lease = l\<rparr>]\<rparr> \<Longrightarrow>
      i < length (sv_answers (lv_server lv)) \<Longrightarrow> i \<notin> set (lv_taken lv) \<Longrightarrow>
      rs_body (sv_answers (lv_server lv) ! i) = View_upgrade att l \<Longrightarrow> signalled (live_app lv) l wd \<Longrightarrow>
      viewer_open wd att True (Some l) (live_terms lv) = (vw, ts) \<Longrightarrow> P"
    and "\<And>i e mx ts. lv' = (with_terms ts lv)\<lparr>lv_owners := (lv_owners lv)[i := (lv_owners lv ! i)\<lparr>os_mux := mx\<rparr>]\<rparr> \<Longrightarrow>
      i < length (lv_owners lv) \<Longrightarrow>
      mux_act parse_mux b64 em (due_end lv (lv_owners lv ! i)) e (os_mux (lv_owners lv ! i), live_terms lv) (mx, ts) \<Longrightarrow> P"
    and "\<And>i wd vw ts. lv' = (with_terms ts lv)\<lparr>lv_viewers := (lv_viewers lv)[i := (lv_viewers lv ! i)\<lparr>vs_world := wd, vs_view := vw\<rparr>]\<rparr> \<Longrightarrow>
      i < length (lv_viewers lv) \<Longrightarrow> later (vs_world (lv_viewers lv ! i)) wd \<Longrightarrow>
      signalled (live_app lv) (vs_lease (lv_viewers lv ! i)) wd \<Longrightarrow>
      viewer_move parse_view b64 em wd (vs_view (lv_viewers lv ! i), live_terms lv) (vw, ts) \<Longrightarrow> P"
  shows P
  using assms(1) unfolding live_step_def
proof (elim exE)
  fix what
  assume "live_does ev em parse_mux parse_view b64 what lv lv'"
  then show P by (cases rule: live_does.cases) (erule (1) assms(2-), (assumption+)?)+
qed

text \<open>A restart ends every socket, and no answer of before is upgraded any more.\<close>

inductive lives ::
  "env \<Rightarrow> 's emulator \<Rightarrow> (string \<Rightarrow> control_frame option) \<Rightarrow> (string \<Rightarrow> (nat \<times> nat) option) \<Rightarrow> (u8 list \<Rightarrow> string) \<Rightarrow>
   's live \<Rightarrow> 's live \<Rightarrow> bool"
  for ev em parse_mux parse_view b64 where
  y_step: "live_step ev em parse_mux parse_view b64 lv lv' \<Longrightarrow> lives ev em parse_mux parse_view b64 lv lv'"
| y_restart: "open_app ev d simple (files_left (live_app lv)) = Inr app \<Longrightarrow>
    lives ev em parse_mux parse_view b64 lv
      \<lparr>lv_server = (lv_server lv)\<lparr>sv_app := app\<lparr>ap_log := ap_log (live_app lv)\<rparr>, sv_waiting := [], sv_holding := []\<rparr>,
       lv_taken = [0..<length (sv_answers (lv_server lv))], lv_owners = [], lv_viewers = [], lv_now = lv_now lv\<rparr>"

subsection \<open>A step of the server, seen from the sockets\<close>

text \<open>The answers a step adds, and that it goes on as \<open>goes\<close> says.\<close>

lemma plain_first_factor: "plain (rs_body (fst (snd (first_factor ev d j hs sid f app))))"
  by (auto simp: first_factor_def Let_def split_def split: option.splits)

lemma plain_locked_out: "plain (rs_body (fst (mfa_locked_out ev d j hs sid left app)))"
  by (simp add: mfa_locked_out_def split_def Let_def)

lemma plain_let_in: "plain (rs_body (fst (let_in ev d j hs sid s who form e secret app)))"
  by (simp add: let_in_def split_def Let_def)

lemma plain_finish_code: "plain (rs_body (fst (finish_code ev d j hs sid s who form app)))"
  unfolding finish_code_alt
  by (auto simp: plain_locked_out plain_let_in split_def split: option.splits sum.splits prod.splits)

lemma plain_finish_turn: "plain (rs_body (fst (finish_turn ev d t app)))"
  using plain_first_factor
  by (cases t) (auto simp: finish_turn_def finish_unlisted_def finish_password_def plain_finish_code Let_def split_def
      split: option.splits bool.splits)

lemma plain_finish_google: "plain (rs_body (fst (finish_google ev d g j hs sid fl auth_code app)))"
  using plain_first_factor
  by (auto simp: finish_google_def Let_def split_def split: sum.splits prod.splits bool.splits)

text \<open>A viewer as it is before its socket opens.\<close>

definition waiting :: "attachment \<Rightarrow> viewer" where
  "waiting att = \<lparr>vw_lease = None, vw_ro = True, vw_term = at_term att, vw_pos = at_pos att, vw_seen = at_seen att,
     vw_due = None, vw_phase = Sending [Text_frame (hello_json None att), Binary_frame (at_replay att)] Then_loop, vw_out = []\<rparr>"

definition upgrade_ok :: "'s terminals \<Rightarrow> body \<Rightarrow> bool" where
  "upgrade_ok ts b \<longleftrightarrow> (case b of View_upgrade att l \<Rightarrow> viewer_ok att (waiting att) ts | _ \<Rightarrow> True)"

lemma upgrade_ok_plain: "plain b \<Longrightarrow> upgrade_ok ts b"
  by (auto simp: upgrade_ok_def plain_def split: body.splits)

lemma upgrade_ok_extends: "upgrade_ok ts b \<Longrightarrow> extends ts ts' \<Longrightarrow> upgrade_ok ts' b"
  by (auto simp: upgrade_ok_def intro: viewer_ok_extends split: body.splits)

lemma upgrade_ok_handle:
  assumes "handle ev d j hs req app = (Reply r, app1)" "pools_ok (ap_terms app)"
  shows "upgrade_ok (ap_terms app1) (rs_body r)"
proof (cases "\<exists>att l. rs_body r = View_upgrade att l")
  case True
  then obtain att l where b: "rs_body r = View_upgrade att l" by blast
  then have "\<not> plain (rs_body r)" by (simp add: plain_def)
  then obtain token epoch offset where a: "access_ws ev d hs token epoch offset app = (r, app1)"
    using plain_handle [OF assms(1)] ws_not_View [of ev d j hs _ app att l] b by (metis fst_conv)
  have w: "viewer_open wd att True None (ap_terms app1) = (waiting att, ap_terms app1)" for wd
    by (simp add: viewer_open_def waiting_def)
  obtain resume where "attach_view (l_username l) (l_index l) resume (ap_terms app) = (Inr att, ap_terms app1)"
    using access_ws_View [OF a b] by blast
  from viewer_open_ok [OF assms(2) this, where ro = True and lease = None] show ?thesis unfolding w by (simp add: upgrade_ok_def b)
qed (auto simp: upgrade_ok_def split: body.splits)

text \<open>What a step of the server means for the sockets.\<close>

definition moves :: "env \<Rightarrow> 's app \<Rightarrow> 's app \<Rightarrow> bool" where
  "moves ev app app' \<longleftrightarrow> app_ok ev app' \<and> set (ap_log app) \<subseteq> set (ap_log app') \<and> extends (ap_terms app) (ap_terms app') \<and>
     all_quiet (ap_terms app) (ap_terms app') \<and>
     set (ap_gone app) \<subseteq> set (ap_gone app') \<and> set (ap_cut app) \<subseteq> set (ap_cut app')"

lemma moves_goes: "goes ev app app' \<Longrightarrow> app_ok ev app \<Longrightarrow> moves ev app app'"
  by (simp add: goes_def moves_def)

lemma attend_moves:
  assumes "attend ev sv sv'" "server_ok ev sv"
  shows "moves ev (sv_app sv) (sv_app sv') \<and>
    (\<exists>rs. sv_answers sv' = sv_answers sv @ rs \<and> list_all (\<lambda>r. upgrade_ok (ap_terms (sv_app sv')) (rs_body r)) rs)"
proof -
  have ok: "app_ok ev (sv_app sv)" using assms(2) by (simp add: server_ok_def)
  have b: "rs_body (hsts (ev_cfg ev) r) = rs_body r" for r by (simp add: hsts_def)
  show ?thesis
    using assms(1)
  proof (cases rule: attend.cases)
    case (v_reply d j hs req r app)
    then have "goes ev (sv_app sv) app" using sound_handle [of ev "sv_app sv" d j hs req] by (auto intro: fine_goes)
    then show ?thesis
      using v_reply(1) moves_goes [OF _ ok] upgrade_ok_handle [OF v_reply(2) app_okD(7) [OF ok]] by (simp add: answer_def b)
  next
    case (v_pause d j hs req p app)
    then have "goes ev (sv_app sv) app" using sound_handle [of ev "sv_app sv" d j hs req] by simp
    then show ?thesis using v_pause(1) moves_goes [OF _ ok] by simp
  next
    case (v_turn t now wake g)
    then show ?thesis using moves_goes [OF goes_other(3) ok] by simp
  next
    case (v_finish wake t d r app)
    then have "turn_ok ev (ap_log (sv_app sv)) t" using assms(2) by (force simp: server_ok_def)
    then have "goes ev (sv_app sv) app" using fine_finish_turn [of ev "sv_app sv" t d] v_finish(4) by (auto intro: fine_goes)
    moreover have "plain (rs_body r)" using plain_finish_turn [of ev d t "sv_app sv"] v_finish(4) by simp
    ultimately show ?thesis using v_finish(1) moves_goes [OF _ ok] by (simp add: answer_def b upgrade_ok_plain)
  next
    case (v_google j hs sid fl auth_code d g r app)
    then have "goes ev (sv_app sv) app" using fine_finish_google [of ev "sv_app sv" d g j hs sid fl auth_code] by (auto intro: fine_goes)
    moreover have "plain (rs_body r)" using plain_finish_google [of ev d g j hs sid fl auth_code "sv_app sv"] v_google(3) by simp
    ultimately show ?thesis using v_google(1) moves_goes [OF _ ok] by (simp add: answer_def b upgrade_ok_plain)
  next
    case (v_sweep d)
    then show ?thesis using moves_goes [OF goes_minute_sweep ok] by simp
  qed (use ok in \<open>simp_all add: moves_goes\<close>)
qed

subsection \<open>The invariant\<close>

definition owner_ok :: "event list \<Rightarrow> 's terminals \<Rightarrow> owner_socket \<Rightarrow> bool" where
  "owner_ok log ts sk \<longleftrightarrow> mux_ok (os_mux sk) ts \<and> (\<exists>k. full_in log k (mx_user (os_mux sk)))"

definition lawfully :: "view_socket \<Rightarrow> bool" where
  "lawfully sk \<longleftrightarrow> vw_lease (vs_view sk) = Some (vs_lease sk) \<and> vw_ro (vs_view sk) \<and>
     list_all (\<lambda>(w, f). f = Close_frame \<or> lease_valid (wd_now w) (wd_watch w) (vs_lease sk) = Some True) (vw_out (vs_view sk))"

definition watcher_ok :: "env \<Rightarrow> event list \<Rightarrow> 's terminals \<Rightarrow> view_socket \<Rightarrow> bool" where
  "watcher_ok ev log ts sk \<longleftrightarrow> viewer_ok (vs_att sk) (vs_view sk) ts \<and> lawfully sk \<and> sharing_enabled (ev_cfg ev) \<and>
     Shared (l_username (vs_lease sk)) (l_index (vs_lease sk)) (l_expires_at (vs_lease sk)) \<in> set log"

definition live_ok :: "env \<Rightarrow> 's live \<Rightarrow> bool" where
  "live_ok ev lv \<longleftrightarrow> server_ok ev (lv_server lv) \<and> ts_slots (live_terms lv) \<le> 256 \<and>
     (\<forall>i < length (sv_answers (lv_server lv)). i \<notin> set (lv_taken lv) \<longrightarrow>
        upgrade_ok (live_terms lv) (rs_body (sv_answers (lv_server lv) ! i))) \<and>
     (\<forall>sk \<in> set (lv_owners lv). owner_ok (ap_log (live_app lv)) (live_terms lv) sk) \<and>
     (\<forall>sk \<in> set (lv_viewers lv). watcher_ok ev (ap_log (live_app lv)) (live_terms lv) sk)"

lemma owner_ok_mono: "owner_ok log ts sk \<Longrightarrow> set log \<subseteq> set log' \<Longrightarrow> extends ts ts' \<Longrightarrow> owner_ok log' ts' sk"
  using log_mono(2) [of log log'] mux_ok_extends by (auto simp: owner_ok_def)

lemma watcher_ok_mono: "watcher_ok ev log ts sk \<Longrightarrow> set log \<subseteq> set log' \<Longrightarrow> extends ts ts' \<Longrightarrow> watcher_ok ev log' ts' sk"
  using viewer_ok_extends by (auto simp: watcher_ok_def)

lemma live_ok_attend:
  assumes "live_ok ev lv" "attend ev (lv_server lv) sv'"
  shows "live_ok ev (lv\<lparr>lv_server := sv'\<rparr>)"
proof -
  have ok: "server_ok ev (lv_server lv)" using assms(1) by (simp add: live_ok_def)
  obtain rs where m: "moves ev (live_app lv) (sv_app sv')" and rs: "sv_answers sv' = sv_answers (lv_server lv) @ rs"
    "list_all (\<lambda>r. upgrade_ok (ap_terms (sv_app sv')) (rs_body r)) rs"
    using attend_moves [OF assms(2) ok] by blast
  have ext: "extends (live_terms lv) (ap_terms (sv_app sv'))" and log: "set (ap_log (live_app lv)) \<subseteq> set (ap_log (sv_app sv'))"
    using m by (simp_all add: moves_def)
  have "upgrade_ok (ap_terms (sv_app sv')) (rs_body (sv_answers sv' ! i))"
    if "i < length (sv_answers sv')" "i \<notin> set (lv_taken lv)" for i
  proof (cases "i < length (sv_answers (lv_server lv))")
    case True
    then have "upgrade_ok (live_terms lv) (rs_body (sv_answers (lv_server lv) ! i))" using assms(1) that(2) by (simp add: live_ok_def)
    then show ?thesis using True upgrade_ok_extends [OF _ ext] by (simp add: rs nth_append)
  next
    case False
    then have "rs ! (i - length (sv_answers (lv_server lv))) \<in> set rs" using that(1) by (auto simp: rs)
    then show ?thesis using False rs(2) by (simp add: rs(1) nth_append list_all_iff)
  qed
  moreover have "ts_slots (ap_terms (sv_app sv')) \<le> 256" using assms(1) ext by (simp add: live_ok_def extends_def)
  ultimately show ?thesis
    using assms(1) server_ok_attend [OF assms(2) ok] owner_ok_mono [OF _ log ext] watcher_ok_mono [OF _ log ext]
    by (simp add: live_ok_def)
qed

lemma with_terms_fields [simp]:
  "live_terms (with_terms ts lv) = ts" "ap_log (live_app (with_terms ts lv)) = ap_log (live_app lv)"
  "ap_cut (live_app (with_terms ts lv)) = ap_cut (live_app lv)" "ap_gone (live_app (with_terms ts lv)) = ap_gone (live_app lv)"
  "sv_answers (lv_server (with_terms ts lv)) = sv_answers (lv_server lv)" "lv_taken (with_terms ts lv) = lv_taken lv"
  "lv_owners (with_terms ts lv) = lv_owners lv" "lv_viewers (with_terms ts lv) = lv_viewers lv"
  by (simp_all add: with_terms_def)

lemma live_ok_terms:
  assumes "live_ok ev lv" "extends (live_terms lv) ts"
  shows "live_ok ev (with_terms ts lv)"
proof -
  have "server_ok ev (lv_server lv)" using assms(1) by (simp add: live_ok_def)
  from server_ok_terms [OF this assms(2)] have "server_ok ev (lv_server (with_terms ts lv))" by (simp add: with_terms_def)
  moreover have "ts_slots ts \<le> 256" using assms by (simp add: live_ok_def extends_def)
  ultimately show ?thesis
    using assms owner_ok_mono [OF _ subset_refl assms(2)] watcher_ok_mono [OF _ subset_refl assms(2)] upgrade_ok_extends [OF _ assms(2)]
    by (simp add: live_ok_def)
qed

text \<open>Changing the sockets alone.\<close>

lemma live_ok_sockets:
  assumes "live_ok ev lv" "lv_server lv' = lv_server lv" "set (lv_taken lv) \<subseteq> set (lv_taken lv')"
    and "\<And>sk. sk \<in> set (lv_owners lv') \<Longrightarrow> sk \<in> set (lv_owners lv) \<or> owner_ok (ap_log (live_app lv)) (live_terms lv) sk"
    and "\<And>sk. sk \<in> set (lv_viewers lv') \<Longrightarrow> sk \<in> set (lv_viewers lv) \<or> watcher_ok ev (ap_log (live_app lv)) (live_terms lv) sk"
  shows "live_ok ev lv'"
proof -
  have "\<forall>sk\<in>set (lv_owners lv'). owner_ok (ap_log (live_app lv)) (live_terms lv) sk"
    using assms(1,4) unfolding live_ok_def by blast
  moreover have "\<forall>sk\<in>set (lv_viewers lv'). watcher_ok ev (ap_log (live_app lv)) (live_terms lv) sk"
    using assms(1,5) unfolding live_ok_def by blast
  ultimately show ?thesis using assms(1-3) by (auto simp: live_ok_def)
qed

lemma open_waiting:
  assumes "viewer_ok att (waiting att) ts" "viewer_open wd att True (Some l) ts = (vw, ts')"
  shows "viewer_ok att vw ts' \<and> extends ts ts' \<and> vw_lease vw = Some l \<and> vw_ro vw \<and> vw_out vw = []"
proof (cases "lease_deadline (wd_now wd) (wd_tick wd) l")
  case None
  let ?vw = "(waiting att)\<lparr>vw_lease := Some l\<rparr>"
  have r: "(vw, ts') = viewer_return ?vw ts" using assms(2) None by (simp add: viewer_open_def waiting_def)
  then have ok: "viewer_ok att vw ts'" using viewer_return_ok [OF assms(1), of ?vw] by (simp split: prod.splits)
  moreover have "inert unit_emulator us (snd (viewer_return ?vw us))" for us :: "unit terminals" by (rule inert_ends)
  moreover have "extends ts ts'"
    using inert_extends [OF _ viewer_okD(1) [OF ok]] inert_ends(1) [of _ ts ?vw] r by (metis snd_conv)
  moreover have "vw_lease vw = Some l \<and> vw_ro vw \<and> vw_out vw = []" using r by (simp add: viewer_return_def waiting_def)
  ultimately show ?thesis by blast
next
  case (Some due)
  then have vw: "vw = (waiting att)\<lparr>vw_lease := Some l, vw_due := Some due\<rparr>" "ts' = ts"
    using assms(2) by (simp_all add: viewer_open_def waiting_def)
  have "viewer_ok att vw ts"
    using assms(1) by (rule viewer_ok_cong) (simp_all add: vw waiting_def sends_on_def all_frames_def)
  then show ?thesis using viewer_okD(1) [OF assms(1)] by (simp add: vw) (simp add: waiting_def)
qed

lemma lawfully_move:
  assumes "lawfully sk" "viewer_move parse b64 em wd (vs_view sk, ts) (vw, ts')"
  shows "lawfully (sk\<lparr>vs_world := wd, vs_view := vw\<rparr>)"
  using assms(1) lawful_move [OF assms(2)] by (auto simp: lawfully_def lawful_def guard_valid_def list_all_iff)

lemma pending_upgrade:
  assumes "live_ok ev lv" "i < length (sv_answers (lv_server lv))" "i \<notin> set (lv_taken lv)"
    and "rs_body (sv_answers (lv_server lv) ! i) = View_upgrade att l"
  shows "viewer_ok att (waiting att) (live_terms lv)"
proof -
  have "upgrade_ok (live_terms lv) (View_upgrade att l)" using assms by (metis live_ok_def)
  then show ?thesis by (simp add: upgrade_ok_def)
qed

lemma live_step_extends:
  assumes "live_step ev em parse_mux parse_view b64 lv lv'" "live_ok ev lv"
  shows "extends (live_terms lv) (live_terms lv')"
proof -
  have sv: "server_ok ev (lv_server lv)" using assms(2) by (simp add: live_ok_def)
  then have pools: "pools_ok (live_terms lv)" by (simp add: server_ok_def app_ok_def)
  show ?thesis
    using assms(1)
  proof (cases rule: live_step_cases)
    case (l_attend sv')
    then show ?thesis using attend_moves [OF l_attend(2) sv] by (simp add: moves_def)
  next
    case (l_thread a t')
    then show ?thesis using slots_step_extends [OF p_term [OF _ s_thread] pools] by simp
  next
    case (l_hangup a)
    then show ?thesis using slots_step_extends [OF p_term [OF _ s_disconnected] pools] by (simp add: on_term_def)
  next
    case (l_open_viewer i att l wd vw ts)
    then show ?thesis using open_waiting [OF pending_upgrade [OF assms(2) l_open_viewer(2-4)] l_open_viewer(6)] by (simp add: with_terms_def)
  next
    case (l_owner i e mx ts)
    have "owner_ok (ap_log (live_app lv)) (live_terms lv) (lv_owners lv ! i)" using assms(2) l_owner(2) by (simp add: live_ok_def)
    then show ?thesis using mux_act_ok [OF l_owner(3)] by (simp add: l_owner(1) owner_ok_def with_terms_def)
  next
    case (l_viewer i wd vw ts)
    have "watcher_ok ev (ap_log (live_app lv)) (live_terms lv) (lv_viewers lv ! i)" using assms(2) l_viewer(2) by (simp add: live_ok_def)
    then show ?thesis
      using inert_extends [OF viewer_move_inert [OF l_viewer(5)] viewer_okD(1)] viewer_move_ok [OF l_viewer(5)]
      by (auto simp: l_viewer(1) watcher_ok_def lawfully_def with_terms_def)
  qed (simp_all add: pools)
qed

lemma live_ok_step:
  assumes "live_step ev em parse_mux parse_view b64 lv lv'" "live_ok ev lv"
  shows "live_ok ev lv'"
  using assms(1)
proof (cases rule: live_step_cases)
  case (l_attend sv')
  then show ?thesis using live_ok_attend [OF assms(2)] by simp
next
  case (l_time now)
  then show ?thesis using assms(2) by (simp add: live_ok_def)
next
  case (l_thread a t')
  then show ?thesis using live_ok_terms [OF assms(2)] live_step_extends [OF assms] by simp
next
  case (l_hangup a)
  then show ?thesis using live_ok_terms [OF assms(2)] live_step_extends [OF assms] by simp
next
  case (l_open_owner i user ch deadline)
  have s: "server_ok ev (lv_server lv)" "ts_slots (live_terms lv) \<le> 256" using assms(2) by (simp_all add: live_ok_def)
  then have "body_ok ev (ap_log (live_app lv)) (Mux_upgrade user ch deadline)"
    using l_open_owner(2,4) by (metis nth_mem server_ok_def)
  moreover have "pools_ok (live_terms lv)" using s(1) app_okD(7) [of ev "live_app lv"] by (simp add: server_ok_def)
  ultimately have "owner_ok (ap_log (live_app lv)) (live_terms lv) \<lparr>os_mux = mux_new user, os_chan = ch, os_deadline = deadline\<rparr>"
    using s(2) by (simp add: owner_ok_def mux_ok_def mux_new_def body_ok_def)
  then show ?thesis unfolding l_open_owner(1) by - (rule live_ok_sockets [OF assms(2)], auto)
next
  case (l_open_viewer i att l wd vw ts)
  have "server_ok ev (lv_server lv)" using assms(2) by (simp add: live_ok_def)
  then have b: "body_ok ev (ap_log (live_app lv)) (View_upgrade att l)" using l_open_viewer(2,4) by (metis nth_mem server_ok_def)
  note o = open_waiting [OF pending_upgrade [OF assms(2) l_open_viewer(2-4)] l_open_viewer(6)]
  have "watcher_ok ev (ap_log (live_app lv)) ts \<lparr>vs_world = wd, vs_view = vw, vs_att = att, vs_lease = l\<rparr>"
    using o b by (simp add: watcher_ok_def lawfully_def body_ok_def)
  moreover have "live_ok ev (with_terms ts lv)" using live_ok_terms [OF assms(2)] o by blast
  ultimately show ?thesis unfolding l_open_viewer(1) by - (rule live_ok_sockets [of ev "with_terms ts lv"], auto)
next
  case (l_owner i e mx ts)
  let ?sk = "lv_owners lv ! i"
  have "owner_ok (ap_log (live_app lv)) (live_terms lv) ?sk" using assms(2) l_owner(2) by (simp add: live_ok_def)
  then have "owner_ok (ap_log (live_app lv)) ts (?sk\<lparr>os_mux := mx\<rparr>)" "extends (live_terms lv) ts"
    using mux_act_ok [OF l_owner(3)] mux_act_user [OF l_owner(3)] by (auto simp: owner_ok_def)
  then show ?thesis
    unfolding l_owner(1)
    using live_ok_terms [OF assms(2)] set_update_subset_insert [of "lv_owners lv" i "?sk\<lparr>os_mux := mx\<rparr>"]
    by - (rule live_ok_sockets [of ev "with_terms ts lv"], auto)
next
  case (l_viewer i wd vw ts)
  let ?sk = "lv_viewers lv ! i" and ?new = "(lv_viewers lv ! i)\<lparr>vs_world := wd, vs_view := vw\<rparr>"
  have "watcher_ok ev (ap_log (live_app lv)) (live_terms lv) ?sk" using assms(2) l_viewer(2) by (simp add: live_ok_def)
  then have "watcher_ok ev (ap_log (live_app lv)) ts ?new"
    using viewer_move_ok [OF l_viewer(5)] lawfully_move [OF _ l_viewer(5)] by (simp add: watcher_ok_def)
  moreover have "extends (live_terms lv) ts" using live_step_extends [OF assms] by (simp add: l_viewer(1) with_terms_def)
  ultimately show ?thesis
    unfolding l_viewer(1)
    using live_ok_terms [OF assms(2)] set_update_subset_insert [of "lv_viewers lv" i ?new]
    by - (rule live_ok_sockets [of ev "with_terms ts lv"], auto)
qed

lemma live_ok_restart:
  assumes "lives ev em parse_mux parse_view b64 lv lv'" "live_ok ev lv" "slots_per_user (ev_cfg ev) \<le> 256"
  shows "live_ok ev lv'"
  using assms(1)
proof (cases rule: lives.cases)
  case (y_restart d simple app)
  have "server_ok ev (lv_server lv)" using assms(2) by (simp add: live_ok_def)
  from server_ok_process [OF r_restart [OF y_restart(2)] this]
  have "server_ok ev ((lv_server lv)\<lparr>sv_app := app\<lparr>ap_log := ap_log (live_app lv)\<rparr>, sv_waiting := [], sv_holding := []\<rparr>)" .
  moreover have "ts_slots (ap_terms app) = slots_per_user (ev_cfg ev)"
    using y_restart(2) by (auto simp: open_app_def Let_def app_new_def terms_new_def terminals_new_def split: sum.splits)
  ultimately show ?thesis using assms(3) by (simp add: live_ok_def y_restart(1))
qed (use live_ok_step [OF _ assms(2)] in blast)

lemma server_new_fields:
  "ts_slots (ap_terms (sv_app (server_new ev es))) = slots_per_user (ev_cfg ev)" "sv_answers (server_new ev es) = []"
  by (simp_all add: server_new_def app_new_def terms_new_def terminals_new_def Let_def)

lemma live_reach_ok:
  assumes "(lives ev em parse_mux parse_view b64)\<^sup>*\<^sup>* (live_new ev es) lv" "slots_per_user (ev_cfg ev) \<le> 256"
  shows "live_ok ev lv"
  using assms(1)
proof (induction rule: rtranclp_induct)
  case base
  show ?case using assms(2) by (simp add: live_ok_def live_new_def server_new_fields server_ok_new)
next
  case (step lv lv')
  then show ?case using live_ok_restart [OF _ _ assms(2)] by blast
qed

subsection \<open>What every socket sees\<close>

lemma live_owner_aux:
  assumes "(lives ev em parse_mux parse_view b64)\<^sup>*\<^sup>* (live_new ev es) lv" "slots_per_user (ev_cfg ev) \<le> 256"
    and "sk \<in> set (lv_owners lv)"
  shows "(\<exists>k. full_in (ap_log (live_app lv)) k (mx_user (os_mux sk))) \<and> mux_ok (os_mux sk) (live_terms lv)"
  using live_reach_ok [OF assms(1,2)] assms(3) by (simp add: live_ok_def owner_ok_def)

text \<open>C24: The shape of the terminals: in every state the server can reach, a user has as many slots as are configured; a slot
  holds a terminal that exists and that is in no other slot; an owner's channel is tagged by one byte and leads to a
  terminal that exists; at most 512 frames wait for its writer; and each terminal is of one piece: its queue is bounded, its size is the screen's, it is
  alive while its reader runs and has a killer until its command thread retires it, no signal was ever sent
  to a child already reaped, and its scrollback holds exactly the tail of its output that fits.\<close>

theorem live_well_formed:
  assumes "(lives ev em parse_mux parse_view b64)\<^sup>*\<^sup>* (live_new ev es) lv" "slots_per_user (ev_cfg ev) \<le> 256"
  shows "(\<forall>u p. hm_get (ts_pools (live_terms lv)) u = Some p \<longrightarrow> length p = ts_slots (live_terms lv)) \<and>
    (\<forall>u i a. slot_of (live_terms lv) u i = Some a \<longrightarrow> a < length (ts_heap (live_terms lv)) \<and>
       (\<forall>v j. slot_of (live_terms lv) v j = Some a \<longrightarrow> v = u \<and> j = i)) \<and>
    (\<forall>sk \<in> set (lv_owners lv). \<forall>t ch. hm_get (mx_channels (os_mux sk)) t = Some ch \<longrightarrow>
       t < 256 \<and> ch_term ch < length (ts_heap (live_terms lv))) \<and>
    (\<forall>sk \<in> set (lv_owners lv). length (mx_out (os_mux sk)) - mx_sent (os_mux sk) \<le> 512) \<and>
    (\<forall>t \<in> set (ts_heap (live_terms lv)).
       length (tm_queue t) \<le> queue_cap \<and> tm_size t = size (tm_sb t) \<and> (tm_alive t \<longleftrightarrow> tm_read t = Reading) \<and>
       (tm_killer t \<longleftrightarrow> tm_cmd t \<notin> {Retired, Reaped}) \<and> (\<forall>(g, ph) \<in> set (tm_signals t). ph \<noteq> Reaped) \<and>
       (length (concat (tm_log t)) < 2 ^ 64 \<longrightarrow>
          buf (tm_sb t) = drop (length (concat (tm_log t)) - cap (tm_sb t)) (concat (tm_log t))))"
proof -
  have ok: "live_ok ev lv" by (rule live_reach_ok [OF assms])
  then have pools: "pools_ok (live_terms lv)" by (simp add: live_ok_def server_ok_def app_ok_def)
  have slots: "\<forall>u i a. slot_of (live_terms lv) u i = Some a \<longrightarrow> a < length (ts_heap (live_terms lv)) \<and>
       (\<forall>v j. slot_of (live_terms lv) v j = Some a \<longrightarrow> v = u \<and> j = i)"
    using pools_okD(1,2) [OF pools] by blast
  have chans: "\<forall>sk \<in> set (lv_owners lv). \<forall>t ch. hm_get (mx_channels (os_mux sk)) t = Some ch \<longrightarrow>
       t < 256 \<and> ch_term ch < length (ts_heap (live_terms lv))"
    using ok mux_okD(3) by (fastforce simp: live_ok_def owner_ok_def task_ok_def)
  have queues: "\<forall>sk \<in> set (lv_owners lv). length (mx_out (os_mux sk)) - mx_sent (os_mux sk) \<le> 512"
    using ok by (auto simp: live_ok_def owner_ok_def mux_ok_def out_cap_def)
  have sound: "term_ok t" if "t \<in> set (ts_heap (live_terms lv))" for t using pools that by (simp add: pools_ok_def)
  show ?thesis
    by (rule conjI [OF _ conjI [OF slots conjI [OF chans conjI [OF queues]]]])
      (use pools in \<open>simp add: pools_ok_def\<close>,
       auto dest!: sound simp: term_ok_def ring_abs_def list_all_iff split: if_splits)
qed

text \<open>C5: The owner's side of the running server: in every history of requests, connections and restarts, each open
  connection belongs to a user some session was logged in for; the terminal of each of its channels sits in no slot but
  that user's own, of that number; and what a running channel has queued since the hello of its slot, with what it holds
  to be queued next, is exactly the output of its terminal up to the channel's position. Two exceptions: a channel that
  has fallen behind or whose shell is gone is about to say so and end; and a task that was aborted by a close and not
  awaited may still queue a chunk, so nothing is claimed of its slot from then until the hello after the next one
  (\<open>close_then_open_repeats\<close> shows what happens).\<close>

theorem live_owner:
  assumes "(lives ev em parse_mux parse_view b64)\<^sup>*\<^sup>* (live_new ev es) lv" "slots_per_user (ev_cfg ev) \<le> 256"
    and "sk \<in> set (lv_owners lv)" "hm_get (mx_channels (os_mux sk)) t = Some ch"
  shows "(\<exists>k. full_in (ap_log (live_app lv)) k (mx_user (os_mux sk))) \<and>
    (\<forall>v i. slot_of (live_terms lv) v i = Some (ch_term ch) \<longrightarrow> v = mx_user (os_mux sk) \<and> i = t) \<and>
    (ch_run ch \<and> \<not> ch_last ch \<and> t \<notin> set (mx_mixed (os_mux sk)) \<longrightarrow>
       in_stream t (mx_out (os_mux sk) @ ch_hold ch) ch (live_terms lv))"
  using live_owner_aux [OF assms(1-3)] mux_okD(2) [OF _ assms(4)] by (auto simp: channel_ok_def task_ok_def)

text \<open>C6: The viewer's side: every viewer's socket there ever is came by a link which a logged-in session of the terminal's
  owner created while sharing was on; it is read-only, every frame it has been sent but the closing one was sent
  while the link was valid, and while it streams it has been sent the hello and then exactly the shell's output.\<close>

theorem live_viewer:
  assumes "(lives ev em parse_mux parse_view b64)\<^sup>*\<^sup>* (live_new ev es) lv" "slots_per_user (ev_cfg ev) \<le> 256"
    and "sk \<in> set (lv_viewers lv)"
  shows "sharing_enabled (ev_cfg ev) \<and>
    Shared (l_username (vs_lease sk)) (l_index (vs_lease sk)) (l_expires_at (vs_lease sk)) \<in> set (ap_log (live_app lv)) \<and>
    (\<exists>k. full_in (ap_log (live_app lv)) k (l_username (vs_lease sk))) \<and> lawfully sk \<and>
    (sends_on (vs_view sk) \<longrightarrow> view_in_step (vs_att sk) (vs_view sk) (live_terms lv))"
proof -
  have ok: "live_ok ev lv" by (rule live_reach_ok [OF assms(1,2)])
  then have w: "watcher_ok ev (ap_log (live_app lv)) (live_terms lv) sk" using assms(3) by (simp add: live_ok_def)
  have "app_ok ev (live_app lv)" using ok by (simp add: live_ok_def server_ok_def)
  from app_okD(8) [OF this] have "\<exists>k. full_in (ap_log (live_app lv)) k (l_username (vs_lease sk))"
    using w by (fastforce simp: watcher_ok_def event_ok_def)
  then show ?thesis using w viewer_okD(3) by (auto simp: watcher_ok_def)
qed

subsection \<open>Revocation reaches every viewer\<close>

definition sent_over :: "nat \<Rightarrow> 's live \<Rightarrow> frame list" where
  "sent_over c lv = concat (map (\<lambda>sk. if l_chan (vs_lease sk) = c then data_frames (vs_view sk) else []) (lv_viewers lv))"

lemma concat_map_update:
  "i < length xs \<Longrightarrow> f y = f (xs ! i) \<Longrightarrow> concat (map f (xs[i := y])) = concat (map f xs)"
  by (simp add: map_update) (metis list_update_id length_map nth_map)

lemma sent_over_step:
  assumes "live_step ev em parse_mux parse_view b64 lv lv'" "live_ok ev lv" "c \<in> set (ap_cut (live_app lv))"
  shows "sent_over c lv' = sent_over c lv \<and> c \<in> set (ap_cut (live_app lv'))"
  using assms(1)
proof (cases rule: live_step_cases)
  case (l_attend sv')
  have "server_ok ev (lv_server lv)" using assms(2) by (simp add: live_ok_def)
  from attend_moves [OF l_attend(2) this] show ?thesis using l_attend(1) assms(3) by (auto simp: moves_def sent_over_def)
next
  case (l_open_viewer i att l wd vw ts)
  have "vw_out vw = []" using open_waiting [OF pending_upgrade [OF assms(2) l_open_viewer(2-4)] l_open_viewer(6)] by blast
  then show ?thesis using assms(3) by (simp add: l_open_viewer(1) sent_over_def data_frames_def with_terms_def)
next
  case (l_viewer i wd vw ts)
  let ?sk = "lv_viewers lv ! i"
  have "lawfully ?sk" using assms(2) l_viewer(2) by (simp add: live_ok_def watcher_ok_def)
  then have "data_frames vw = data_frames (vs_view ?sk)" if "l_chan (vs_lease ?sk) = c"
    using move_invalid [OF l_viewer(5)] l_viewer(4) assms(3) that
    by (simp add: lawfully_def signalled_def guard_valid_def lease_valid_def lease_revoked_def)
  then show ?thesis
    unfolding l_viewer(1) sent_over_def using assms(3) l_viewer(2)
    by (simp add: concat_map_update with_terms_def)
qed (use assms(3) in \<open>simp_all add: sent_over_def with_terms_def\<close>)

lemma sent_over_steps:
  assumes "(live_step ev em parse_mux parse_view b64)\<^sup>*\<^sup>* lv lv'" "live_ok ev lv" "c \<in> set (ap_cut (live_app lv))"
  shows "sent_over c lv' = sent_over c lv"
proof -
  have "sent_over c lv' = sent_over c lv \<and> live_ok ev lv' \<and> c \<in> set (ap_cut (live_app lv'))"
    using assms(1)
  proof (induction rule: rtranclp_induct)
    case base
    show ?case using assms(2,3) by simp
  next
    case (step lv' lv'')
    then show ?case using sent_over_step [OF step(2)] live_ok_step [OF step(2)] by simp
  qed
  then show ?thesis by blast
qed

text \<open>C7: Revoking a link cuts off everyone who follows it: when its owner's request to revoke it is answered, whatever
  happens afterwards - output of the shell, messages of the viewers, sockets of the link that were about to open,
  other requests - no viewer of that link is sent one more frame but the closing one.\<close>

theorem live_revocation:
  assumes "(lives ev em parse_mux parse_view b64)\<^sup>*\<^sup>* (live_new ev es) lv" "slots_per_user (ev_cfg ev) \<le> 256"
    and "authed_session ev d j (live_app lv) = (Some s, live_app lv)" "csrf_matches (s_csrf s) csrf"
    and "hm_get (ap_shares (live_app lv)) gid = Some g" "g_username g = s_username s"
    and "handle ev d j hs (Private (Revoke_share csrf gid)) (live_app lv) = (Reply r, app1)"
    and "(live_step ev em parse_mux parse_view b64)\<^sup>*\<^sup>* (lv\<lparr>lv_server := answer ev r app1 (lv_server lv)\<rparr>) lv'"
  shows "rs_status r = 204 \<and> sent_over (g_chan g) lv' = sent_over (g_chan g) lv"
proof -
  let ?lv = "lv\<lparr>lv_server := answer ev r app1 (lv_server lv)\<rparr>"
  have r: "rs_status r = 204" "g_chan g \<in> set (ap_cut app1)"
    using assms(3-7)
    by (auto simp: handle_def require_auth_def private_handler_def revoke_share_def with_auth_def with_csrf_def
        share_revoke_def no_content_def reply_def split: prod.splits)
  have "live_ok ev ?lv"
    using live_ok_attend [OF live_reach_ok [OF assms(1,2)] v_reply [OF assms(7)]] .
  from sent_over_steps [OF assms(8) this] have "sent_over (g_chan g) lv' = sent_over (g_chan g) ?lv"
    using r(2) by (simp add: answer_def)
  then show ?thesis using r(1) by (simp add: sent_over_def)
qed

subsection \<open>How an owner's connection ends\<close>

text \<open>The messages that end a connection: the client's own goodbye, and input its terminal does not take.\<close>

definition leaves :: "client_msg \<Rightarrow> mux \<Rightarrow> 's terminals \<Rightarrow> bool" where
  "leaves msg mx ts \<longleftrightarrow> msg \<in> {Closing, Read_error, Ended} \<or>
     (\<exists>tag key ch. msg = Bin (tag # key) \<and> hm_get (mx_channels mx) (unat tag) = Some ch \<and> \<not> ch_ro ch \<and>
        \<not> fst (try_send (Input key) (ts_heap ts ! ch_term ch)))"

lemma message_leaves:
  assumes "mux_message parse em os msg mx ts = (mx', ts')" "mx_main mx = Serving" "\<not> mx_open mx'"
  shows "leaves msg mx ts"
  using assms replace_channel_main
  by (cases msg)
    (auto simp: mux_message_def leaves_def mx_open_def mux_control_def mux_open_slot_def close_channel_def mux_input_def split_def Let_def
      split: option.splits control_frame.splits list.splits prod.splits if_splits)

lemma mux_act_cause:
  assumes "mux_act parse b64 em due e (mx, ts) (mx', ts')" "mx_open mx" "\<not> mx_open mx'"
  shows "e = Saw_due \<and> due \<or> (\<exists>msg. e = Got msg \<and> leaves msg mx ts) \<or> e = Queues \<and> \<not> mx_writer mx"
  using assms(1)
proof (cases rule: mux_act.cases)
  case (m_message msg os)
  then show ?thesis using message_leaves [of parse em os msg mx ts mx' ts'] assms(3) by simp
next
  case (m_queue fs opened)
  then show ?thesis
    using assms(3) by (auto simp: main_send_def out_send_def mx_open_def Let_def split: list.splits option.splits if_splits)
next
  case (m_task t ch ch' mx1)
  then show ?thesis using task_act_mux [OF m_task(5)] assms(2,3) by (auto simp: mx_open_def)
next
  case (m_stray i t ch ch' mx1)
  then show ?thesis using task_act_mux [OF m_stray(6)] assms(2,3) by (auto simp: mx_open_def)
qed (use assms(2,3) in \<open>auto simp: mx_open_def\<close>)

lemma owners_kept:
  assumes "live_step ev em parse_mux parse_view b64 lv lv'" "i < length (lv_owners lv)"
  shows "i < length (lv_owners lv') \<and> os_chan (lv_owners lv' ! i) = os_chan (lv_owners lv ! i) \<and>
    os_deadline (lv_owners lv' ! i) = os_deadline (lv_owners lv ! i) \<and>
    mx_user (os_mux (lv_owners lv' ! i)) = mx_user (os_mux (lv_owners lv ! i))"
  using assms(1)
proof (cases rule: live_step_cases)
  case (l_owner k e mx ts)
  then show ?thesis using assms(2) mux_act_user [OF l_owner(3)] by (cases "i = k") (simp_all add: with_terms_def)
qed (use assms(2) in \<open>simp_all add: nth_append with_terms_def\<close>)

text \<open>C13: A connection is kept: an owner's connection ends in a step of its own loop and in no other, and there only when its
  deadline has passed or its session was ended, when its client says goodbye or is gone, when its client types into a
  terminal that does not take it (its queue is full, or its command thread is gone), or when the answer to an open
  finds the writer gone. Nothing else ends it: not another user, not a viewer, not a shell that exits, not a forward
  task that ends, not a reset, not a sweep.\<close>

theorem live_kept:
  assumes "live_does ev em parse_mux parse_view b64 what lv lv'" "i < length (lv_owners lv)"
    and "mx_open (os_mux (lv_owners lv ! i))" "\<not> mx_open (os_mux (lv_owners lv' ! i))"
  shows "what = Owner_does i Saw_due \<and>
      (os_deadline (lv_owners lv ! i) \<le> lv_now lv \<or> os_chan (lv_owners lv ! i) \<in> set (ap_gone (live_app lv))) \<or>
    (\<exists>msg. what = Owner_does i (Got msg) \<and> leaves msg (os_mux (lv_owners lv ! i)) (live_terms lv)) \<or>
    what = Owner_does i Queues \<and> \<not> mx_writer (os_mux (lv_owners lv ! i))"
  using assms(1)
proof (cases rule: live_does.cases)
  case (x_owner k e mx ts)
  have k: "i = k"
  proof (rule ccontr)
    assume "i \<noteq> k"
    then show False using assms(3,4) by (simp add: x_owner(2) with_terms_def)
  qed
  then have new: "os_mux (lv_owners lv' ! i) = mx" using assms(2) by (simp add: x_owner(2))
  from mux_act_cause [OF x_owner(4)] show ?thesis using assms(3,4) new k x_owner(1) by (auto simp: due_end_def)
qed (use assms(2-4) in \<open>simp_all add: nth_append with_terms_def\<close>)

lemma gone_kept:
  assumes "live_step ev em parse_mux parse_view b64 lv lv'" "live_ok ev lv"
  shows "set (ap_gone (live_app lv)) \<subseteq> set (ap_gone (live_app lv'))"
  using assms(1)
proof (cases rule: live_step_cases)
  case (l_attend sv')
  have "server_ok ev (lv_server lv)" using assms(2) by (simp add: live_ok_def)
  from attend_moves [OF l_attend(2) this] show ?thesis by (simp add: l_attend(1) moves_def)
qed simp_all

lemma logout_gone:
  assumes "authed_session ev d j app = (Some s, app)" "csrf_matches (s_csrf s) csrf"
    and "handle ev d j hs (Private (Logout csrf forget_field)) app = (Reply r, app1)"
  shows "s_chan s \<in> set (ap_gone app1)"
proof -
  obtain sid where cur: "current_session ev d j app = (Some (sid, s), app)" "hm_get (ss_map (ap_sessions app)) (ev_sk ev sid) = Some s"
    using authed_SomeD [OF assms(1)] by blast
  show ?thesis
    using assms
    by (auto simp: handle_def require_auth_def private_handler_def logout_def cur remove_session_def session_remove_def
        reply_def Let_def split: if_splits option.splits)
qed

text \<open>Steps of the kinds \<open>E\<close> of the \<open>i\<close>th owner's connection, everybody else standing still.\<close>

definition owner_acts ::
  "env \<Rightarrow> 's emulator \<Rightarrow> (string \<Rightarrow> control_frame option) \<Rightarrow> (string \<Rightarrow> (nat \<times> nat) option) \<Rightarrow> (u8 list \<Rightarrow> string) \<Rightarrow>
   nat \<Rightarrow> mux_event set \<Rightarrow> 's live \<Rightarrow> 's live \<Rightarrow> bool" where
  "owner_acts ev em parse_mux parse_view b64 i E lv lv' \<longleftrightarrow>
     (\<exists>e \<in> E. live_does ev em parse_mux parse_view b64 (Owner_does i e) lv lv')"

lemma owner_acts_live: "owner_acts ev em parse_mux parse_view b64 i E lv lv' \<Longrightarrow> lives ev em parse_mux parse_view b64 lv lv'"
  by (auto simp: owner_acts_def intro: y_step live_stepI)

definition with_mux :: "nat \<Rightarrow> mux \<Rightarrow> 's terminals \<Rightarrow> 's live \<Rightarrow> 's live" where
  "with_mux i mx ts lv = (with_terms ts lv)\<lparr>lv_owners := (lv_owners lv)[i := (lv_owners lv ! i)\<lparr>os_mux := mx\<rparr>]\<rparr>"

lemma with_mux_fields [simp]:
  "live_terms (with_mux i mx ts lv) = ts" "length (lv_owners (with_mux i mx ts lv)) = length (lv_owners lv)"
  "i < length (lv_owners lv) \<Longrightarrow> os_mux (lv_owners (with_mux i mx ts lv) ! i) = mx"
  "i < length (lv_owners lv) \<Longrightarrow> due_end (with_mux i mx ts lv) (lv_owners (with_mux i mx ts lv) ! i) = due_end lv (lv_owners lv ! i)"
  by (simp_all add: with_mux_def due_end_def with_terms_def)

lemma with_mux_again: "i < length (lv_owners lv) \<Longrightarrow> with_mux i mx' ts' (with_mux i mx ts lv) = with_mux i mx' ts' lv"
  by (simp add: with_mux_def with_terms_def)

lemma with_mux_same: "i < length (lv_owners lv) \<Longrightarrow> with_mux i (os_mux (lv_owners lv ! i)) (live_terms lv) lv = lv"
  by (simp add: with_mux_def with_terms_def)

lemma owner_runs:
  assumes "i < length (lv_owners lv)"
    and "(mux_own parse_mux b64 em (due_end lv (lv_owners lv ! i)) E ^^ n) (os_mux (lv_owners lv ! i), live_terms lv) (mx, ts)"
  shows "(owner_acts ev em parse_mux parse_view b64 i E ^^ n) lv (with_mux i mx ts lv)"
  using assms
proof (induction n arbitrary: lv)
  case 0
  then show ?case by (auto simp: with_mux_same)
next
  case (Suc n)
  from relpowp_Suc_D2 [OF Suc.prems(2)] obtain mx1 ts1 where
    1: "mux_own parse_mux b64 em (due_end lv (lv_owners lv ! i)) E (os_mux (lv_owners lv ! i), live_terms lv) (mx1, ts1)"
      "(mux_own parse_mux b64 em (due_end lv (lv_owners lv ! i)) E ^^ n) (mx1, ts1) (mx, ts)" by force
  then have "owner_acts ev em parse_mux parse_view b64 i E lv (with_mux i mx1 ts1 lv)"
    unfolding mux_own_def owner_acts_def with_mux_def by (blast intro: x_owner [OF Suc.prems(1)])
  moreover have "(owner_acts ev em parse_mux parse_view b64 i E ^^ n) (with_mux i mx1 ts1 lv) (with_mux i mx ts lv)"
    using Suc.IH [of "with_mux i mx1 ts1 lv"] Suc.prems(1) 1(2) by (simp add: with_mux_again)
  ultimately show ?case by (rule relpowp_Suc_I2)
qed

text \<open>C8: Logging out ends the session's connections: from the moment the logout is answered, whatever happens next, each of
  them has been told for good, and one that is still open can end without any message of its client, with no channel
  left: in one step when its loop is in its select; and in at most five when the loop waits to queue the answer to an
  open. That wait looks at nothing else, and it is over only when the writer has taken frames or is gone: a client that
  does not read delays the end of its own connection.\<close>

theorem live_logout:
  assumes "(lives ev em parse_mux parse_view b64)\<^sup>*\<^sup>* (live_new ev es) lv" "slots_per_user (ev_cfg ev) \<le> 256"
    and "authed_session ev d j (live_app lv) = (Some s, live_app lv)" "csrf_matches (s_csrf s) csrf"
    and "handle ev d j hs (Private (Logout csrf forget_field)) (live_app lv) = (Reply r, app1)"
    and "i < length (lv_owners lv)" "os_chan (lv_owners lv ! i) = s_chan s"
    and "(live_step ev em parse_mux parse_view b64)\<^sup>*\<^sup>* (lv\<lparr>lv_server := answer ev r app1 (lv_server lv)\<rparr>) lv'"
  shows "os_chan (lv_owners lv' ! i) = s_chan s \<and> s_chan s \<in> set (ap_gone (live_app lv')) \<and>
    (mx_open (os_mux (lv_owners lv' ! i)) \<longrightarrow>
      (\<exists>n lv''. n \<le> (if mx_main (os_mux (lv_owners lv' ! i)) = Serving then 1 else 5) \<and>
         (owner_acts ev em parse_mux parse_view b64 i {Saw_due, Queues, Writes} ^^ n) lv' lv'' \<and>
         \<not> mx_open (os_mux (lv_owners lv'' ! i)) \<and> mx_channels (os_mux (lv_owners lv'' ! i)) = []))"
proof -
  let ?lv = "lv\<lparr>lv_server := answer ev r app1 (lv_server lv)\<rparr>"
  have gone: "s_chan s \<in> set (ap_gone app1)" by (rule logout_gone [OF assms(3-5)])
  have ok: "live_ok ev ?lv" using live_ok_attend [OF live_reach_ok [OF assms(1,2)] v_reply [OF assms(5)]] .
  have i: "i < length (lv_owners lv') \<and> os_chan (lv_owners lv' ! i) = s_chan s \<and> s_chan s \<in> set (ap_gone (live_app lv')) \<and> live_ok ev lv'"
    using assms(8)
  proof (induction rule: rtranclp_induct)
    case base
    show ?case using assms(6,7) gone ok by (simp add: answer_def)
  next
    case (step lv1 lv2)
    then show ?case using owners_kept [OF step(2), of i] live_ok_step [OF step(2)] gone_kept [OF step(2)] by auto
  qed
  then have due: "due_end lv' (lv_owners lv' ! i)" by (simp add: due_end_def)
  have "mux_ok (os_mux (lv_owners lv' ! i)) (live_terms lv')" using i by (auto simp: live_ok_def owner_ok_def)
  note stops = mux_stops [OF this, of parse_mux b64 em]
  have "\<exists>n lv''. n \<le> (if mx_main (os_mux (lv_owners lv' ! i)) = Serving then 1 else 5) \<and>
      (owner_acts ev em parse_mux parse_view b64 i {Saw_due, Queues, Writes} ^^ n) lv' lv'' \<and>
      \<not> mx_open (os_mux (lv_owners lv'' ! i)) \<and> mx_channels (os_mux (lv_owners lv'' ! i)) = []"
    if op: "mx_open (os_mux (lv_owners lv' ! i))"
  proof -
    obtain n mx ts where n: "n \<le> (if mx_main (os_mux (lv_owners lv' ! i)) = Serving then 1 else 5)"
      "(mux_own parse_mux b64 em True {Saw_due, Queues, Writes} ^^ n) (os_mux (lv_owners lv' ! i), live_terms lv') (mx, ts)"
      "\<not> mx_open mx" "mx_channels mx = []" using stops [OF op] by blast
    have run: "(owner_acts ev em parse_mux parse_view b64 i {Saw_due, Queues, Writes} ^^ n) lv' (with_mux i mx ts lv')"
      by (rule owner_runs) (use i n(2) due in simp_all)
    show ?thesis by (rule exI [of _ n], rule exI [of _ "with_mux i mx ts lv'"]) (use i n run in simp)
  qed
  then show ?thesis using i by blast
qed

subsection \<open>What the shell wrote arrives\<close>

lemma owner_runs_lives:
  "(owner_acts ev em parse_mux parse_view b64 i E ^^ n) lv lv' \<Longrightarrow> (lives ev em parse_mux parse_view b64)\<^sup>*\<^sup>* lv lv'"
  using relpowp_imp_rtranclp [of n "owner_acts ev em parse_mux parse_view b64 i E" lv lv']
    mono_rtranclp [of "owner_acts ev em parse_mux parse_view b64 i E" "lives ev em parse_mux parse_view b64"] owner_acts_live
  by metis

text \<open>C11: What the shell wrote arrives: whatever has happened, a running channel whose client still reads, that has not been left
  more than the 64 chunks of the broadcast channel behind, that is not about to end and that no aborted task has mixed
  frames into can, by steps of its own forward task and of the connection's writer alone, bring its client up to date:
  the writer has then taken the whole output of the shell from the announced offset. It takes a step for each of the at
  most 512 frames that wait, two for each frame the task holds, and three for each chunk it is behind.\<close>

theorem live_delivers:
  assumes "(lives ev em parse_mux parse_view b64)\<^sup>*\<^sup>* (live_new ev es) lv" "slots_per_user (ev_cfg ev) \<le> 256"
    and "i < length (lv_owners lv)" "hm_get (mx_channels (os_mux (lv_owners lv ! i))) t = Some ch" "ch_run ch"
    and "mx_writer (os_mux (lv_owners lv ! i))" "\<not> ch_last ch" "t \<notin> set (mx_mixed (os_mux (lv_owners lv ! i)))"
    and "length (tm_log (ts_heap (live_terms lv) ! ch_term ch)) - ch_pos ch \<le> 64"
    and "length (concat (tm_log (ts_heap (live_terms lv) ! ch_term ch))) < 2 ^ 64"
  shows "\<exists>n lv' att. n \<le> 512 + 2 * length (ch_hold ch) + 3 * 64 \<and>
    (owner_acts ev em parse_mux parse_view b64 i {Forwards t, Writes} ^^ n) lv lv' \<and>
    client_view t (take (mx_sent (os_mux (lv_owners lv' ! i))) (mx_out (os_mux (lv_owners lv' ! i)))) =
      (Some (hello_json (Some t) att), drop (unat (at_base att)) (concat (tm_log (ts_heap (live_terms lv) ! ch_term ch)))) \<and>
    at_epoch att = tm_epoch (ts_heap (live_terms lv) ! ch_term ch)"
proof -
  let ?log = "tm_log (ts_heap (live_terms lv) ! ch_term ch)" and ?mux = "os_mux (lv_owners lv ! i)"
  have "lv_owners lv ! i \<in> set (lv_owners lv)" using assms(3) by simp
  then have ok: "mux_ok ?mux (live_terms lv)" using live_owner_aux [OF assms(1,2)] by blast
  let ?ch = "ch\<lparr>ch_hold := [], ch_pos := length ?log\<rparr>"
  obtain n mx where n: "n \<le> 512 + 2 * length (ch_hold ch) + 3 * 64"
    "(mux_own parse_mux b64 em (due_end lv (lv_owners lv ! i)) {Forwards t, Writes} ^^ n) (?mux, live_terms lv) (mx, live_terms lv)"
    "caught_up mx t ?ch" "mx_mixed mx = mx_mixed ?mux"
    using mux_delivers [OF ok assms(6,4,5,7)] assms(9) by (fastforce simp: channel_cap_def)
  let ?lv = "with_mux i mx (live_terms lv) lv"
  note run = owner_runs [OF assms(3) n(2), of ev parse_view]
  have "(lives ev em parse_mux parse_view b64)\<^sup>*\<^sup>* (live_new ev es) ?lv" using assms(1) owner_runs_lives [OF run] by (rule rtranclp_trans)
  moreover have "lv_owners ?lv ! i \<in> set (lv_owners ?lv)" "os_mux (lv_owners ?lv ! i) = mx" using assms(3) by simp_all
  ultimately have ok': "mux_ok mx (live_terms lv)" using live_owner_aux [OF _ assms(2)] with_mux_fields(1) by metis
  have get: "hm_get (mx_channels mx) t = Some ?ch" "mx_sent mx = length (mx_out mx)" "ch_run ?ch" "\<not> ch_last ?ch"
    using n(3) by (simp_all add: caught_up_def)
  have "in_stream t (mx_out mx) ?ch (live_terms lv)"
    using mux_okD(2) [OF ok' get(1)] get(3,4) n(4) assms(8) by (simp add: channel_ok_def)
  then obtain att where "fst (client_view t (mx_out mx)) = Some (hello_json (Some t) att)"
      "at_epoch att = tm_epoch (ts_heap (live_terms lv) ! ch_term ch)"
      "snd (client_view t (mx_out mx)) = drop (unat (at_base att)) (concat ?log)"
    using assms(10) by (auto simp: in_stream_def Let_def)
  then show ?thesis
    using run n(1) get(2) assms(3)
    by (intro exI [of _ n] exI [of _ ?lv] exI [of _ att]) (cases "client_view t (mx_out mx)", simp)
qed

subsection \<open>A concrete run\<close>

lemma live_attends:
  assumes "(attend ev)\<^sup>*\<^sup>* (lv_server lv) sv"
  shows "(live_step ev em parse_mux parse_view b64)\<^sup>*\<^sup>* lv (lv\<lparr>lv_server := sv\<rparr>)"
  using assms
proof (induction rule: rtranclp_induct)
  case (step sv sv')
  have "live_step ev em parse_mux parse_view b64 (lv\<lparr>lv_server := sv\<rparr>) (lv\<lparr>lv_server := sv, lv_server := sv'\<rparr>)"
    by (rule l_attend) (use step(2) in simp)
  then show ?case using step(3) by simp
qed simp

lemma live_attends_new:
  assumes "(attend ev)\<^sup>*\<^sup>* (server_new ev es) sv"
  shows "(lives ev em parse_mux parse_view b64)\<^sup>*\<^sup>* (live_new ev es) ((live_new ev es)\<lparr>lv_server := sv\<rparr>)"
proof -
  have "(live_step ev em parse_mux parse_view b64)\<^sup>*\<^sup>* (live_new ev es) ((live_new ev es)\<lparr>lv_server := sv\<rparr>)"
    using live_attends [of ev "live_new ev es" sv] assms by (simp add: live_new_def)
  then show ?thesis
    by (induction rule: rtranclp_induct) (auto intro: rtranclp.rtrancl_into_rtrancl y_step)
qed

text \<open>The user of \<open>toy_in\<close> opens the page, whose connection opens the first slot.\<close>

definition toy_page :: "unit live \<Rightarrow> owner_socket \<Rightarrow> channel \<Rightarrow> bool" where
  "toy_page lv sk ch \<longleftrightarrow> (lives toy_env unit_emulator toy_open toy_parse (\<lambda>_. []))\<^sup>*\<^sup>* (live_new toy_env enrol_new) lv \<and>
     live_app lv = toy_in\<lparr>ap_terms := toy_terms\<rparr> \<and> lv_owners lv = [sk] \<and> lv_viewers lv = [] \<and> lv_now lv = 0 \<and>
     (\<forall>i \<in> set (lv_taken lv). i < length (sv_answers (lv_server lv))) \<and>
     os_chan sk = 3 \<and> os_deadline sk = secs 603 \<and> os_mux sk = toy_opened ''local:u'' \<and>
     ch = channel_new (attach_cut None 0 (join_resized 80 24 toy_shell)) False"

lemma toy_opened_fields [simp]:
  "mx_user (toy_opened u) = u" "mx_main (toy_opened u) = Serving" "mx_writer (toy_opened u)" "mx_mixed (toy_opened u) = []"
  "mx_open (toy_opened u)"
  "hm_get (mx_channels (toy_opened u)) 0 = Some (channel_new (attach_cut None 0 (join_resized 80 24 toy_shell)) False)"
  by (simp_all add: toy_opened_def mux_new_def Let_def hm_get_def mx_open_def)

lemma channel_new_fields [simp]:
  "ch_term (channel_new a ro) = at_term a" "ch_ro (channel_new a ro) = ro" "ch_pos (channel_new a ro) = at_pos a"
  "ch_run (channel_new a ro)" "\<not> ch_last (channel_new a ro)" "ch_hold (channel_new a ro) = []"
  by (simp_all add: channel_new_def)

lemma toy_shell_log [simp]: "tm_log toy_shell = []"
  by (simp add: toy_shell_def term_new_def)

lemma l_owner_mux:
  "i < length (lv_owners lv) \<Longrightarrow>
   mux_act parse_mux b64 em (due_end lv (lv_owners lv ! i)) e (os_mux (lv_owners lv ! i), live_terms lv) (mx, ts) \<Longrightarrow>
   live_step ev em parse_mux parse_view b64 lv (with_mux i mx ts lv)"
  unfolding with_mux_def by (rule l_owner)

lemma toy_page_reached: "\<exists>lv sk ch. toy_page lv sk ch"
proof -
  let ?L = "lives toy_env unit_emulator toy_open toy_parse (\<lambda>_. [])" and ?l0 = "live_new toy_env enrol_new :: unit live"
  obtain sv where sv: "(attend toy_env)\<^sup>*\<^sup>* (server_new toy_env enrol_new) sv" "sv_app sv = toy_in"
    using toy_in_attended by blast
  have "attend toy_env sv (answer toy_env toy_mux_answer toy_in sv)"
    by (rule v_reply) (use toy_mux sv(2) in simp)
  from live_attends_new [OF rtranclp.rtrancl_into_rtrancl [of "attend toy_env", OF sv(1) this]]
  have 1: "?L\<^sup>*\<^sup>* ?l0 (?l0\<lparr>lv_server := answer toy_env toy_mux_answer toy_in sv\<rparr>)" .
  define l1 where "l1 = ?l0\<lparr>lv_server := answer toy_env toy_mux_answer toy_in sv\<rparr>"
  let ?os = "\<lparr>os_mux = mux_new ''local:u'', os_chan = 3, os_deadline = secs 603\<rparr>"
  define l2 where "l2 = l1\<lparr>lv_taken := length (sv_answers sv) # lv_taken l1, lv_owners := lv_owners l1 @ [?os]\<rparr>"
  have s2: "live_step toy_env unit_emulator toy_open toy_parse (\<lambda>_. []) l1 l2"
    unfolding l2_def
    by (rule l_open_owner) (simp_all add: l1_def answer_def live_new_def hsts_def toy_mux_answer_def)
  have f: "lv_owners l2 = [?os]" "live_app l2 = toy_in" "lv_viewers l2 = []" "lv_taken l2 = [length (sv_answers sv)]"
    "length (sv_answers (lv_server l2)) = Suc (length (sv_answers sv))"
    by (simp_all add: l2_def l1_def live_new_def answer_def)
  obtain evs where at: "attach unit_emulator toy_os ''local:u'' 0 80 24 None (ap_terms toy_in) =
      (Inr (attach_cut None 0 (join_resized 80 24 toy_shell)), evs, toy_terms)" by (rule toy_in_attach)
  let ?mx = "toy_opened ''local:u''"
  obtain mx1 mx2 where r: "mux_act toy_open (\<lambda>_. []) unit_emulator (due_end l2 ?os) (Got (Txt [])) (mux_new ''local:u'', ap_terms toy_in) (mx1, toy_terms)"
    "mux_act toy_open (\<lambda>_. []) unit_emulator (due_end l2 ?os) Queues (mx1, toy_terms) (mx2, toy_terms)"
    "mux_act toy_open (\<lambda>_. []) unit_emulator (due_end l2 ?os) Queues (mx2, toy_terms) (?mx, toy_terms)"
    using toy_opened_steps [OF at] by blast
  let ?step = "live_step toy_env unit_emulator toy_open toy_parse (\<lambda>_. [])"
  have o: "0 < length (lv_owners l2)" "lv_owners l2 ! 0 = ?os" by (simp_all add: f(1))
  have s3: "?step l2 (with_mux 0 mx1 toy_terms l2)" using o r(1) f(2) by (intro l_owner_mux) auto
  have s4: "?step (with_mux 0 mx1 toy_terms l2) (with_mux 0 mx2 toy_terms (with_mux 0 mx1 toy_terms l2))"
    using o r(2) by (intro l_owner_mux) auto
  have s5: "?step (with_mux 0 mx2 toy_terms l2) (with_mux 0 ?mx toy_terms (with_mux 0 mx2 toy_terms l2))"
    using o r(3) by (intro l_owner_mux) auto
  let ?l3 = "with_mux 0 ?mx toy_terms l2"
  have more: "?L\<^sup>*\<^sup>* a c" if "?L\<^sup>*\<^sup>* a b" "?step b c" for a b c
    using that(1) y_step [OF that(2)] by (rule rtranclp.rtrancl_into_rtrancl)
  have "?L\<^sup>*\<^sup>* ?l0 l2" using more [OF 1 s2 [unfolded l1_def]] .
  from more [OF this s3] have "?L\<^sup>*\<^sup>* ?l0 (with_mux 0 mx1 toy_terms l2)" .
  from more [OF this s4] have "?L\<^sup>*\<^sup>* ?l0 (with_mux 0 mx2 toy_terms l2)" unfolding with_mux_again [OF o(1)] .
  from more [OF this s5] have "?L\<^sup>*\<^sup>* ?l0 ?l3" unfolding with_mux_again [OF o(1)] .
  moreover have "lv_owners ?l3 = [?os\<lparr>os_mux := ?mx\<rparr>]" "live_app ?l3 = toy_in\<lparr>ap_terms := toy_terms\<rparr>" "lv_viewers ?l3 = []"
    "lv_now ?l3 = 0" "\<forall>i \<in> set (lv_taken ?l3). i < length (sv_answers (lv_server ?l3))"
    using f by (simp_all add: with_mux_def with_terms_def l2_def l1_def live_new_def)
  ultimately show ?thesis
    unfolding toy_page_def by (intro exI [of _ ?l3] exI [of _ "?os\<lparr>os_mux := ?mx\<rparr>"]) auto
qed

lemma toy_page_slots: "slots_per_user (ev_cfg toy_env) \<le> 256"
  by (simp add: toy_defs)

lemma toy_page_term: "toy_page lv sk ch \<Longrightarrow> ts_heap (live_terms lv) = [join_resized 80 24 toy_shell]"
  by (rule toy_in_attach) (simp add: toy_page_def)

theorem live_well_formed_witness:
  "\<exists>lv sk ch t. toy_page lv sk ch \<and> ts_heap (live_terms lv) = [t] \<and> length (tm_queue t) \<le> queue_cap \<and> buf (tm_sb t) = []"
proof -
  obtain lv sk ch where p: "toy_page lv sk ch" using toy_page_reached by blast
  then have "(lives toy_env unit_emulator toy_open toy_parse (\<lambda>_. []))\<^sup>*\<^sup>* (live_new toy_env enrol_new) lv"
    by (simp add: toy_page_def)
  note shape = live_well_formed [OF this toy_page_slots]
  have "tm_log (join_resized 80 24 toy_shell) = []"
    by (simp add: join_resized_def watch_subscribe_def try_send_def toy_shell_def term_new_def)
  then show ?thesis using shape p toy_page_term [OF p] by (intro exI [of _ lv] exI [of _ sk] exI [of _ ch] exI) auto
qed

theorem live_owner_witness:
  "\<exists>lv sk ch. toy_page lv sk ch \<and> in_stream 0 (mx_out (os_mux sk) @ ch_hold ch) ch (live_terms lv)"
proof -
  obtain lv sk ch where p: "toy_page lv sk ch" using toy_page_reached by blast
  then have reach: "(lives toy_env unit_emulator toy_open toy_parse (\<lambda>_. []))\<^sup>*\<^sup>* (live_new toy_env enrol_new) lv"
    and sk: "sk \<in> set (lv_owners lv)" "os_mux sk = toy_opened ''local:u''"
    and ch: "ch = channel_new (attach_cut None 0 (join_resized 80 24 toy_shell)) False" by (simp_all add: toy_page_def)
  have "hm_get (mx_channels (os_mux sk)) 0 = Some ch" "0 \<notin> set (mx_mixed (os_mux sk))" "ch_run ch" "\<not> ch_last ch"
    by (simp_all add: sk(2) ch)
  from live_owner [OF reach toy_page_slots sk(1) this(1)] this(2-4) p show ?thesis by blast
qed

theorem live_kept_witness:
  "\<exists>lv lv' sk ch. toy_page lv sk ch \<and> live_does toy_env unit_emulator toy_open toy_parse (\<lambda>_. []) (Owner_does 0 (Got Closing)) lv lv' \<and>
     \<not> mx_open (os_mux (lv_owners lv' ! 0)) \<and> leaves Closing (os_mux sk) (live_terms lv)"
proof -
  obtain lv sk ch where p: "toy_page lv sk ch" using toy_page_reached by blast
  have own: "lv_owners lv ! 0 = sk" "0 < length (lv_owners lv)" and sk: "os_mux sk = toy_opened ''local:u''"
    using p by (simp_all add: toy_page_def)
  have "mux_message toy_open unit_emulator None Closing (os_mux sk) (live_terms lv) = (mux_end (os_mux sk), live_terms lv)"
    by (simp add: mux_message_def)
  with m_message [of "os_mux sk" toy_open "\<lambda>_. []" unit_emulator "due_end lv sk" Closing "live_terms lv" None] sk
  have "mux_act toy_open (\<lambda>_. []) unit_emulator (due_end lv sk) (Got Closing) (os_mux sk, live_terms lv) (mux_end (os_mux sk), live_terms lv)"
    by simp
  with x_owner [OF own(2)] own(1) have step: "live_does toy_env unit_emulator toy_open toy_parse (\<lambda>_. []) (Owner_does 0 (Got Closing)) lv
      (with_mux 0 (mux_end (os_mux sk)) (live_terms lv) lv)" (is "live_does _ _ _ _ _ _ _ ?lv") by (simp add: with_mux_def)
  have "mx_open (os_mux (lv_owners lv ! 0))" "\<not> mx_open (os_mux (lv_owners ?lv ! 0))"
    using own sk by (simp_all add: mx_open_def mux_end_def)
  from live_kept [OF step own(2) this] own(1) have "leaves Closing (os_mux sk) (live_terms lv)" by simp
  then show ?thesis using p step \<open>\<not> mx_open (os_mux (lv_owners ?lv ! 0))\<close> by blast
qed

theorem live_logout_witness:
  "\<exists>lv lv' lv'' sk ch n. toy_page lv sk ch \<and> mx_open (os_mux (lv_owners (lv' :: unit live) ! 0)) \<and> n \<le> 1 \<and>
     (owner_acts toy_env unit_emulator toy_open toy_parse (\<lambda>_. []) 0 {Saw_due, Queues, Writes} ^^ n) lv' lv'' \<and>
     \<not> mx_open (os_mux (lv_owners lv'' ! 0))"
proof -
  obtain lv sk ch where p: "toy_page lv sk ch" using toy_page_reached by blast
  let ?s = "toy_session True ''local:u'' ''b'' 3"
  have app: "live_app lv = toy_in\<lparr>ap_terms := toy_terms\<rparr>" and own: "lv_owners lv = [sk]" and op: "os_mux sk = toy_opened ''local:u''"
    and reach: "(lives toy_env unit_emulator toy_open toy_parse (\<lambda>_. []))\<^sup>*\<^sup>* (live_new toy_env enrol_new) lv"
    using p by (simp_all add: toy_page_def)
  have au: "authed_session toy_env (toy_draw 60 ''y'') (toy_jar [''b'']) (live_app lv) = (Some ?s, live_app lv)"
    unfolding app by (simp add: authed_session_def toy_in_def toy_app_def toy_session_def toy_defs toy_session_ops)
  have cs: "csrf_matches (s_csrf ?s) ''cb''" by (simp add: csrf_matches_def toy_session_def session_fresh_def)
  obtain r app1 where h: "handle toy_env (toy_draw 60 ''y'') (toy_jar [''b'']) [] (Private (Logout ''cb'' None)) (live_app lv) = (Reply r, app1)"
    by (cases "require_auth toy_env (toy_draw 60 ''y'') (toy_jar [''b'']) [] (Logout ''cb'' None) (live_app lv)")
      (simp add: handle_def reply_def)
  have ch: "0 < length (lv_owners lv)" "os_chan (lv_owners lv ! 0) = s_chan ?s"
    using p by (simp_all add: toy_page_def toy_session_def session_fresh_def)
  let ?post = "lv\<lparr>lv_server := answer toy_env r app1 (lv_server lv)\<rparr>"
  have op: "mx_open (os_mux (lv_owners ?post ! 0))" "mx_main (os_mux (lv_owners ?post ! 0)) = Serving" using own op by simp_all
  from live_logout [OF reach toy_page_slots au cs h ch rtranclp.rtrancl_refl] op
  obtain n lv'' where "n \<le> 1" "(owner_acts toy_env unit_emulator toy_open toy_parse (\<lambda>_. []) 0 {Saw_due, Queues, Writes} ^^ n) ?post lv''"
    "\<not> mx_open (os_mux (lv_owners lv'' ! 0))" by auto
  with p op(1) show ?thesis by blast
qed

theorem live_delivers_witness:
  "\<exists>(lv :: unit live) lv' n att. ts_heap (live_terms lv) \<noteq> [] \<and>
     (owner_acts toy_env unit_emulator toy_open toy_parse (\<lambda>_. []) 0 {Forwards 0, Writes} ^^ n) lv lv' \<and>
     client_view 0 (take (mx_sent (os_mux (lv_owners lv' ! 0))) (mx_out (os_mux (lv_owners lv' ! 0)))) = (Some (hello_json (Some 0) att), drop (unat (at_base att)) [0x68])"
proof -
  obtain lv sk ch where p: "toy_page lv sk ch" using toy_page_reached by blast
  note heap = toy_page_term [OF p]
  have own: "lv_owners lv = [sk]" and reach: "(lives toy_env unit_emulator toy_open toy_parse (\<lambda>_. []))\<^sup>*\<^sup>* (live_new toy_env enrol_new) lv"
    and ch: "hm_get (mx_channels (os_mux sk)) 0 = Some ch" "ch_run ch" "mx_writer (os_mux sk)" "ch_term ch = 0" "ch_pos ch = 0"
      "\<not> ch_last ch" "0 \<notin> set (mx_mixed (os_mux sk))"
    using p by (simp_all add: toy_page_def)
  let ?t = "read_chunk unit_emulator [0x68] (ts_heap (live_terms lv) ! 0)"
  let ?lv = "with_terms (on_term 0 (\<lambda>_. ?t) (live_terms lv)) lv"
  have "tm_read (ts_heap (live_terms lv) ! 0) = Reading" by (simp add: heap join_resized_def watch_subscribe_def try_send_def toy_shell_def term_new_def)
  from l_thread [OF _ t_chunk [OF this]] heap
  have "live_step toy_env unit_emulator toy_open toy_parse (\<lambda>_. []) lv ?lv" by simp
  with reach have reach1: "(lives toy_env unit_emulator toy_open toy_parse (\<lambda>_. []))\<^sup>*\<^sup>* (live_new toy_env enrol_new) ?lv"
    using y_step by (meson rtranclp.rtrancl_into_rtrancl)
  have log: "tm_log (ts_heap (live_terms ?lv) ! ch_term ch) = [[0x68]]"
    by (simp add: ch(4) heap on_term_def read_chunk_def join_resized_def watch_subscribe_def try_send_def toy_shell_def term_new_def)
  have c: "0 < length (lv_owners ?lv)" "hm_get (mx_channels (os_mux (lv_owners ?lv ! 0))) 0 = Some ch" "mx_writer (os_mux (lv_owners ?lv ! 0))"
    "0 \<notin> set (mx_mixed (os_mux (lv_owners ?lv ! 0)))"
    using own ch by simp_all
  have "length (tm_log (ts_heap (live_terms ?lv) ! ch_term ch)) - ch_pos ch \<le> 64"
    "length (concat (tm_log (ts_heap (live_terms ?lv) ! ch_term ch))) < 2 ^ 64" unfolding log by simp_all
  from live_delivers [OF reach1 toy_page_slots c(1,2) ch(2) c(3) ch(6) c(4) this] obtain n lv' att where
    "(owner_acts toy_env unit_emulator toy_open toy_parse (\<lambda>_. []) 0 {Forwards 0, Writes} ^^ n) ?lv lv'"
    "client_view 0 (take (mx_sent (os_mux (lv_owners lv' ! 0))) (mx_out (os_mux (lv_owners lv' ! 0)))) = (Some (hello_json (Some 0) att), drop (unat (at_base att)) [0x68])"
    unfolding log by auto
  moreover have "ts_heap (live_terms ?lv) \<noteq> []" by (simp add: heap on_term_def)
  ultimately show ?thesis by blast
qed

text \<open>Someone follows the link; then the owner revokes it.\<close>

definition toy_soon :: world where
  "toy_soon = \<lparr>wd_now = 3050000000000, wd_tick = 0, wd_watch = \<lparr>w_value = False, w_closed = False\<rparr>\<rparr>"

definition toy_told :: world where
  "toy_told = toy_soon\<lparr>wd_watch := \<lparr>w_value = True, w_closed = False\<rparr>\<rparr>"

definition toy_watcher :: view_socket where
  "toy_watcher = \<lparr>vs_world = toy_soon,
     vs_view = (waiting toy_view_att)\<lparr>vw_lease := Some toy_view_lease, vw_due := Some 54000000000\<rparr>,
     vs_att = toy_view_att, vs_lease = toy_view_lease\<rparr>"

lemma toy_watcher_open:
  "viewer_open toy_soon toy_view_att True (Some toy_view_lease) ts = (vs_view toy_watcher, ts)"
  by (simp add: viewer_open_def toy_soon_def toy_view_lease_def lease_deadline_def expires_at_time_def add_time_def i64_max_def
      toy_watcher_def waiting_def)

lemma toy_live_viewer:
  "\<exists>lv ts. (lives toy_env unit_emulator toy_open toy_parse (\<lambda>_. []))\<^sup>*\<^sup>* (live_new toy_env enrol_new) lv \<and>
     lv_viewers lv = [toy_watcher] \<and> live_app lv = toy_shared\<lparr>ap_terms := ts\<rparr>"
proof (rule toy_view)
  fix r :: response and ts
  assume h: "handle toy_env (toy_draw 50 ''x'') (toy_jar []) toy_headers (Public (Access_ws toy_link None None))
      (toy_shared\<lparr>ap_terms := toy_terms\<rparr>) = (Reply r, toy_shared\<lparr>ap_terms := ts\<rparr>)"
    and r: "rs_body r = View_upgrade toy_view_att toy_view_lease"
  let ?L = "lives toy_env unit_emulator toy_open toy_parse (\<lambda>_. [])" and ?l0 = "live_new toy_env enrol_new :: unit live"
  obtain lv sk where lv: "?L\<^sup>*\<^sup>* ?l0 lv" "live_app lv = toy_in\<lparr>ap_terms := toy_terms\<rparr>" "lv_viewers lv = []"
    "\<forall>i \<in> set (lv_taken lv). i < length (sv_answers (lv_server lv))" using toy_page_reached unfolding toy_page_def by blast
  obtain r0 where "handle toy_env (toy_draw 4 ''c'') (toy_jar [''b'']) [] (Private (Share_slot ''cb'' 0 100 [])) (live_app lv) =
      (Reply r0, toy_shared\<lparr>ap_terms := toy_terms\<rparr>)"
    using toy_create_share lv(2) by auto
  then have s1: "attend toy_env (lv_server lv) (answer toy_env r0 (toy_shared\<lparr>ap_terms := toy_terms\<rparr>) (lv_server lv))" by (rule v_reply)
  define sv where "sv = answer toy_env r0 (toy_shared\<lparr>ap_terms := toy_terms\<rparr>) (lv_server lv)"
  have sv: "sv_app sv = toy_shared\<lparr>ap_terms := toy_terms\<rparr>" "\<forall>i \<in> set (lv_taken lv). i < length (sv_answers sv)"
    using lv(4) by (auto simp: sv_def answer_def)
  have s2: "attend toy_env sv (answer toy_env r (toy_shared\<lparr>ap_terms := ts\<rparr>) sv)"
    by (rule v_reply) (use h sv(1) in simp)
  define l1 where "l1 = lv\<lparr>lv_server := answer toy_env r (toy_shared\<lparr>ap_terms := ts\<rparr>) sv\<rparr>"
  have two: "?L\<^sup>*\<^sup>* lv l1"
    using y_step [OF l_attend [OF s1]] y_step [OF l_attend [of toy_env "lv\<lparr>lv_server := sv\<rparr>"]] s2
    by (simp add: l1_def sv_def [symmetric]) (meson rtranclp.rtrancl_into_rtrancl r_into_rtranclp)
  then have 1: "?L\<^sup>*\<^sup>* ?l0 l1" using lv(1) by (meson rtranclp_trans)
  have f: "live_app l1 = toy_shared\<lparr>ap_terms := ts\<rparr>" "lv_viewers l1 = []" "lv_taken l1 = lv_taken lv" using lv(3) by (simp_all add: l1_def answer_def)
  define l2 where "l2 = (with_terms ts l1)\<lparr>lv_taken := length (sv_answers sv) # lv_taken l1,
    lv_viewers := lv_viewers l1 @ [\<lparr>vs_world = toy_soon, vs_view = vs_view toy_watcher, vs_att = toy_view_att, vs_lease = toy_view_lease\<rparr>]\<rparr>"
  have "length (sv_answers sv) \<notin> set (lv_taken l1)" using sv(2) f(3) by auto
  then have "live_step toy_env unit_emulator toy_open toy_parse (\<lambda>_. []) l1 l2"
    unfolding l2_def
    by (intro l_open_viewer)
      (simp_all add: l1_def answer_def hsts_def r signalled_def toy_shared_def toy_in_def toy_app_def toy_watcher_open)
  then have "?L\<^sup>*\<^sup>* ?l0 l2" using 1 y_step by (meson rtranclp.rtrancl_into_rtrancl)
  moreover have "lv_viewers l2 = [toy_watcher]" by (simp add: l2_def f(2) toy_watcher_def)
  moreover have "live_app l2 = toy_shared\<lparr>ap_terms := ts\<rparr>" using f(1) by (simp add: l2_def with_terms_def)
  ultimately show ?thesis by blast
qed

theorem live_viewer_witness:
  "\<exists>lv :: unit live. lv_viewers lv = [toy_watcher] \<and> view_in_step toy_view_att (vs_view toy_watcher) (live_terms lv) \<and>
     Shared ''local:u'' 0 3104 \<in> set (ap_log (live_app lv))"
proof -
  obtain lv ts where lv: "(lives toy_env unit_emulator toy_open toy_parse (\<lambda>_. []))\<^sup>*\<^sup>* (live_new toy_env enrol_new) lv"
    "lv_viewers lv = [toy_watcher]" "live_app lv = toy_shared\<lparr>ap_terms := ts\<rparr>" using toy_live_viewer by blast
  have n: "slots_per_user (ev_cfg toy_env) \<le> 256" by (simp add: toy_defs)
  have "toy_watcher \<in> set (lv_viewers lv)" using lv(2) by simp
  from live_viewer [OF lv(1) n this] show ?thesis
    using lv(2) by (intro exI [of _ lv]) (simp add: toy_watcher_def toy_view_lease_def sends_on_def waiting_def)
qed

theorem live_revocation_witness:
  "\<exists>(lv :: unit live) (lv' :: unit live). lv_viewers lv = [toy_watcher] \<and> vw_phase (vs_view (hd (lv_viewers lv'))) \<noteq> vw_phase (vs_view toy_watcher) \<and>
     sent_over 4 lv' = sent_over 4 lv"
proof -
  obtain lv ts where lv: "(lives toy_env unit_emulator toy_open toy_parse (\<lambda>_. []))\<^sup>*\<^sup>* (live_new toy_env enrol_new) lv"
    "lv_viewers lv = [toy_watcher]" "live_app lv = toy_shared\<lparr>ap_terms := ts\<rparr>" using toy_live_viewer by blast
  have n: "slots_per_user (ev_cfg toy_env) \<le> 256" by (simp add: toy_defs)
  let ?s = "toy_session True ''local:u'' ''b'' 3"
  have au: "authed_session toy_env (toy_draw 60 ''y'') (toy_jar [''b'']) (live_app lv) = (Some ?s, live_app lv)"
    unfolding lv(3) by (simp add: authed_session_def toy_shared_def toy_in_def toy_app_def toy_session_def toy_defs toy_session_ops)
  have cs: "csrf_matches (s_csrf ?s) ''cb''" by (simp add: csrf_matches_def toy_session_def session_fresh_def)
  have g: "hm_get (ap_shares (live_app lv)) ''dc'' = Some toy_grant" "g_username toy_grant = s_username ?s" "g_chan toy_grant = 4"
    unfolding lv(3) by (simp_all add: toy_shared_def hm_get_def toy_grant_def toy_session_def session_fresh_def)
  obtain r app1 where h: "handle toy_env (toy_draw 60 ''y'') (toy_jar [''b'']) [] (Private (Revoke_share ''cb'' ''dc'')) (live_app lv) =
      (Reply r, app1)"
    by (cases "require_auth toy_env (toy_draw 60 ''y'') (toy_jar [''b'']) [] (Revoke_share ''cb'' ''dc'') (live_app lv)")
      (simp add: handle_def reply_def)
  let ?lv = "lv\<lparr>lv_server := answer toy_env r app1 (lv_server lv)\<rparr>"
  let ?w = "viewer_write toy_told True Written (vs_view toy_watcher) (live_terms ?lv)"
  have mv: "viewer_move toy_parse (\<lambda>_. []) unit_emulator toy_told (vs_view (lv_viewers ?lv ! 0), live_terms ?lv) (fst ?w, snd ?w)"
    by (simp add: lv(2)) (rule v_write, simp add: toy_watcher_def waiting_def)
  have "live_step toy_env unit_emulator toy_open toy_parse (\<lambda>_. []) ?lv
      ((with_terms (snd ?w) ?lv)\<lparr>lv_viewers := (lv_viewers ?lv)[0 := (lv_viewers ?lv ! 0)\<lparr>vs_world := toy_told, vs_view := fst ?w\<rparr>]\<rparr>)"
    (is "live_step _ _ _ _ _ _ ?lv'")
    by (rule l_viewer [OF _ _ _ mv]) (simp_all add: lv(2) later_def signalled_def toy_told_def toy_soon_def toy_watcher_def)
  from live_revocation [OF lv(1) n au cs g(1,2) h r_into_rtranclp, OF this] g(3)
  have "sent_over 4 ?lv' = sent_over 4 lv" by simp
  moreover have "vw_phase (fst ?w) = Over"
    by (simp add: viewer_write_def viewer_send_def guard_valid_def lease_valid_def lease_expired_def lease_revoked_def
        expires_at_time_def add_time_def i64_max_def toy_told_def toy_soon_def toy_watcher_def waiting_def toy_view_lease_def
        taken_def viewer_return_def)
  then have "vw_phase (vs_view (hd (lv_viewers ?lv'))) \<noteq> vw_phase (vs_view toy_watcher)"
    by (simp add: lv(2)) (simp add: toy_watcher_def waiting_def)
  ultimately show ?thesis using lv(2) by blast
qed

end
