(* ===== verification/Keyboard.thy ===== *)
theory Keyboard
  imports Live
begin

text \<open>
  The way in: from the binary frames of an owner's connection (\<open>mux_bridge\<close> in \<open>pty.rs\<close>) through the bounded queue of
  a terminal to the command thread that writes to the shell (\<open>spawn_terminal\<close> in \<open>terminals.rs\<close>). The way out is
  the subject of \<open>Pty\<close> and \<open>Viewer\<close>.

  Nothing is added to the model. What is typed into a terminal and what its thread has written are read off two
  successive states of it, and the abstract specification is a first-in first-out queue: what has been written,
  then what the thread holds, then what waits, is what was typed, in that order.
\<close>

subsection \<open>What a step of a terminal shows\<close>

definition running :: "'s terminal \<Rightarrow> bool" where
  "running t \<longleftrightarrow> (case tm_cmd t of Taking \<Rightarrow> True | Writing _ \<Rightarrow> True | _ \<Rightarrow> False)"

definition pending :: "'s terminal \<Rightarrow> u8 list list" where
  "pending t = in_hand t @ inputs (tm_queue t)"

definition typed :: "'s terminal \<Rightarrow> 's terminal \<Rightarrow> u8 list list" where
  "typed t t' = drop (length (inputs (tm_queue t))) (inputs (tm_queue t'))"

definition fed :: "'s terminal \<Rightarrow> 's terminal \<Rightarrow> u8 list list" where
  "fed t t' = (if tm_cmd t' = Taking then in_hand t else [])"

lemmas key_defs = running_def pending_def typed_def fed_def in_hand_def quiet_def

text \<open>The ways a terminal changes: nothing about its input, a step of its threads, the end of its queue, a frame accepted.\<close>

inductive moved :: "'s emulator \<Rightarrow> 's terminal \<Rightarrow> 's terminal \<Rightarrow> bool" for em where
  d_quiet: "quiet t t' \<Longrightarrow> moved em t t'"
| d_thread: "thread_step em t t' \<Longrightarrow> moved em t t'"
| d_hangup: "tm_cmd t = Taking \<Longrightarrow> tm_queue t = [] \<Longrightarrow> moved em t (cmd_disconnected t)"
| d_typed: "try_send (Input b) t = (True, t') \<Longrightarrow> moved em t t'"

lemma thread_keys:
  assumes "thread_step em t t'"
  shows "typed t t' = [] \<and> (running t' \<longrightarrow> running t \<and> pending t = fed t t' @ pending t') \<and> (\<not> running t' \<longrightarrow> fed t t' = [])"
  using assms
proof (cases rule: thread_step.cases)
  case t_take
  then show ?thesis
    by (cases "tm_queue t"; cases "hd (tm_queue t)") (auto simp: key_defs cmd_take_def)
next
  case (t_written b ok)
  then show ?thesis by (cases ok) (auto simp: key_defs cmd_written_def)
qed (auto simp: key_defs read_chunk_def read_mark_def read_notify_def read_nudge_def watch_send_def try_send_def cmd_kill_def
    signal_child_def cmd_retire_def cmd_reap_def split: cmd_phase.splits)
lemma moved_keys:
  assumes "moved em t t'"
  shows "(running t' \<longrightarrow> running t \<and> pending t @ typed t t' = fed t t' @ pending t') \<and>
    (\<not> running t' \<longrightarrow> fed t t' = []) \<and> length (typed t t') \<le> 1"
  using assms
proof (cases rule: moved.cases)
  case d_thread
  then show ?thesis using thread_keys by fastforce
next
  case d_hangup
  then show ?thesis by (simp add: key_defs cmd_disconnected_def)
next
  case (d_typed b)
  then show ?thesis by (auto simp: key_defs try_send_def split: if_splits cmd_phase.splits)
qed (auto simp: key_defs split: cmd_phase.splits)

subsection \<open>Only the owner types\<close>

text \<open>An owner's connection that may write to the terminal \<open>a\<close>: an open channel, not switched to read-only.\<close>

definition may_type :: "'s live \<Rightarrow> nat \<Rightarrow> owner_socket \<Rightarrow> bool" where
  "may_type lv a sk \<longleftrightarrow> sk \<in> set (lv_owners lv) \<and>
     (\<exists>j ch. hm_get (mx_channels (os_mux sk)) j = Some ch \<and> ch_term ch = a \<and> \<not> ch_ro ch)"

abbreviation term_at :: "'s live \<Rightarrow> nat \<Rightarrow> 's terminal" where
  "term_at lv a \<equiv> ts_heap (live_terms lv) ! a"

lemma all_quiet_at: "all_quiet ts ts' \<Longrightarrow> a < length (ts_heap ts) \<Longrightarrow> quiet (ts_heap ts ! a) (ts_heap ts' ! a)"
  by (simp add: all_quiet_def)

lemma on_term_at: "ts_heap (on_term b f ts) ! a = (if a = b \<and> a < length (ts_heap ts) then f (ts_heap ts ! a) else ts_heap ts ! a)"
  by (simp add: on_term_heap nth_list_update) (metis list_update_beyond not_le nth_list_update_neq)

lemma moved_on_term:
  assumes "a < length (ts_heap ts)" "moved em (ts_heap ts ! b) (f (ts_heap ts ! b))"
  shows "moved em (ts_heap ts ! a) (ts_heap (on_term b f ts) ! a)"
  using assms by (simp add: on_term_at d_quiet)

lemma untouched_quiet: "untouched em t t' \<Longrightarrow> quiet t t'"
  by (auto simp: untouched_def quiet_def)

lemma inert_quiet: "inert em ts ts' \<Longrightarrow> all_quiet ts ts'"
  by (auto simp: inert_def all_quiet_def list_all2_conv_all_nth intro: untouched_quiet)

lemma attend_quiet:
  assumes "attend ev sv sv'" "server_ok ev sv"
  shows "all_quiet (ap_terms (sv_app sv)) (ap_terms (sv_app sv'))"
  using attend_moves [OF assms] by (simp add: moves_def)

lemma live_step_moved:
  assumes "live_step ev em parse_mux parse_view b64 lv lv'" "live_ok ev lv" "a < length (ts_heap (live_terms lv))"
  shows "moved em (term_at lv a) (term_at lv' a) \<and>
    (typed (term_at lv a) (term_at lv' a) \<noteq> [] \<longrightarrow> (\<exists>sk. may_type lv a sk))"
proof -
  have q: ?thesis if "quiet (term_at lv a) (term_at lv' a)"
    using that by (simp add: d_quiet key_defs)
  show ?thesis
    using assms(1)
  proof (cases rule: live_step_cases)
    case (l_attend sv')
    have "server_ok ev (lv_server lv)" using assms(2) by (simp add: live_ok_def)
    from all_quiet_at [OF attend_quiet [OF l_attend(2) this] assms(3)] show ?thesis by (intro q) (simp add: l_attend(1))
  next
    case (l_thread b t')
    have "moved em (term_at lv a) (term_at lv' a)"
      using moved_on_term [OF assms(3), of em b "\<lambda>_. t'"] d_thread [OF l_thread(3)] by (simp add: l_thread(1))
    moreover have "typed (term_at lv a) (term_at lv' a) = []"
      using thread_keys [OF l_thread(3)] by (simp add: l_thread(1) on_term_at) (simp add: typed_def)
    ultimately show ?thesis by simp
  next
    case (l_hangup b)
    have "moved em (term_at lv a) (term_at lv' a)"
      using moved_on_term [OF assms(3), of em b cmd_disconnected] d_hangup [OF l_hangup(3,4)] by (simp add: l_hangup(1))
    moreover have "typed (term_at lv a) (term_at lv' a) = []"
      by (simp add: l_hangup(1) on_term_at typed_def cmd_disconnected_def)
    ultimately show ?thesis by simp
  next
    case (l_open_viewer i att l wd vw ts)
    have "all_quiet (live_terms lv) ts"
      using l_open_viewer(6)
      by (auto simp: viewer_open_def viewer_return_def Let_def all_quiet_on_term split: option.splits)
    from all_quiet_at [OF this assms(3)] show ?thesis by (intro q) (simp add: l_open_viewer(1) with_terms_def)
  next
    case (l_owner i e mx ts)
    let ?sk = "lv_owners lv ! i"
    have "mux_ok (os_mux ?sk) (live_terms lv)" using assms(2) l_owner(2) by (simp add: live_ok_def owner_ok_def)
    from mux_act_types [OF l_owner(3) this] show ?thesis
    proof (elim disjE exE conjE)
      assume "all_quiet (live_terms lv) ts"
      from all_quiet_at [OF this assms(3)] show ?thesis by (intro q) (simp add: l_owner(1) with_terms_def)
    next
      fix tag :: u8 and keys
      assume "types (os_mux ?sk) (live_terms lv) (unat tag) keys ts"
      then obtain ch t' where t: "hm_get (mx_channels (os_mux ?sk)) (unat tag) = Some ch" "\<not> ch_ro ch"
          "try_send (Input keys) (term_at lv (ch_term ch)) = (True, t')" "ts = on_term (ch_term ch) (\<lambda>_. t') (live_terms lv)"
        by (auto simp: types_def)
      have new: "term_at lv' a = ts_heap ts ! a" by (simp add: l_owner(1) with_terms_def)
      have "moved em (term_at lv a) (ts_heap ts ! a)"
        unfolding t(4) by (rule moved_on_term [OF assms(3)]) (rule d_typed [OF t(3)])
      moreover have "may_type lv a ?sk" if "a = ch_term ch" using l_owner(2) t that by (auto simp: may_type_def)
      moreover have "typed (term_at lv a) (ts_heap ts ! a) = []" if "a \<noteq> ch_term ch"
        using that by (simp add: t(4) on_term_at typed_def)
      ultimately show ?thesis unfolding new by blast
    qed
  next
    case (l_viewer i wd vw ts)
    have "vw_ro (vs_view (lv_viewers lv ! i))" using assms(2) l_viewer(2) by (simp add: live_ok_def watcher_ok_def lawfully_def)
    from all_quiet_at [OF inert_quiet [OF viewer_move_inert [OF l_viewer(5) this]] assms(3)]
    show ?thesis by (intro q) (simp add: l_viewer(1) with_terms_def)
  qed (rule q, simp)+
qed

lemma live_heap_kept:
  assumes "live_step ev em parse_mux parse_view b64 lv lv'" "live_ok ev lv"
  shows "length (ts_heap (live_terms lv)) \<le> length (ts_heap (live_terms lv')) \<and>
    (\<forall>v j a. slot_of (live_terms lv') v j = Some a \<longrightarrow> a < length (ts_heap (live_terms lv)) \<longrightarrow> slot_of (live_terms lv) v j = Some a)"
  using live_step_extends [OF assms] by (simp add: extends_def grows_def)

text \<open>C9: Only the owner types: whenever the running server takes something as input for a terminal, it comes from an open
  connection with a channel to that terminal which is not read-only; that connection belongs to a user some session
  was logged in for, and the terminal is in no slot of anybody else.\<close>

theorem only_owner_types:
  assumes "(lives ev em parse_mux parse_view b64)\<^sup>*\<^sup>* (live_new ev es) lv" "slots_per_user (ev_cfg ev) \<le> 256"
    and "live_step ev em parse_mux parse_view b64 lv lv'"
    and "a < length (ts_heap (live_terms lv))" "typed (term_at lv a) (term_at lv' a) \<noteq> []"
  shows "\<exists>sk k. may_type lv a sk \<and> full_in (ap_log (live_app lv)) k (mx_user (os_mux sk)) \<and>
    (\<forall>v i. slot_of (live_terms lv) v i = Some a \<longrightarrow> v = mx_user (os_mux sk))"
proof -
  have ok: "live_ok ev lv" by (rule live_reach_ok [OF assms(1,2)])
  obtain sk where sk: "may_type lv a sk" using live_step_moved [OF assms(3) ok assms(4)] assms(5) by blast
  then obtain j ch where ch: "sk \<in> set (lv_owners lv)" "hm_get (mx_channels (os_mux sk)) j = Some ch" "ch_term ch = a"
    by (auto simp: may_type_def)
  have "owner_ok (ap_log (live_app lv)) (live_terms lv) sk" using ok ch(1) by (simp add: live_ok_def)
  then show ?thesis using sk channel_slot [OF _ ch(2)] ch(3) unfolding owner_ok_def by metis
qed

subsection \<open>First in, first out\<close>

text \<open>A run of the server, with what was typed into the terminal \<open>a\<close> and what its thread has written since the start of it.\<close>

inductive keys ::
  "env \<Rightarrow> 's emulator \<Rightarrow> (string \<Rightarrow> control_frame option) \<Rightarrow> (string \<Rightarrow> (nat \<times> nat) option) \<Rightarrow> (u8 list \<Rightarrow> string) \<Rightarrow>
   nat \<Rightarrow> 's live \<Rightarrow> 's live \<Rightarrow> u8 list list \<Rightarrow> u8 list list \<Rightarrow> bool"
  for ev em parse_mux parse_view b64 a lv0 where
  k_start: "keys ev em parse_mux parse_view b64 a lv0 lv0 [] []"
| k_step: "keys ev em parse_mux parse_view b64 a lv0 lv ty fd \<Longrightarrow> live_step ev em parse_mux parse_view b64 lv lv' \<Longrightarrow>
    keys ev em parse_mux parse_view b64 a lv0 lv' (ty @ typed (term_at lv a) (term_at lv' a)) (fd @ fed (term_at lv a) (term_at lv' a))"

definition fifo :: "u8 list list \<Rightarrow> u8 list list \<Rightarrow> 's terminal \<Rightarrow> bool" where
  "fifo ty fd t \<longleftrightarrow> (\<exists>rest. ty = fd @ rest \<and> (running t \<longrightarrow> rest = pending t))"

lemma fifo_moved:
  assumes "fifo ty fd t" "moved em t t'"
  shows "fifo (ty @ typed t t') (fd @ fed t t') t'"
  using assms(1) moved_keys [OF assms(2)] unfolding fifo_def by (cases "running t'") auto

lemma keys_run:
  assumes "keys ev em parse_mux parse_view b64 a lv0 lv ty fd" "live_ok ev lv0" "a < length (ts_heap (live_terms lv0))"
  shows "live_ok ev lv \<and> a < length (ts_heap (live_terms lv)) \<and> fifo (pending (term_at lv0 a) @ ty) fd (term_at lv a)"
  using assms
proof (induction rule: keys.induct)
  case k_start
  then show ?case by (simp add: fifo_def)
next
  case (k_step lv ty fd lv')
  then have IH: "live_ok ev lv" "a < length (ts_heap (live_terms lv))" "fifo (pending (term_at lv0 a) @ ty) fd (term_at lv a)" by auto
  have "moved em (term_at lv a) (term_at lv' a)" using live_step_moved [OF k_step(2) IH(1,2)] by blast
  from fifo_moved [OF IH(3) this] show ?case
    using live_ok_step [OF k_step(2) IH(1)] live_heap_kept [OF k_step(2) IH(1)] IH(2) by simp
qed

text \<open>C10: The keyboard is a queue: over any run of the whole server, what the shell has been given is a prefix of what was waiting
  and then typed, in that order, nothing twice and nothing between; and while the command thread serves its
  queue the rest is exactly what it holds and what waits, never more than the queue has room for.\<close>

theorem keyboard_fifo:
  assumes "(lives ev em parse_mux parse_view b64)\<^sup>*\<^sup>* (live_new ev es) lv0" "slots_per_user (ev_cfg ev) \<le> 256"
    and "a < length (ts_heap (live_terms lv0))" "keys ev em parse_mux parse_view b64 a lv0 lv ty fd"
  shows "(\<exists>rest. pending (term_at lv0 a) @ ty = fd @ rest \<and> (running (term_at lv a) \<longrightarrow> rest = pending (term_at lv a))) \<and>
    length (pending (term_at lv a)) \<le> Suc queue_cap"
proof -
  have ok: "live_ok ev lv" "a < length (ts_heap (live_terms lv))" "fifo (pending (term_at lv0 a) @ ty) fd (term_at lv a)"
    using keys_run [OF assms(4) live_reach_ok [OF assms(1,2)] assms(3)] by auto
  have "term_ok (term_at lv a)" using ok(1,2) pools_okD(3) by (auto simp: live_ok_def server_ok_def app_ok_def)
  moreover have "length (inputs q) \<le> length q" for q
    by (induction q) (auto simp: inputs_def split: pty_cmd.split)
  ultimately have "length (inputs (tm_queue (term_at lv a))) \<le> queue_cap" by (meson le_trans term_ok_def)
  moreover have "length (in_hand (term_at lv a)) \<le> 1" by (simp add: in_hand_def split: cmd_phase.split)
  ultimately show ?thesis using ok(3) by (simp add: fifo_def pending_def)
qed

subsection \<open>What was typed arrives\<close>

text \<open>A step of the threads of the terminal \<open>a\<close>, everybody else standing still.\<close>

definition own_step :: "'s emulator \<Rightarrow> nat \<Rightarrow> 's live \<Rightarrow> 's live \<Rightarrow> bool" where
  "own_step em a lv lv' \<longleftrightarrow>
     (\<exists>t'. thread_step em (term_at lv a) t' \<and> lv' = with_terms (on_term a (\<lambda>_. t') (live_terms lv)) lv)"

definition keys_left :: "'s terminal \<Rightarrow> nat" where
  "keys_left t = 2 * length (tm_queue t) + (if tm_cmd t = Taking then 0 else 1)"

lemma serves_on:
  assumes "running t" "Kill \<notin> set (tm_queue t)" "keys_left t \<noteq> 0"
  shows "\<exists>t'. thread_step em t t' \<and> running t' \<and> Kill \<notin> set (tm_queue t') \<and> keys_left t' < keys_left t"
proof (cases "tm_cmd t")
  case Taking
  with assms(3) have "tm_queue t \<noteq> []" by (auto simp: keys_left_def)
  moreover from this have "running (cmd_take t) \<and> Kill \<notin> set (tm_queue (cmd_take t)) \<and> keys_left (cmd_take t) < keys_left t"
    using assms(2) Taking by (cases "tm_queue t"; cases "hd (tm_queue t)") (auto simp: cmd_take_def running_def keys_left_def)
  ultimately show ?thesis using t_take [OF Taking] by blast
next
  case (Writing b)
  then have "running (cmd_written True t) \<and> Kill \<notin> set (tm_queue (cmd_written True t)) \<and> keys_left (cmd_written True t) < keys_left t"
    using assms(2) by (simp add: cmd_written_def running_def keys_left_def)
  then show ?thesis using t_written [OF Writing] by blast
qed (use assms(1) in \<open>simp_all add: running_def\<close>)

lemma own_step_live:
  "own_step em a lv lv' \<Longrightarrow> a < length (ts_heap (live_terms lv)) \<Longrightarrow> live_step ev em parse_mux parse_view b64 lv lv'"
  by (auto simp: own_step_def intro: l_thread)

lemma keys_Cons:
  assumes "keys ev em parse_mux parse_view b64 a lv1 lv2 ty fd" "live_step ev em parse_mux parse_view b64 lv lv1"
  shows "keys ev em parse_mux parse_view b64 a lv lv2 (typed (term_at lv a) (term_at lv1 a) @ ty) (fed (term_at lv a) (term_at lv1 a) @ fd)"
  using assms(1)
proof (induction rule: keys.induct)
  case k_start
  then show ?case using keys.k_step [OF keys.k_start assms(2)] by simp
next
  case (k_step lv2 ty fd lv3)
  from keys.k_step [OF k_step(3,2)] show ?case by simp
qed

lemma serves_all:
  assumes "a < length (ts_heap (live_terms lv))" "running (term_at lv a)" "Kill \<notin> set (tm_queue (term_at lv a))"
  shows "\<exists>n lv' fd. n \<le> keys_left (term_at lv a) \<and> (own_step em a ^^ n) lv lv' \<and>
    keys ev em parse_mux parse_view b64 a lv lv' [] fd \<and> running (term_at lv' a) \<and> pending (term_at lv' a) = []"
  using assms
proof (induction "keys_left (term_at lv a)" arbitrary: lv rule: less_induct)
  case less
  show ?case
  proof (cases "keys_left (term_at lv a) = 0")
    case True
    then have "tm_queue (term_at lv a) = []" "tm_cmd (term_at lv a) = Taking" by (auto simp: keys_left_def split: if_splits)
    then show ?thesis
      using less.prems(2) k_start by (intro exI [of _ 0] exI [of _ lv] exI [of _ "[]"]) (simp add: pending_def in_hand_def k_start)
  next
    case False
    from serves_on [OF less.prems(2,3) this, of em] obtain t' where
      t': "thread_step em (term_at lv a) t'" "running t'" "Kill \<notin> set (tm_queue t')" "keys_left t' < keys_left (term_at lv a)" by blast
    let ?lv = "with_terms (on_term a (\<lambda>_. t') (live_terms lv)) lv"
    have own: "own_step em a lv ?lv" using t'(1) by (auto simp: own_step_def)
    have at: "term_at ?lv a = t'" "a < length (ts_heap (live_terms ?lv))" using less.prems(1) by (simp_all add: on_term_at)
    from less.hyps [of ?lv] t' at obtain n lv' fd where
      n: "n \<le> keys_left t'" "(own_step em a ^^ n) ?lv lv'" "keys ev em parse_mux parse_view b64 a ?lv lv' [] fd"
        "running (term_at lv' a)" "pending (term_at lv' a) = []" by auto
    have "typed (term_at lv a) t' = []" using thread_keys [OF t'(1)] by simp
    then have "keys ev em parse_mux parse_view b64 a lv lv' [] (fed (term_at lv a) t' @ fd)"
      using keys_Cons [OF n(3) own_step_live [OF own less.prems(1)]] unfolding at(1) by simp
    moreover have "(own_step em a ^^ Suc n) lv lv'" using relpowp_Suc_I2 [OF own n(2)] .
    moreover have "Suc n \<le> keys_left (term_at lv a)" using n(1) t'(4) by simp
    ultimately show ?thesis using n(4,5) by blast
  qed
qed

text \<open>C12: What was typed arrives: whatever the state of the server, a terminal whose command thread serves its queue and that
  nobody has stopped can, with at most 257 steps of that thread alone, write everything that waits, exactly as it
  was typed and in that order.\<close>

theorem keyboard_drains:
  assumes "(lives ev em parse_mux parse_view b64)\<^sup>*\<^sup>* (live_new ev es) lv" "slots_per_user (ev_cfg ev) \<le> 256"
    and "a < length (ts_heap (live_terms lv))" "running (term_at lv a)" "Kill \<notin> set (tm_queue (term_at lv a))"
  shows "\<exists>n lv'. n \<le> 257 \<and> (own_step em a ^^ n) lv lv' \<and>
    keys ev em parse_mux parse_view b64 a lv lv' [] (pending (term_at lv a)) \<and> pending (term_at lv' a) = []"
proof -
  have ok: "live_ok ev lv" by (rule live_reach_ok [OF assms(1,2)])
  obtain n lv' fd where n: "n \<le> keys_left (term_at lv a)" "(own_step em a ^^ n) lv lv'"
    "keys ev em parse_mux parse_view b64 a lv lv' [] fd" "running (term_at lv' a)" "pending (term_at lv' a) = []"
    using serves_all [OF assms(3-5)] by blast
  have "term_ok (term_at lv a)" using ok assms(3) pools_okD(3) by (auto simp: live_ok_def server_ok_def app_ok_def)
  then have "keys_left (term_at lv a) \<le> 257" by (simp add: keys_left_def term_ok_def queue_cap_def)
  then have "n \<le> 257" using n(1) by simp
  moreover have "fd = pending (term_at lv a)" using keys_run [OF n(3) ok assms(3)] n(4,5) by (simp add: fifo_def)
  ultimately show ?thesis using n(2,3,5) by blast
qed

subsection \<open>A key on the concrete server\<close>

lemma toy_typed:
  "\<exists>lv lv' sk ch. toy_page lv sk ch \<and> live_step toy_env unit_emulator toy_open toy_parse (\<lambda>_. []) lv lv' \<and>
     length (ts_heap (live_terms lv)) = 1 \<and> length (ts_heap (live_terms lv')) = 1 \<and> running (term_at lv' 0) \<and>
     pending (term_at lv 0) = [] \<and> typed (term_at lv 0) (term_at lv' 0) = [[0x61]] \<and> pending (term_at lv' 0) = [[0x61]] \<and>
     Kill \<notin> set (tm_queue (term_at lv' 0))"
proof -
  obtain lv sk ch where p: "toy_page lv sk ch" using toy_page_reached by blast
  note heap = toy_page_term [OF p]
  have own: "lv_owners lv ! 0 = sk" "0 < length (lv_owners lv)" and op: "mx_main (os_mux sk) = Serving"
    and ch: "hm_get (mx_channels (os_mux sk)) 0 = Some ch" "ch_term ch = 0" "\<not> ch_ro ch"
    using p by (simp_all add: toy_page_def)
  let ?t = "join_resized 80 24 toy_shell" and ?ts = "live_terms lv"
  define t' where "t' = snd (try_send (Input [0x61]) ?t)"
  have q: "tm_queue ?t = [Resize_to 80 24]" "tm_cmd ?t = Taking" "try_send (Input [0x61]) ?t = (True, t')"
    "tm_queue t' = [Resize_to 80 24, Input [0x61]]" "tm_cmd t' = Taking"
    by (simp_all add: t'_def join_resized_def watch_subscribe_def try_send_def toy_shell_def term_new_def queue_cap_def)
  have r: "mux_message toy_open unit_emulator None (Bin [0, 0x61]) (os_mux sk) ?ts = (os_mux sk, on_term 0 (\<lambda>_. t') ?ts)"
    using ch q(3) by (simp add: mux_message_def mux_input_def heap)
  have "mux_act toy_open (\<lambda>_. []) unit_emulator (due_end lv (lv_owners lv ! 0)) (Got (Bin [0, 0x61])) (os_mux (lv_owners lv ! 0), ?ts)
      (os_mux sk, on_term 0 (\<lambda>_. t') ?ts)"
    unfolding own r [symmetric] by (rule m_message [OF op])
  note step = l_owner [OF own(2) this]
  let ?lv = "(with_terms (on_term 0 (\<lambda>_. t') ?ts) lv)\<lparr>lv_owners := (lv_owners lv)[0 := (lv_owners lv ! 0)\<lparr>os_mux := os_mux sk\<rparr>]\<rparr>"
  have "ts_heap (live_terms ?lv) = [t']" by (simp add: heap on_term_heap with_terms_def)
  then show ?thesis
    using p step q heap by (intro exI [of _ lv] exI [of _ ?lv] exI [of _ sk] exI [of _ ch]) (simp add: key_defs)
qed

theorem only_owner_types_witness:
  "\<exists>lv sk. may_type lv 0 sk \<and> mx_user (os_mux sk) = ''local:u'' \<and> ts_heap (live_terms (lv :: unit live)) \<noteq> []"
proof -
  obtain lv lv' sk ch where t: "toy_page lv sk ch" "live_step toy_env unit_emulator toy_open toy_parse (\<lambda>_. []) lv lv'"
    "length (ts_heap (live_terms lv)) = 1" "typed (term_at lv 0) (term_at lv' 0) = [[0x61]]" using toy_typed by blast
  then have reach: "(lives toy_env unit_emulator toy_open toy_parse (\<lambda>_. []))\<^sup>*\<^sup>* (live_new toy_env enrol_new) lv"
    and own: "lv_owners lv = [sk]" "mx_user (os_mux sk) = ''local:u''" by (simp_all add: toy_page_def)
  have "0 < length (ts_heap (live_terms lv))" "typed (term_at lv 0) (term_at lv' 0) \<noteq> []" using t(3,4) by simp_all
  from only_owner_types [OF reach toy_page_slots t(2) this] obtain sk' where "may_type lv 0 sk'" by blast
  moreover from this have "sk' = sk" using own(1) by (simp add: may_type_def)
  moreover have "ts_heap (live_terms lv) \<noteq> []" using t(3) by auto
  ultimately show ?thesis using own(2) by blast
qed

lemma toy_keys:
  assumes "live_step ev em parse_mux parse_view b64 lv lv'"
  shows "keys ev em parse_mux parse_view b64 a lv lv' (typed (term_at lv a) (term_at lv' a)) (fed (term_at lv a) (term_at lv' a))"
  using k_step [OF k_start assms] by simp

theorem keyboard_fifo_witness:
  "\<exists>lv lv' :: unit live. \<exists>fd rest. pending (term_at lv 0) @ [[0x61]] = fd @ rest \<and> rest = pending (term_at lv' 0) \<and> rest \<noteq> []"
proof -
  obtain lv lv' sk ch where t: "toy_page lv sk ch" "live_step toy_env unit_emulator toy_open toy_parse (\<lambda>_. []) lv lv'"
    "length (ts_heap (live_terms lv)) = 1" "typed (term_at lv 0) (term_at lv' 0) = [[0x61]]" "running (term_at lv' 0)"
    "pending (term_at lv' 0) = [[0x61]]" using toy_typed by blast
  then have reach: "(lives toy_env unit_emulator toy_open toy_parse (\<lambda>_. []))\<^sup>*\<^sup>* (live_new toy_env enrol_new) lv"
    by (simp add: toy_page_def)
  have "0 < length (ts_heap (live_terms lv))" using t(3) by simp
  from keyboard_fifo [OF reach toy_page_slots this toy_keys [OF t(2)]] show ?thesis
    using t(4-6) by (metis not_Cons_self2)
qed

theorem keyboard_drains_witness:
  "\<exists>n (lv :: unit live) lv'. (own_step unit_emulator 0 ^^ n) lv lv' \<and> pending (term_at lv 0) = [[0x61]] \<and> pending (term_at lv' 0) = []"
proof -
  obtain lv lv' sk ch where t: "toy_page lv sk ch" "live_step toy_env unit_emulator toy_open toy_parse (\<lambda>_. []) lv lv'"
    "length (ts_heap (live_terms lv')) = 1" "running (term_at lv' 0)" "pending (term_at lv' 0) = [[0x61]]"
    "Kill \<notin> set (tm_queue (term_at lv' 0))" using toy_typed by blast
  then have "(lives toy_env unit_emulator toy_open toy_parse (\<lambda>_. []))\<^sup>*\<^sup>* (live_new toy_env enrol_new) lv"
    by (simp add: toy_page_def)
  then have reach: "(lives toy_env unit_emulator toy_open toy_parse (\<lambda>_. []))\<^sup>*\<^sup>* (live_new toy_env enrol_new) lv'"
    using y_step [OF t(2)] by (rule rtranclp.rtrancl_into_rtrancl)
  have "0 < length (ts_heap (live_terms lv'))" using t(3) by simp
  from keyboard_drains [OF reach toy_page_slots this t(4,6)] t(5) show ?thesis by metis
qed

end
