(* ===== verification/Certs.thy ===== *)
theory Certs
  imports Config
begin

text \<open>
  Validation of the Let's Encrypt mode (\<open>src/src/certs.rs\<close>): the certificate hostname taken from the base
  URL, the bind address, the contact, and attaching the mode to the runtime configuration. The socket
  and ACME plumbing of \<open>serve_https\<close> and \<open>bind_443\<close> is not modelled.

  Address literals are parsed as the standard library's \<open>std::net\<close> parser does: every reader returns
  what it read with the rest of the input, and the whole input must be consumed.
\<close>

subsection \<open>Address literals\<close>

definition hex_val :: "char \<Rightarrow> nat option" where
  "hex_val c =
    (if is_ascii_digit c then Some (code c - 48)
     else if 97 \<le> code c \<and> code c \<le> 102 then Some (code c - 87)
     else if 65 \<le> code c \<and> code c \<le> 70 then Some (code c - 55) else None)"

definition digit_val :: "nat \<Rightarrow> char \<Rightarrow> nat option" where
  "digit_val radix c = Option.bind (hex_val c) (\<lambda>v. if v < radix then Some v else None)"

text \<open>\<open>read_number\<close>: at most \<open>digits\<close> digits if bounded, no value above \<open>mx\<close>, a leading zero only when
  \<open>zeros\<close> allows it.\<close>

definition read_number :: "nat \<Rightarrow> nat option \<Rightarrow> bool \<Rightarrow> nat \<Rightarrow> string \<Rightarrow> (nat \<times> string) option" where
  "read_number radix digits zeros mx s =
    (let ds = takeWhile (\<lambda>c. digit_val radix c \<noteq> None) s;
         n = foldl (\<lambda>a c. a * radix + the (digit_val radix c)) 0 ds
     in if ds = [] then None
        else if (case digits of None \<Rightarrow> False | Some d \<Rightarrow> length ds > d) then None
        else if n > mx then None
        else if \<not> zeros \<and> hd ds = CHR ''0'' \<and> length ds > 1 then None
        else Some (n, drop (length ds) s))"

definition read_char :: "char \<Rightarrow> string \<Rightarrow> string option" where
  "read_char c s = (case s of d # r \<Rightarrow> if d = c then Some r else None | [] \<Rightarrow> None)"

definition read_octet :: "string \<Rightarrow> (nat \<times> string) option" where
  "read_octet = read_number 10 (Some 3) False 255"

definition read_ipv4 :: "string \<Rightarrow> (nat list \<times> string) option" where
  "read_ipv4 s =
    Option.bind (read_octet s) (\<lambda>(a, s1). Option.bind (read_char CHR ''.'' s1) (\<lambda>s2.
    Option.bind (read_octet s2) (\<lambda>(b, s3). Option.bind (read_char CHR ''.'' s3) (\<lambda>s4.
    Option.bind (read_octet s4) (\<lambda>(c, s5). Option.bind (read_char CHR ''.'' s5) (\<lambda>s6.
    Option.bind (read_octet s6) (\<lambda>(d, s7). Some ([a, b, c, d], s7))))))))"

text \<open>\<open>read_groups\<close>: up to \<open>limit\<close> 16-bit groups from number \<open>i\<close> on, the last two possibly as an IPv4
  address; the result says whether one was seen.\<close>

definition read_sep :: "nat \<Rightarrow> string \<Rightarrow> string option" where
  "read_sep i s = (if i = 0 then Some s else read_char CHR '':'' s)"

fun read_groups :: "nat \<Rightarrow> nat \<Rightarrow> string \<Rightarrow> nat list \<times> bool \<times> string" where
  "read_groups 0 i s = ([], False, s)"
| "read_groups (Suc left) i s =
    (case (if left = 0 then None else Option.bind (read_sep i s) read_ipv4) of
      Some (q, r) \<Rightarrow> ([q ! 0 * 256 + q ! 1, q ! 2 * 256 + q ! 3], True, r)
    | None \<Rightarrow>
       (case Option.bind (read_sep i s) (read_number 16 (Some 4) True 65535) of
         None \<Rightarrow> ([], False, s)
       | Some (g, r) \<Rightarrow> (let (gs, v4, r') = read_groups left (Suc i) r in (g # gs, v4, r'))))"

definition read_ipv6 :: "string \<Rightarrow> (nat list \<times> string) option" where
  "read_ipv6 s =
    (let (head, v4, s1) = read_groups 8 0 s
     in if length head = 8 then Some (head, s1)
        else if v4 then None
        else Option.bind (read_char CHR '':'' s1) (\<lambda>s2. Option.bind (read_char CHR '':'' s2) (\<lambda>s3.
          let (tail, _, s4) = read_groups (8 - (length head + 1)) 0 s3
          in Some (head @ replicate (8 - length head - length tail) 0 @ tail, s4))))"

datatype ip_addr = V4 "nat list" | V6 "nat list"

definition whole :: "('a \<times> string) option \<Rightarrow> 'a option" where
  "whole r = (case r of Some (v, []) \<Rightarrow> Some v | _ \<Rightarrow> None)"

definition parse_ip :: "string \<Rightarrow> ip_addr option" where
  "parse_ip s =
    (case read_ipv4 s of
      Some (q, r) \<Rightarrow> whole (Some (V4 q, r))
    | None \<Rightarrow> whole (map_option (\<lambda>(g, r). (V6 g, r)) (read_ipv6 s)))"

definition read_port :: "string \<Rightarrow> (nat \<times> string) option" where
  "read_port s = Option.bind (read_char CHR '':'' s) (read_number 10 None True 65535)"

definition read_scope :: "string \<Rightarrow> string" where
  "read_scope s =
    (case Option.bind (read_char CHR ''%'' s) (read_number 10 None True u32_max) of
      Some (_, r) \<Rightarrow> r | None \<Rightarrow> s)"

definition read_socket_v4 :: "string \<Rightarrow> ((ip_addr \<times> nat) \<times> string) option" where
  "read_socket_v4 s = Option.bind (read_ipv4 s) (\<lambda>(q, s1).
     map_option (\<lambda>(p, r). ((V4 q, p), r)) (read_port s1))"

definition read_socket_v6 :: "string \<Rightarrow> ((ip_addr \<times> nat) \<times> string) option" where
  "read_socket_v6 s =
    Option.bind (read_char CHR ''['' s) (\<lambda>s1. Option.bind (read_ipv6 s1) (\<lambda>(g, s2).
    Option.bind (read_char CHR '']'' (read_scope s2)) (\<lambda>s3.
      map_option (\<lambda>(p, r). ((V6 g, p), r)) (read_port s3))))"

definition parse_socket :: "string \<Rightarrow> (ip_addr \<times> nat) option" where
  "parse_socket s =
    (case read_socket_v4 s of Some r \<Rightarrow> whole (Some r) | None \<Rightarrow> whole (read_socket_v6 s))"

definition is_loopback :: "ip_addr \<Rightarrow> bool" where
  "is_loopback a = (case a of V4 q \<Rightarrow> q ! 0 = 127 | V6 g \<Rightarrow> g = [0, 0, 0, 0, 0, 0, 0, 1])"

definition ipv4_mapped :: "nat list \<Rightarrow> nat list option" where
  "ipv4_mapped g =
    (if length g = 8 \<and> take 6 g = [0, 0, 0, 0, 0, 65535]
     then Some [g ! 6 div 256, g ! 6 mod 256, g ! 7 div 256, g ! 7 mod 256] else None)"

subsection \<open>Validation\<close>

datatype cert_error =
    NoBaseUrl
  | NotHttps
  | HasUserinfo
  | BadPort
  | NoHost
  | IsIpAddress
  | IsLocalhost
  | NotDnsName
  | BadBind
  | BindPort nat
  | BindLoopback
  | BadContact

definition valid_label :: "string \<Rightarrow> bool" where
  "valid_label l \<longleftrightarrow> l \<noteq> [] \<and> list_all (\<lambda>c. is_ascii_alphanumeric c \<or> c = CHR ''-'') l"

definition eq_ignore_ascii_case :: "string \<Rightarrow> string \<Rightarrow> bool" where
  "eq_ignore_ascii_case a b \<longleftrightarrow> to_ascii_lowercase a = to_ascii_lowercase b"

definition url_host :: "string \<Rightarrow> cert_error + string" where
  "url_host authority =
    (case rsplit_once CHR '':'' authority of
      Some (h, port) \<Rightarrow>
        if port \<noteq> [] \<and> list_all is_ascii_digit port
        then (if port \<noteq> ''443'' then Inl BadPort else Inr h)
        else Inr authority
    | None \<Rightarrow> Inr authority)"

definition dns_host :: "string \<Rightarrow> cert_error + string" where
  "dns_host host =
    (if host = [] then Inl NoHost
     else if starts_with ''['' host \<or> parse_ip host \<noteq> None then Inl IsIpAddress
     else if eq_ignore_ascii_case host ''localhost'' then Inl IsLocalhost
     else if \<not> list_all valid_label (split_on CHR ''.'' host) then Inl NotDnsName
     else Inr (to_ascii_lowercase host))"

definition public_hostname :: "string option \<Rightarrow> cert_error + string" where
  "public_hostname base0 =
    (case base0 of
      None \<Rightarrow> Inl NoBaseUrl
    | Some base \<Rightarrow>
       (case strip_prefix ''https://'' (trim base) of
         None \<Rightarrow> Inl NotHttps
       | Some rest \<Rightarrow>
          let authority = hd (split_on CHR ''/'' rest) in
          if CHR ''@'' \<in> set authority then Inl HasUserinfo
          else (case url_host authority of Inl e \<Rightarrow> Inl e | Inr host \<Rightarrow> dns_host host)))"

definition check_bind :: "string \<Rightarrow> cert_error + unit" where
  "check_bind bind =
    (case parse_socket bind of
      None \<Rightarrow> Inl BadBind
    | Some (ip, port) \<Rightarrow>
        if port \<noteq> 443 then Inl (BindPort port)
        else
          let mapped_loopback = (case ip of V6 g \<Rightarrow> (case ipv4_mapped g of None \<Rightarrow> False | Some q \<Rightarrow> is_loopback (V4 q))
                                          | V4 _ \<Rightarrow> False)
          in if is_loopback ip \<or> mapped_loopback then Inl BindLoopback else Inr ())"

definition path_join :: "string \<Rightarrow> string \<Rightarrow> string" where
  "path_join dir p =
    (if starts_with ''/'' p then p
     else if dir = [] \<or> last dir = CHR ''/'' then dir @ p else dir @ ''/'' @ p)"

definition validate_certs :: "settings \<Rightarrow> string \<Rightarrow> cert_error + tls_config option" where
  "validate_certs s config_dir =
    (if \<not> ce_enabled (st_certs s) then Inr None
     else case public_hostname (n_public_base_url (st_network s)) of
       Inl e \<Rightarrow> Inl e
     | Inr hostname \<Rightarrow>
        (case check_bind (n_bind (st_network s)) of
          Inl e \<Rightarrow> Inl e
        | Inr _ \<Rightarrow>
            let store_dir = path_join config_dir (ce_store_dir (st_certs s));
                contact = Option.bind (map_option trim (ce_contact (st_certs s)))
                  (\<lambda>e. if e = [] then None else Some e)
            in if (case contact of None \<Rightarrow> False
                   | Some email \<Rightarrow> CHR ''@'' \<notin> set email \<or> list_ex is_whitespace email)
               then Inl BadContact
               else Inr (Some \<lparr>tls_hostname = hostname, tls_store_dir = store_dir,
                 tls_staging = ce_staging (st_certs s), tls_contact = contact\<rparr>)))"

definition attach_tls :: "tls_config option \<Rightarrow> config \<Rightarrow> config" where
  "attach_tls t c = (if t \<noteq> None then c\<lparr>cookie_secure := True\<rparr> else c)\<lparr>tls := t\<rparr>"

subsection \<open>What a validated mode guarantees\<close>

lemma ascii_lower_label:
  "list_all (\<lambda>c. is_ascii_alphanumeric c \<or> c = CHR ''-'') l \<Longrightarrow>
    list_all (\<lambda>c. is_ascii_lower c \<or> is_ascii_digit c \<or> c = CHR ''-'') (to_ascii_lowercase l)"
  by (induction l) (auto simp: to_ascii_lowercase_def ascii_lower_def is_ascii_alphanumeric_def
      is_ascii_upper_def is_ascii_lower_def is_ascii_digit_def code_char_of)

lemma ascii_lower_dot: "ascii_lower c = CHR ''.'' \<longleftrightarrow> c = CHR ''.''"
proof
  assume a: "ascii_lower c = CHR ''.''"
  show "c = CHR ''.''"
  proof (cases "is_ascii_upper c")
    case True
    then have "code (ascii_lower c) = code c + 32" "65 \<le> code c"
      by (simp_all add: ascii_lower_def is_ascii_upper_def code_char_of)
    with a show ?thesis by (simp add: code_def)
  next
    case False
    with a show ?thesis by (simp add: ascii_lower_def)
  qed
qed (simp add: ascii_lower_def is_ascii_upper_def code_def)

lemma split_on_lower: "split_on CHR ''.'' (to_ascii_lowercase s) = map to_ascii_lowercase (split_on CHR ''.'' s)"
  unfolding split_on_def to_ascii_lowercase_def
proof (induction s)
  case Nil
  then show ?case by simp
next
  case (Cons c s)
  show ?case
  proof (cases "c = CHR ''.''")
    case True
    then show ?thesis using Cons by (simp add: ascii_lower_dot)
  next
    case False
    then show ?thesis using Cons by (simp add: ascii_lower_dot split: list.splits)
  qed
qed

lemma public_hostname_Inr:
  assumes "public_hostname base0 = Inr h"
  obtains base host rest where "base0 = Some base" "trim base = ''https://'' @ host @ rest"
    "h = to_ascii_lowercase host" "parse_ip host = None" "to_ascii_lowercase host \<noteq> ''localhost''"
    "list_all valid_label (split_on CHR ''.'' host)"
    "rest = [] \<or> hd rest = CHR ''/'' \<or> (\<exists>r. rest = '':443'' @ r \<and> (r = [] \<or> hd r = CHR ''/''))"
proof -
  obtain base rest where base: "base0 = Some base" and rest: "strip_prefix ''https://'' (trim base) = Some rest"
    using assms by (auto simp: public_hostname_def split: option.splits)
  define authority where "authority = hd (split_on CHR ''/'' rest)"
  have tail: "\<exists>r. rest = authority @ r \<and> (r = [] \<or> hd r = CHR ''/'')"
  proof (cases "CHR ''/'' \<in> set rest")
    case True
    then obtain a b where "rest = a @ CHR ''/'' # b" "CHR ''/'' \<notin> set a"
      by (meson split_list_first)
    then show ?thesis
      by (intro exI [of _ "CHR ''/'' # b"]) (simp add: authority_def split_on_append)
  next
    case False
    then show ?thesis by (simp add: authority_def split_on_free)
  qed
  obtain host where host: "url_host authority = Inr host" and dns: "dns_host host = Inr h"
    using assms
    by (auto simp: public_hostname_def base rest Let_def authority_def [symmetric] split: if_splits sum.splits)
  have host_or: "authority = host \<or> authority = host @ '':443''"
  proof (cases "rsplit_once CHR '':'' authority")
    case None
    then show ?thesis using host by (simp add: url_host_def)
  next
    case (Some hp)
    obtain x port where hp: "hp = (x, port)" by (cases hp)
    have "authority = x @ CHR '':'' # port"
      using Some hp split_once_SomeD [of "CHR '':''" "rev authority"]
      by (auto simp: rsplit_once_def split: option.splits)
        (metis append.assoc append_Cons append_Nil rev.simps(2) rev_append rev_rev_ident)
    then show ?thesis using host Some hp by (auto simp: url_host_def split: if_splits)
  qed
  have ok: "parse_ip host = None" "\<not> eq_ignore_ascii_case host ''localhost''"
    "list_all valid_label (split_on CHR ''.'' host)" "h = to_ascii_lowercase host"
    using dns by (auto simp: dns_host_def split: if_splits)
  have local: "to_ascii_lowercase ''localhost'' = ''localhost''"
    by (simp add: to_ascii_lowercase_def ascii_lower_def is_ascii_upper_def code_def)
  obtain r where r: "rest = authority @ r" "r = [] \<or> hd r = CHR ''/''" using tail by blast
  have url: "trim base = ''https://'' @ authority @ r" using rest r(1) by (simp add: strip_prefix_Some)
  show thesis
  proof (cases "authority = host")
    case True
    then show ?thesis using that [of base host r] base url ok local r(2)
      by (auto simp: eq_ignore_ascii_case_def)
  next
    case False
    then have "authority = host @ '':443''" using host_or by blast
    then show ?thesis using that [of base host "'':443'' @ r"] base url ok local r(2)
      by (simp add: eq_ignore_ascii_case_def)
  qed
qed

text \<open>C37: a certificate mode that passes validation can be served: the hostname is the host of an https base
  URL on the default port, a lower-case DNS name that is neither an address literal nor localhost;
  the listener is on port 443 of an address that is not loopback, mapped or not; a contact looks like an
  address; and with the mode attached the cookies are Secure.\<close>

theorem validate_certs_sound:
  assumes "validate_certs s dir = Inr (Some t)"
  shows "(\<exists>base host rest ip. n_public_base_url (st_network s) = Some base \<and>
      trim base = ''https://'' @ host @ rest \<and>
      (rest = [] \<or> hd rest = CHR ''/'' \<or> (\<exists>r. rest = '':443'' @ r \<and> (r = [] \<or> hd r = CHR ''/''))) \<and>
      tls_hostname t = to_ascii_lowercase host \<and> parse_ip host = None \<and>
      parse_socket (n_bind (st_network s)) = Some (ip, 443) \<and> \<not> is_loopback ip \<and>
      (\<forall>g q. ip = V6 g \<longrightarrow> ipv4_mapped g = Some q \<longrightarrow> q ! 0 \<noteq> 127)) \<and>
    tls_hostname t \<noteq> ''localhost'' \<and>
    list_all (\<lambda>l. l \<noteq> [] \<and> list_all (\<lambda>c. is_ascii_lower c \<or> is_ascii_digit c \<or> c = CHR ''-'') l)
      (split_on CHR ''.'' (tls_hostname t)) \<and>
    (case tls_contact t of None \<Rightarrow> True | Some e \<Rightarrow> CHR ''@'' \<in> set e \<and> \<not> list_ex is_whitespace e) \<and>
    cookie_secure (attach_tls (Some t) c)"
proof -
  obtain h where h: "public_hostname (n_public_base_url (st_network s)) = Inr h"
    and b: "check_bind (n_bind (st_network s)) = Inr ()" and th: "tls_hostname t = h"
    and contact: "case tls_contact t of None \<Rightarrow> True | Some e \<Rightarrow> CHR ''@'' \<in> set e \<and> \<not> list_ex is_whitespace e"
    using assms by (auto simp: validate_certs_def Let_def split: if_splits sum.splits option.splits)
  from h obtain base host rest where u: "n_public_base_url (st_network s) = Some base"
    "trim base = ''https://'' @ host @ rest" "h = to_ascii_lowercase host" "parse_ip host = None"
    "to_ascii_lowercase host \<noteq> ''localhost''" "list_all valid_label (split_on CHR ''.'' host)"
    "rest = [] \<or> hd rest = CHR ''/'' \<or> (\<exists>r. rest = '':443'' @ r \<and> (r = [] \<or> hd r = CHR ''/''))"
    by (rule public_hostname_Inr)
  obtain ip where ip: "parse_socket (n_bind (st_network s)) = Some (ip, 443)" "\<not> is_loopback ip"
    "\<forall>g q. ip = V6 g \<longrightarrow> ipv4_mapped g = Some q \<longrightarrow> q ! 0 \<noteq> 127"
    using b by (auto simp: check_bind_def is_loopback_def Let_def split: option.splits if_splits ip_addr.splits)
  have labels: "list_all (\<lambda>l. l \<noteq> [] \<and> list_all (\<lambda>c. is_ascii_lower c \<or> is_ascii_digit c \<or> c = CHR ''-'') l)
      (split_on CHR ''.'' (tls_hostname t))"
    using u(6) ascii_lower_label unfolding th u(3) split_on_lower valid_label_def list_all_iff
    by (fastforce simp: to_ascii_lowercase_def)
  show ?thesis
    using u ip th labels contact by (auto simp: attach_tls_def)
qed

subsection \<open>Dotted addresses\<close>

lemma digit_val_10: "digit_val 10 c = (if is_ascii_digit c then Some (code c - 48) else None)"
  by (auto simp: digit_val_def hex_val_def is_ascii_digit_def)

lemma read_number_digits:
  "foldl (\<lambda>a c. a * 10 + the (digit_val 10 c)) 0 (show_nat n) = n"
proof (induction n rule: show_nat.induct)
  case (1 n)
  show ?case
  proof (cases "n < 10")
    case True
    then show ?thesis by (simp add: show_nat.simps digit_val_10)
  next
    case False
    have "n mod 10 < 10" by simp
    then show ?thesis using 1 False
      by (simp add: show_nat.simps [of n] digit_val_10 del: mod_less_divisor)
  qed
qed

lemma show_nat_hd: "n \<noteq> 0 \<Longrightarrow> hd (show_nat n) \<noteq> CHR ''0''"
proof (induction n rule: show_nat.induct)
  case (1 n)
  show ?case
  proof (cases "n < 10")
    case True
    then have "code (hd (show_nat n)) = 48 + n" by (simp add: show_nat.simps)
    then show ?thesis using 1(2) by (auto simp: code_def)
  next
    case False
    then show ?thesis using 1 by (simp add: show_nat.simps [of n] hd_append)
  qed
qed

lemma takeWhile_digits:
  "rest = [] \<or> \<not> is_ascii_digit (hd rest) \<Longrightarrow>
    takeWhile (\<lambda>c. digit_val 10 c \<noteq> None) (show_nat n @ rest) = show_nat n"
proof -
  assume r: "rest = [] \<or> \<not> is_ascii_digit (hd rest)"
  have "\<forall>c \<in> set (show_nat n). digit_val 10 c \<noteq> None"
    using show_nat_digits by (auto simp: digit_val_10)
  then show ?thesis using r by (cases rest) (simp_all add: takeWhile_append2 digit_val_10)
qed

lemma read_number_show:
  assumes "rest = [] \<or> \<not> is_ascii_digit (hd rest)" "n \<le> mx"
    "case digits of None \<Rightarrow> True | Some d \<Rightarrow> length (show_nat n) \<le> d"
  shows "read_number 10 digits zeros mx (show_nat n @ rest) = Some (n, rest)"
proof -
  have "\<not> (hd (show_nat n) = CHR ''0'' \<and> length (show_nat n) > 1)"
    using show_nat_hd [of n] by (cases "n = 0") (auto simp: show_nat.simps [of 0])
  then show ?thesis
    using assms(2,3) unfolding read_number_def takeWhile_digits [OF assms(1)] read_number_digits Let_def
    by (auto split: option.splits)
qed

definition show_ipv4 :: "nat list \<Rightarrow> string" where
  "show_ipv4 q = join ''.'' (map show_nat q)"

lemma octet_len: "n \<le> 255 \<Longrightarrow> length (show_nat n) \<le> 3"
  by (subst show_nat.simps, subst show_nat.simps, subst show_nat.simps) auto

lemma read_octet_show:
  "n \<le> 255 \<Longrightarrow> rest = [] \<or> \<not> is_ascii_digit (hd rest) \<Longrightarrow> read_octet (show_nat n @ rest) = Some (n, rest)"
  unfolding read_octet_def by (rule read_number_show) (simp_all add: octet_len)

lemma read_ipv4_show:
  assumes "a \<le> 255" "b \<le> 255" "c \<le> 255" "d \<le> 255" "rest = [] \<or> \<not> is_ascii_digit (hd rest)"
  shows "read_ipv4 (show_ipv4 [a, b, c, d] @ rest) = Some ([a, b, c, d], rest)"
proof -
  have dot: "\<not> is_ascii_digit (CHR ''.'')" by (simp add: is_ascii_digit_def code_def)
  show ?thesis
    using assms dot by (simp add: show_ipv4_def read_ipv4_def read_octet_show read_char_def)
qed

lemma check_bind_show:
  assumes "a \<le> 255" and "b \<le> 255" and "c \<le> 255" and "d \<le> 255" and "port \<le> 65535"
  shows "check_bind (show_ipv4 [a, b, c, d] @ '':'' @ show_nat port) =
    (if port \<noteq> 443 then Inl (BindPort port) else if a = 127 then Inl BindLoopback else Inr ())"
proof -
  have colon: "\<not> is_ascii_digit (CHR '':'')" by (simp add: is_ascii_digit_def code_def)
  have "read_number 10 None True 65535 (show_nat port @ []) = Some (port, [])"
    using assms(5) by (intro read_number_show) simp_all
  then have "read_port (CHR '':'' # show_nat port) = Some (port, [])"
    by (simp add: read_port_def read_char_def)
  then have "parse_socket (show_ipv4 [a, b, c, d] @ '':'' @ show_nat port) = Some (V4 [a, b, c, d], port)"
    using read_ipv4_show [OF assms(1-4), of "CHR '':'' # show_nat port"] colon
    by (simp add: parse_socket_def read_socket_v4_def whole_def)
  then show ?thesis by (simp add: check_bind_def is_loopback_def)
qed

text \<open>an IPv4 listen address is read as written, and in certificate mode it is accepted exactly on port
  443 of an address outside the loopback network.\<close>

theorem check_bind_ipv4:
  assumes "a \<le> 255" and "b \<le> 255" and "c \<le> 255" and "d \<le> 255" and "port \<le> 65535"
  shows "check_bind (show_ipv4 [a, b, c, d] @ '':'' @ show_nat port) =
    (if port \<noteq> 443 then Inl (BindPort port) else if a = 127 then Inl BindLoopback else Inr ())"
  using assms by (rule check_bind_show)

theorem check_bind_ipv4_witness:
  "check_bind (show_ipv4 [127, 0, 0, 1] @ '':'' @ show_nat 443) = Inl BindLoopback"
  by (subst check_bind_ipv4) simp_all

definition toy_settings :: settings where
  "toy_settings = settings_default\<lparr>
     st_network := network_default\<lparr>n_bind := show_ipv4 [0, 0, 0, 0] @ '':'' @ show_nat 443,
       n_public_base_url := Some ''https://X.io/''\<rparr>,
     st_certs := certs_default\<lparr>ce_enabled := True\<rparr>\<rparr>"

lemma toy_settings_valid:
  "validate_certs toy_settings ''/etc'' = Inr (Some \<lparr>tls_hostname = ''x.io'', tls_store_dir = ''/etc/certs'',
     tls_staging = False, tls_contact = None\<rparr>)"
proof -
  have bind: "check_bind (show_ipv4 [0, 0, 0, 0] @ '':'' @ show_nat 443) = Inr ()"
    by (subst check_bind_show) simp_all
  have "trim ''https://X.io/'' = ''https://X.io/''"
    by (simp add: trim_def trim_start_def trim_end_def is_whitespace_def code_def)
  moreover have "digit_val r (CHR ''X'') = None" for r
    by (simp add: digit_val_def hex_val_def is_ascii_digit_def code_def)
  then have num: "read_number r ds z mx ''X.io'' = None" for r ds z mx
    by (simp add: read_number_def)
  then have v4: "read_ipv4 ''X.io'' = None"
    by (simp add: read_ipv4_def read_octet_def)
  have "read_groups (Suc n) 0 ''X.io'' = ([], False, ''X.io'')" for n
    by (simp add: v4 num read_sep_def)
  from this [of 7] have "read_ipv6 ''X.io'' = None"
    by (simp add: read_ipv6_def read_char_def)
  with v4 have "parse_ip ''X.io'' = None" by (simp add: parse_ip_def whole_def)
  ultimately have "public_hostname (Some ''https://X.io/'') = Inr ''x.io''"
    by (simp add: public_hostname_def split_on_def url_host_def rsplit_once_def split_once_def dns_host_def
        starts_with_def eq_ignore_ascii_case_def to_ascii_lowercase_def ascii_lower_def
        is_ascii_upper_def code_def valid_label_def is_ascii_alphanumeric_def is_ascii_digit_def
        is_ascii_lower_def char_of_def bit_0 Let_def)
  then show ?thesis
    using bind by (simp add: validate_certs_def toy_settings_def certs_default_def settings_default_def
        network_default_def path_join_def starts_with_def Let_def)
qed

theorem validate_certs_sound_witness:
  "(\<exists>ip. parse_socket (n_bind (st_network toy_settings)) = Some (ip, 443) \<and> \<not> is_loopback ip) \<and>
   cookie_secure (attach_tls (Some \<lparr>tls_hostname = ''x.io'', tls_store_dir = ''/etc/certs'',
     tls_staging = False, tls_contact = None\<rparr>)
     (from_settings \<lparr>oi_name = ''u'', oi_home = ''/'', oi_shell = ''/bin/sh''\<rparr> None toy_settings))"
  using validate_certs_sound [OF toy_settings_valid,
      of "from_settings \<lparr>oi_name = ''u'', oi_home = ''/'', oi_shell = ''/bin/sh''\<rparr> None toy_settings"]
  by blast

subsection \<open>Serving over TLS\<close>

text \<open>What \<open>serve_https\<close> hands to the ACME and TLS libraries, and the ways it ends before it serves. Creating the
  store directory, binding the socket and making it non-blocking are parameters, as are the libraries
  (ordering and renewing certificates, the accept loop).\<close>

record acme_setup =
  ac_domains :: "string list"
  ac_cache_dir :: string
  ac_production :: bool
  ac_contacts :: "string list"
  ac_alpn :: "string list"

definition acme_config :: "tls_config \<Rightarrow> acme_setup" where
  "acme_config t =
    \<lparr>ac_domains = [tls_hostname t], ac_cache_dir = tls_store_dir t, ac_production = (\<not> tls_staging t),
     ac_contacts = (case tls_contact t of Some email \<Rightarrow> [''mailto:'' @ email] | None \<Rightarrow> []),
     ac_alpn = [''h2'', ''http/1.1'']\<rparr>"

datatype bound = Bound | Permission_denied | Other_failure

datatype https_error = No_store_dir | Needs_capability | Cannot_bind | Cannot_unblock

definition bind_443 :: "bound \<Rightarrow> bool \<Rightarrow> https_error + unit" where
  "bind_443 b nonblocking =
    (case b of
      Permission_denied \<Rightarrow> Inl Needs_capability
    | Other_failure \<Rightarrow> Inl Cannot_bind
    | Bound \<Rightarrow> if nonblocking then Inr () else Inl Cannot_unblock)"

definition serve_https :: "bool \<Rightarrow> bound \<Rightarrow> bool \<Rightarrow> tls_config \<Rightarrow> https_error + acme_setup" where
  "serve_https dir_created b nonblocking t =
    (if \<not> dir_created then Inl No_store_dir
     else (case bind_443 b nonblocking of Inl e \<Rightarrow> Inl e | Inr _ \<Rightarrow> Inr (acme_config t)))"

text \<open>The one certificate ordered is for the host of the public URL, and every contact is an address.\<close>

lemma serve_https_order:
  assumes "validate_certs s dir = Inr (Some t)" "serve_https made b nb t = Inr a"
  shows "public_hostname (n_public_base_url (st_network s)) = Inr (hd (ac_domains a)) \<and> length (ac_domains a) = 1 \<and>
    list_all (\<lambda>c. starts_with ''mailto:'' c \<and> CHR ''@'' \<in> set c) (ac_contacts a)"
  using assms
  by (auto simp: validate_certs_def serve_https_def acme_config_def Let_def starts_with_def
      split: if_splits sum.splits option.splits)

end
