(* ===== verification/Startup.thy ===== *)
theory Startup
  imports Requests Certs
begin

text \<open>
  How the program starts (\<open>main\<close> and its subcommands in \<open>src/src/main.rs\<close>): loading and checking the
  configuration, the first secret, the zero-config mode, setting a password, the keys, and the stores
  the server begins with. Each \<open>process::exit(1)\<close> is an error value; what it prints is not modelled.
\<close>

subsection \<open>Running from a configuration file\<close>

datatype startup_error =
    Privileged
  | No_config string
  | Config_error load_error
  | Secret_not_saved
  | Certs_error cert_error
  | Users_error validate_error
  | No_login_method
  | Google_incomplete
  | No_public_base_url
  | Store_error

text \<open>The machine the program starts on: the effective user, the files, the TOML parser, the environment variable
  \<open>WEBSHELL_SECRET\<close>, a fresh random secret, and whether the settings could be written back.\<close>

record machine =
  mc_euid :: nat
  mc_exists :: "string \<Rightarrow> bool"
  mc_read :: "string \<Rightarrow> string option"
  mc_parse :: "string \<Rightarrow> settings option"
  mc_secret_env :: "string option"
  mc_fresh_secret :: string
  mc_saved :: bool
  mc_owner :: owner_info
  mc_parent :: "string \<Rightarrow> string option"

definition check_config :: "config \<Rightarrow> startup_error + config" where
  "check_config cfg =
    (case validate_users (users cfg) of
      Inl e \<Rightarrow> Inl (Users_error e)
    | Inr _ \<Rightarrow>
        let google_enabled = Google \<in> set (login_methods cfg)
        in if \<not> local_usable cfg \<and> \<not> google_usable cfg then Inl No_login_method
           else if google_enabled \<and> (google_client_id cfg = None \<or> google_client_secret cfg = None) then Inl Google_incomplete
           else if google_enabled \<and> redirect_uri cfg = None then Inl No_public_base_url
           else Inr cfg)"

text \<open>\<open>run_server\<close> up to \<open>serve\<close>: the settings as they are on disk afterwards, and the configuration to serve.\<close>

definition with_secret :: "machine \<Rightarrow> settings \<Rightarrow> startup_error + settings" where
  "with_secret mc s =
    (if mc_secret_env mc = None \<and> a_secret_base64 (st_auth s) = None
     then if mc_saved mc then Inr (s\<lparr>st_auth := (st_auth s)\<lparr>a_secret_base64 := Some (mc_fresh_secret mc)\<rparr>\<rparr>)
          else Inl Secret_not_saved
     else Inr s)"

definition config_dir :: "machine \<Rightarrow> string \<Rightarrow> string" where
  "config_dir mc path = (case mc_parent mc path of Some dir \<Rightarrow> dir | None \<Rightarrow> ''.'')"

definition run_server :: "machine \<Rightarrow> string \<Rightarrow> startup_error + config \<times> string" where
  "run_server mc requested =
    (case ensure_unprivileged_uid (mc_euid mc) of
      Inl _ \<Rightarrow> Inl Privileged
    | Inr _ \<Rightarrow>
      case choose_config (mc_exists mc) requested of
        Missing p \<Rightarrow> Inl (No_config p)
      | Use path \<Rightarrow>
        (case settings_load (mc_parse mc) (Some (mc_read mc path)) of
          Inl e \<Rightarrow> Inl (Config_error e)
        | Inr s0 \<Rightarrow>
          case with_secret mc s0 of
            Inl e \<Rightarrow> Inl e
          | Inr s \<Rightarrow>
            case validate_certs s (config_dir mc path) of
              Inl e \<Rightarrow> Inl (Certs_error e)
            | Inr t \<Rightarrow>
              case check_config (attach_tls t (from_settings (mc_owner mc) (mc_secret_env mc) s)) of
                Inl e \<Rightarrow> Inl e
              | Inr cfg \<Rightarrow> Inr (cfg, path)))"

definition validate_file :: "machine \<Rightarrow> string \<Rightarrow> load_error + settings" where
  "validate_file mc path = settings_load (mc_parse mc) (Some (mc_read mc path))"

lemma run_server_secret: "run_server mc requested = Inr (cfg, path) \<Longrightarrow> secret_base64 cfg \<noteq> None"
proof -
  assume r: "run_server mc requested = Inr (cfg, path)"
  obtain s0 s t where sec: "with_secret mc s0 = Inr s"
    and chk: "check_config (attach_tls t (from_settings (mc_owner mc) (mc_secret_env mc) s)) = Inr cfg"
    using r by (auto simp: run_server_def split: sum.splits config_choice.splits)
  have cfg: "cfg = attach_tls t (from_settings (mc_owner mc) (mc_secret_env mc) s)"
    using chk by (auto simp: check_config_def Let_def split: sum.splits if_splits)
  have "mc_secret_env mc \<noteq> None \<or> a_secret_base64 (st_auth s) \<noteq> None"
    using sec by (auto simp: with_secret_def split: if_splits)
  then show ?thesis unfolding cfg by (auto simp: attach_tls_def from_settings_def Let_def split: option.splits)
qed

text \<open>C19: what a start from a configuration file has checked: if \<open>run_server\<close> goes on to serve, then not as root, with the
  file it was told to use, with a non-empty allowlist of distinct identities of supported providers, with local login
  switched on and a local user on the list or Google sign-in switched on and fully configured, with Google fully
  configured wherever it is offered, with a secret, with between 1 and 64 slots, and with Secure cookies
  wherever it terminates TLS itself. (That a listed local user has a password is not checked, and the zero-config
  mode makes none of these checks but the first.)\<close>

theorem run_server_sound:
  assumes "run_server mc requested = Inr (cfg, path)"
  shows "mc_euid mc \<noteq> 0 \<and> path = requested \<and> mc_exists mc path \<and>
    users cfg \<noteq> [] \<and> distinct (users cfg) \<and> list_all (\<lambda>u. supported (provider u)) (users cfg) \<and>
    ((Local \<in> set (login_methods cfg) \<and> (\<exists>u \<in> set (users cfg). provider u = Local)) \<or> google_usable cfg) \<and>
    (if Google \<in> set (login_methods cfg) then google_usable cfg else True) \<and>
    secret_base64 cfg \<noteq> None \<and> 1 \<le> slots_per_user cfg \<and> slots_per_user cfg \<le> 64 \<and>
    (if tls cfg = None then True else cookie_secure cfg)"
proof -
  obtain s t where e: "ensure_unprivileged_uid (mc_euid mc) = Inr ()" and p: "choose_config (mc_exists mc) requested = Use path"
    and chk: "check_config (attach_tls t (from_settings (mc_owner mc) (mc_secret_env mc) s)) = Inr cfg"
    using assms by (auto simp: run_server_def split: sum.splits config_choice.splits)
  let ?c = "attach_tls t (from_settings (mc_owner mc) (mc_secret_env mc) s)"
  have cfg: "cfg = ?c" and u: "validate_users (users cfg) = Inr ()"
    and l: "local_usable cfg \<or> google_usable cfg"
    and g: "Google \<in> set (login_methods cfg) \<Longrightarrow> google_usable cfg"
    using chk by (auto simp: check_config_def Let_def google_usable_def split: sum.splits if_splits)
  have "secret_base64 cfg \<noteq> None" by (rule run_server_secret [OF assms])
  moreover have "1 \<le> slots_per_user cfg \<and> slots_per_user cfg \<le> 64"
    unfolding cfg by (simp add: attach_tls_def from_settings_def Let_def clamp_def)
  moreover have "if tls cfg = None then True else cookie_secure cfg" unfolding cfg by (simp add: attach_tls_def)
  moreover have "mc_euid mc \<noteq> 0" using e by (auto simp: ensure_unprivileged_uid_def split: if_splits)
  moreover have "path = requested \<and> mc_exists mc path" using p by (auto simp: choose_config_def split: if_splits)
  moreover have "users cfg \<noteq> [] \<and> distinct (users cfg) \<and> list_all (\<lambda>u. supported (provider u)) (users cfg)"
    using u [unfolded validate_users_spec] by blast
  moreover have "local_usable cfg \<longleftrightarrow> Local \<in> set (login_methods cfg) \<and> (\<exists>u \<in> set (users cfg). provider u = Local)"
    by (simp add: local_usable_def list_ex_iff)
  ultimately show ?thesis using l g by auto
qed

definition toy_machine :: machine where
  "toy_machine = \<lparr>mc_euid = 1000, mc_exists = (\<lambda>p. p = ''config.toml''), mc_read = (\<lambda>_. Some []),
     mc_parse = (\<lambda>_. Some (settings_default\<lparr>st_auth := auth_default\<lparr>a_users := [identity_new Local ''u'']\<rparr>\<rparr>)),
     mc_secret_env = None, mc_fresh_secret = ''c2VjcmV0'', mc_saved = True,
     mc_owner = \<lparr>oi_name = ''o'', oi_home = ''/'', oi_shell = ''/bin/sh''\<rparr>, mc_parent = (\<lambda>_. Some [])\<rparr>"

lemma toy_run: "\<exists>cfg. run_server toy_machine ''config.toml'' = Inr (cfg, ''config.toml'')"
proof -
  have l: "login_method ''local'' = Some Local"
    by (simp add: login_method_def trim_def trim_start_def trim_end_def is_whitespace_def to_lowercase_def
        char_lower_def has_lower_def is_ascii_upper_def code_def)
  have g: "login_method ''google'' = Some Google"
    by (simp add: login_method_def trim_def trim_start_def trim_end_def is_whitespace_def to_lowercase_def
        char_lower_def has_lower_def is_ascii_upper_def code_def)
  show ?thesis
    by (simp add: run_server_def toy_machine_def ensure_unprivileged_uid_def choose_config_def settings_load_def with_secret_def
        validate_certs_def settings_default_def auth_default_def certs_default_def attach_tls_def check_config_def l g
        from_settings_def Let_def local_usable_def google_usable_def dedup_def List.map_filter_simps
        validate_users_def supported_def identity_new_def)
qed

theorem run_server_sound_witness:
  "\<exists>cfg. run_server toy_machine ''config.toml'' = Inr (cfg, ''config.toml'') \<and> users cfg \<noteq> [] \<and> secret_base64 cfg \<noteq> None"
proof -
  obtain cfg where r: "run_server toy_machine ''config.toml'' = Inr (cfg, ''config.toml'')" using toy_run by blast
  show ?thesis using run_server_sound [OF r] r by blast
qed

subsection \<open>Keys\<close>

text \<open>The base64 engine, the cookie crate's key from bytes (it wants 64 of them), its random key, and HMAC-SHA-256 are
  parameters.\<close>

datatype key_panic = Not_base64 | Too_short

definition load_signing_key ::
  "(string \<Rightarrow> u8 list option) \<Rightarrow> (u8 list \<Rightarrow> 'k option) \<Rightarrow> 'k \<Rightarrow> string option \<Rightarrow> key_panic + 'k" where
  "load_signing_key dec key_of fresh secret =
    (case secret of
      Some s \<Rightarrow> (case dec (trim s) of
          None \<Rightarrow> Inl Not_base64
        | Some raw \<Rightarrow> (case key_of raw of None \<Rightarrow> Inl Too_short | Some k \<Rightarrow> Inr k))
    | None \<Rightarrow> Inr fresh)"

definition generate_cookie_secret :: "(u8 list \<Rightarrow> string) \<Rightarrow> u8 list \<Rightarrow> string" where
  "generate_cookie_secret enc bytes = enc bytes"

definition derive_key :: "(u8 list \<Rightarrow> u8 list \<Rightarrow> u8 list) \<Rightarrow> u8 list \<Rightarrow> string \<Rightarrow> u8 list" where
  "derive_key hm master context = hm master (utf8 context)"

text \<open>logins survive a restart: the secret the first start writes into the settings is read back by every later start,
  which generates none, and it is accepted as the signing key, the key being that of the 64 bytes drawn.\<close>

theorem secret_survives_restart:
  assumes "with_secret mc s = Inr s'" "mc_secret_env mc = None" "a_secret_base64 (st_auth s) = None"
    and "mc_fresh_secret mc = generate_cookie_secret enc bytes" "length bytes = 64"
    and "dec (enc bytes) = Some bytes" "list_all (\<lambda>c. \<not> is_whitespace c) (enc bytes)"
    and "key_of bytes = Some k" "mc_secret_env mc' = None"
  shows "with_secret mc' s' = Inr s' \<and>
    load_signing_key dec key_of fresh (secret_base64 (from_settings oi (mc_secret_env mc') s')) = Inr k"
proof -
  have s': "a_secret_base64 (st_auth s') = Some (enc bytes)"
    using assms(1-4) by (auto simp: with_secret_def generate_cookie_secret_def split: if_splits)
  have "trim (enc bytes) = enc bytes"
    using assms(7) by (cases "enc bytes" rule: rev_cases)
      (auto simp: trim_def trim_start_def trim_end_def dropWhile_append neq_Nil_conv list_all_iff dropWhile_eq_self_iff hd_append)
  then show ?thesis
    using s' assms(6,8,9) by (simp add: with_secret_def load_signing_key_def from_settings_def Let_def)
qed

theorem secret_survives_restart_witness:
  "load_signing_key toy_unb64 (\<lambda>bs. if length bs < 64 then None else Some (take 64 bs)) []
     (secret_base64 (from_settings (mc_owner toy_machine) (mc_secret_env toy_machine)
       (settings_default\<lparr>st_auth := auth_default\<lparr>a_secret_base64 := Some (toy_b64 (replicate 64 7))\<rparr>\<rparr>))) = Inr (replicate 64 7)"
proof -
  let ?mc = "toy_machine\<lparr>mc_fresh_secret := generate_cookie_secret toy_b64 (replicate 64 7)\<rparr>"
  have ws: "list_all (\<lambda>c. \<not> is_whitespace c) (toy_b64 (replicate 64 7))"
    by (auto simp: toy_b64_def list_all_iff is_whitespace_def code_def)
  have "with_secret ?mc settings_default = Inr (settings_default\<lparr>st_auth := auth_default\<lparr>a_secret_base64 := Some (toy_b64 (replicate 64 7))\<rparr>\<rparr>)"
    by (simp add: with_secret_def toy_machine_def settings_default_def auth_default_def generate_cookie_secret_def)
  from secret_survives_restart [OF this, where bytes = "replicate 64 7" and enc = toy_b64 and dec = toy_unb64
      and key_of = "\<lambda>bs. if length bs < 64 then None else Some (take 64 bs)" and mc' = toy_machine and oi = "mc_owner toy_machine" and fresh = "[]"] ws
  show ?thesis by (simp add: toy_unb64_b64 toy_machine_def settings_default_def auth_default_def)
qed

subsection \<open>The zero-config mode\<close>

datatype simple_error = Is_root | Missing_credentials

definition run_simple ::
  "nat \<Rightarrow> string option \<Rightarrow> string option \<Rightarrow> string option \<Rightarrow> owner_info \<Rightarrow> string option \<Rightarrow> simple_error + config" where
  "run_simple euid user_env password_env bind_env oi secret_env =
    (case ensure_unprivileged_uid euid of
      Inl _ \<Rightarrow> Inl Is_root
    | Inr _ \<Rightarrow>
        let user = (case user_env of Some v \<Rightarrow> v | None \<Rightarrow> []);
            password = (case password_env of Some v \<Rightarrow> v | None \<Rightarrow> [])
        in if trim user = [] \<or> password = [] then Inl Missing_credentials
           else Inr (config_simple oi secret_env user password
             (case bind_env of Some v \<Rightarrow> v | None \<Rightarrow> ''127.0.0.1:9023'')))"

lemma simple_stored: "local_password (config_simple oi secret user pw bind) (identity_new Local user) = Some pw"
  using config_simple_spec [of oi secret user pw bind "identity_new Local user"] by (simp add: Let_def)

text \<open>a password that starts or ends with white space locks its owner out: the zero-config mode accepts it, and only
  refuses one that is empty, but it is trimmed when it is checked and what is typed is not, so the very
  password that was configured is wrong.\<close>

theorem padded_password_refused:
  assumes "run_simple euid (Some user) (Some pw) bind oi secret = Inr cfg" "\<not> looks_hashed pw" "trim pw \<noteq> pw"
  shows "\<exists>stored. local_password cfg (identity_new Local user) = Some stored \<and>
    verify_password h stored pw = Inr False \<and> verify_password h stored (trim pw) = Inr True"
proof -
  have "cfg = config_simple oi secret user pw (case bind of Some v \<Rightarrow> v | None \<Rightarrow> ''127.0.0.1:9023'')"
    using assms(1) by (auto simp: run_simple_def Let_def split: sum.splits if_splits)
  moreover have "\<not> looks_hashed (trim pw)" using assms(2) by (simp add: looks_hashed_def)
  ultimately show ?thesis using assms(3) by (auto simp: simple_stored verify_password_def Let_def)
qed

theorem padded_password_refused_witness:
  "\<exists>cfg stored. run_simple 1000 (Some ''u'') (Some ''pw '') None (mc_owner toy_machine) None = Inr cfg \<and>
     local_password cfg (identity_new Local ''u'') = Some stored \<and> verify_password (ev_hashers toy_env) stored ''pw '' = Inr False"
proof -
  have t: "trim ''pw '' = ''pw''" "trim ''u'' = ''u''"
    by (simp_all add: trim_def trim_start_def trim_end_def is_whitespace_def code_def)
  have l: "\<not> looks_hashed ''pw ''" by (simp add: looks_hashed_def t split_on_free)
  obtain cfg where r: "run_simple 1000 (Some ''u'') (Some ''pw '') None (mc_owner toy_machine) None = Inr cfg"
    by (simp add: run_simple_def ensure_unprivileged_uid_def t)
  from padded_password_refused [OF r l, where h = "ev_hashers toy_env"] r show ?thesis by (auto simp: t)
qed

subsection \<open>Setting a password\<close>

datatype passwd_error = Bad_identity parse_error | Not_local | Unreadable | Empty_password | Hash_failed password_error

definition strip_newline :: "string \<Rightarrow> string" where
  "strip_newline line = rev (dropWhile (\<lambda>c. c = CHR 0x0A \<or> c = CHR 0x0D) (rev line))"

text \<open>What is printed for the config file: the identity and the hash between quotation marks, as they are.\<close>

definition password_lines :: "string \<Rightarrow> string \<Rightarrow> string" where
  "password_lines key hash =
     ''[local_passwords]'' @ [CHR 0x0A] @ dq # key @ dq # '' = '' @ dq # hash @ [dq, CHR 0x0A]"

definition passwd :: "hashers \<Rightarrow> string \<Rightarrow> string option \<Rightarrow> passwd_error + string" where
  "passwd h ident input =
    (case identity_parse ident of
      Inl e \<Rightarrow> Inl (Bad_identity e)
    | Inr who \<Rightarrow>
        if provider who \<noteq> Local then Inl Not_local
        else (case input of
            None \<Rightarrow> Inl Unreadable
          | Some line \<Rightarrow>
              let password = strip_newline line
              in if password = [] then Inl Empty_password
                 else (case hash_password h password of
                     Inl e \<Rightarrow> Inl (Hash_failed e)
                   | Inr hash \<Rightarrow> Inr (password_lines (identity_str who) hash))))"

text \<open>What TOML promises of a table of basic strings without quotation marks, backslashes and control characters: a
  line of it reads as the key and the value between the marks. \<open>toml\<close> is the library's reading of the table.\<close>

definition toml_plain :: "char \<Rightarrow> bool" where
  "toml_plain c \<longleftrightarrow> 32 \<le> code c \<and> code c \<noteq> 34 \<and> code c \<noteq> 92 \<and> code c \<noteq> 127"

definition toml_laws :: "(string \<Rightarrow> (string \<times> string) list option) \<Rightarrow> bool" where
  "toml_laws toml \<longleftrightarrow>
    (\<forall>k v. list_all toml_plain k \<longrightarrow> list_all toml_plain v \<longrightarrow> toml (password_lines k v) = Some [(k, v)])"

text \<open>What Argon2's salted hash promises: a string of the shape \<open>$argon2...$...\<close> without surrounding white space, of
  characters of base64 and punctuation, which parses and matches its own password.\<close>

definition hash_laws :: "hashers \<Rightarrow> bool" where
  "hash_laws h \<longleftrightarrow> (\<forall>pw hs. h_hash h pw = Inr hs \<longrightarrow> trim hs = hs \<and> looks_hashed hs \<and> starts_with ''$argon2'' hs \<and>
     list_all toml_plain hs \<and> h_phc h hs = None \<and> h_argon2 h pw hs = Matches)"

text \<open>C39: a password set with \<open>passwd\<close> logs in: for an identity without quotation marks, backslashes and control characters
  (nothing is escaped), pasting the printed lines into the settings makes the configuration find for this identity
  a hash against which the password that was typed verifies.\<close>

theorem passwd_logs_in:
  assumes "hash_laws h" "toml_laws toml" "passwd h ident (Some (password @ [CHR 0x0A])) = Inr lines"
    and "last password \<notin> {CHR 0x0A, CHR 0x0D}" "identity_parse ident = Inr who" "list_all toml_plain (identity_str who)"
  shows "\<exists>table hash. toml lines = Some table \<and>
    local_password (from_settings oi secret (s\<lparr>st_local_passwords := table\<rparr>)) who = Some hash \<and>
    verify_password h hash password = Inr True"
proof -
  have strip: "strip_newline (password @ [CHR 0x0A]) = password"
    using assms(4) by (cases password rule: rev_cases) (auto simp: strip_newline_def)
  obtain hash where lines: "lines = password_lines (identity_str who) hash" and "h_hash h password = Inr hash"
    using assms(3,5) by (auto simp: passwd_def Let_def hash_password_def strip [simplified] split: sum.splits if_splits)
  with assms(1) have h: "trim hash = hash" "looks_hashed hash" "starts_with ''$argon2'' hash" "h_phc h hash = None"
    "list_all toml_plain hash" "h_argon2 h password hash = Matches"
    unfolding hash_laws_def by blast+
  have table: "toml lines = Some [(identity_str who, hash)]"
    using assms(2,6) h(5) unfolding toml_laws_def lines by blast
  obtain p subj where "who = identity_new p subj"
    using assms(5) by (fastforce simp: identity_parse_def Let_def split: option.splits if_splits)
  then have "to_lowercase (trim (identity_str who)) = identity_str who" by (simp add: identity_new_key)
  then have "local_password (from_settings oi secret (s\<lparr>st_local_passwords := [(identity_str who, hash)]\<rparr>)) who = Some hash"
    by (simp add: local_password_def from_settings_def Let_def)
  moreover have "\<not> starts_with ''$2a$'' hash" "\<not> starts_with ''$2b$'' hash" "\<not> starts_with ''$2y$'' hash"
    using h(3) by (auto simp: starts_with_def strip_prefix_Some)
  ultimately show ?thesis using table h by (simp add: verify_password_def)
qed

definition toy_hasher :: hashers where
  "toy_hasher = \<lparr>h_hash = (\<lambda>pw. Inr (''$argon2$'' @ show_nat (length pw))), h_bcrypt = (\<lambda>_ _. Inr False), h_phc = (\<lambda>_. None),
     h_argon2 = (\<lambda>pw hs. if hs = ''$argon2$'' @ show_nat (length pw) then Matches else PasswordInvalid)\<rparr>"

lemma toy_hash_laws: "hash_laws toy_hasher"
proof -
  have t: "trimmed (''$argon2$'' @ show_nat n)" for n
    using show_nat_digits [of "last (show_nat n)" n]
    by (simp add: trimmed_def is_whitespace_def code_def is_ascii_digit_def)
  have "looks_hashed (''$argon2$'' @ show_nat n)" for n
    unfolding looks_hashed_iff trim_trimmed [OF t] by (rule exI [of _ "''argon2''"]) simp
  moreover have "list_all toml_plain (''$argon2$'' @ show_nat n)" for n
  proof -
    have "toml_plain c" if "c \<in> set (show_nat n)" for c
      using show_nat_digits [OF that] by (auto simp: toml_plain_def is_ascii_digit_def)
    then show ?thesis by (simp add: list_all_iff toml_plain_def code_def)
  qed
  ultimately show ?thesis
    using trim_trimmed [OF t] by (auto simp: hash_laws_def toy_hasher_def starts_with_def)
qed

text \<open>A reader of one such line: the texts between the first and second, and the third and fourth quotation mark.\<close>

definition toy_toml :: "string \<Rightarrow> (string \<times> string) list option" where
  "toy_toml s = (case split_on dq s of _ # k # _ # v # _ \<Rightarrow> Some [(k, v)] | _ \<Rightarrow> None)"

lemma toy_toml_laws: "toml_laws toy_toml"
proof -
  have free: "dq \<notin> set k" if "list_all toml_plain k" for k
    using that by (auto simp: list_all_iff toml_plain_def dq_def code_def)
  have h: "dq \<notin> set (''[local_passwords]'' @ [CHR 0x0A])" "dq \<notin> set '' = ''" "dq \<notin> set [CHR 0x0A]" by (simp_all add: dq_def)
  have "split_on dq (password_lines k v) = [''[local_passwords]'' @ [CHR 0x0A], k, '' = '', v, [CHR 0x0A]]"
    if "list_all toml_plain k" "list_all toml_plain v" for k v
  proof -
    have "password_lines k v = (''[local_passwords]'' @ [CHR 0x0A]) @ dq # k @ dq # '' = '' @ dq # v @ dq # [CHR 0x0A]"
      by (simp add: password_lines_def)
    then show ?thesis
      by (simp only: split_on_append [OF h(1)] split_on_append [OF free [OF that(1)]] split_on_append [OF h(2)]
          split_on_append [OF free [OF that(2)]] split_on_free [OF h(3)])
  qed
  then show ?thesis by (simp add: toml_laws_def toy_toml_def)
qed

theorem passwd_logs_in_witness:
  "\<exists>lines table hash. passwd toy_hasher ''local:u'' (Some (''pw'' @ [CHR 0x0A])) = Inr lines \<and> toy_toml lines = Some table \<and>
     local_password (from_settings (mc_owner toy_machine) None (settings_default\<lparr>st_local_passwords := table\<rparr>)) (identity_new Local ''u'') =
       Some hash"
proof -
  have "to_lowercase ''local'' = ''local''" "trim ''local'' = ''local''"
    by (simp_all add: trim_def trim_start_def trim_end_def is_whitespace_def to_lowercase_def char_lower_def has_lower_def
        char_class_defs code_def)
  then have i: "identity_parse ''local:u'' = Inr (identity_new Local ''u'')"
    by (simp add: identity_parse_def toy_strings provider_parse_def split_once_def)
  obtain lines where p: "passwd toy_hasher ''local:u'' (Some (''pw'' @ [CHR 0x0A])) = Inr lines"
    by (simp add: passwd_def i strip_newline_def hash_password_def toy_hasher_def identity_new_def toy_strings)
  have plain: "list_all toml_plain (identity_str (identity_new Local ''u''))"
    by (simp add: identity_str_def identity_new_def toy_strings toml_plain_def code_def)
  from passwd_logs_in [OF toy_hash_laws toy_toml_laws p _ i plain, of "mc_owner toy_machine" None settings_default] p show ?thesis by auto
qed

subsection \<open>Restarts\<close>










subsection \<open>Opening the stores\<close>

text \<open>Reading and parsing a file is a parameter; each store's path is relative to the directory of the configuration.\<close>

record 'e readers =
  rd_enrol :: "string \<Rightarrow> ('e + (identity \<times> enrol_record) list) option"
  rd_devices :: "string \<Rightarrow> ('e + device list) option"
  rd_sessions :: "string \<Rightarrow> ('e + (string \<times> disk_session) list) option"

definition store_files :: "'e readers \<Rightarrow> string \<Rightarrow> config \<Rightarrow> 'e files" where
  "store_files rd dir cfg =
    \<lparr>fl_enrol = rd_enrol rd (path_join dir (mfa_enrollment_path cfg)),
     fl_devices = rd_devices rd (path_join dir (device_path cfg)),
     fl_sessions = (case session_path cfg of None \<Rightarrow> None | Some p \<Rightarrow> rd_sessions rd (path_join dir p))\<rparr>"

datatype 'e serve_error = Unreadable_store 'e | Bad_key key_panic

text \<open>The first half of \<open>serve\<close>: the state the handlers share, the key of the cookies, and the key of the share
  tokens derived from it. \<open>master\<close> reads the bytes of a key.\<close>

definition start_serving ::
  "env \<Rightarrow> draw \<Rightarrow> 'e readers \<Rightarrow> string \<Rightarrow> bool \<Rightarrow> (string \<Rightarrow> u8 list option) \<Rightarrow> (u8 list \<Rightarrow> 'k option) \<Rightarrow> 'k \<Rightarrow> ('k \<Rightarrow> u8 list) \<Rightarrow>
   'e serve_error + 's app \<times> 'k \<times> u8 list" where
  "start_serving ev d rd dir simple dec key_of fresh master =
    (case open_app ev d simple (store_files rd dir (ev_cfg ev)) of
      Inl e \<Rightarrow> Inl (Unreadable_store e)
    | Inr app \<Rightarrow>
        (case load_signing_key dec key_of fresh (secret_base64 (ev_cfg ev)) of
          Inl p \<Rightarrow> Inl (Bad_key p)
        | Inr key \<Rightarrow> Inr (app, key, derive_key (hmac (ev_crypto ev)) (master key) ''webshell/share-token/v1'')))"

lemma open_app_none:
  "open_app ev d False \<lparr>fl_enrol = None, fl_devices = None, fl_sessions = None\<rparr> = Inr (sv_app (server_new ev enrol_new))"
  using open_app_fresh [of ev False d None] by (simp add: enrol_new_def)

text \<open>a fresh installation starts: with a configuration that \<open>run_server\<close> accepted, whose secret it may just have made up
  itself, and no store files yet, serving begins, in the state from which every state of the server model is
  reached; a file that cannot be read stops it instead of being taken for an empty one.\<close>

theorem first_start:
  assumes "run_server mc requested = Inr (cfg, path)" "ev_cfg ev = cfg"
    and "\<forall>s. secret_base64 cfg = Some s \<longrightarrow> (\<exists>raw k. dec (trim s) = Some raw \<and> key_of raw = Some k)"
  shows "(rd_enrol rd = (\<lambda>_. None) \<longrightarrow> rd_devices rd = (\<lambda>_. None) \<longrightarrow> rd_sessions rd = (\<lambda>_. None) \<longrightarrow>
      (\<exists>key. start_serving ev d rd (config_dir mc path) False dec key_of fresh master =
        Inr (sv_app (server_new ev enrol_new), key, derive_key (hmac (ev_crypto ev)) (master key) ''webshell/share-token/v1''))) \<and>
    (rd_enrol rd (path_join (config_dir mc path) (mfa_enrollment_path cfg)) = Some (Inl e) \<longrightarrow>
      start_serving ev d rd (config_dir mc path) False dec key_of fresh master = Inl (Unreadable_store e))"
proof (intro conjI impI)
  assume none: "rd_enrol rd = (\<lambda>_. None)" "rd_devices rd = (\<lambda>_. None)" "rd_sessions rd = (\<lambda>_. None)"
  obtain s where s: "secret_base64 cfg = Some s" using run_server_secret [OF assms(1)] by auto
  then obtain raw k where k: "dec (trim s) = Some raw" "key_of raw = Some k" using assms(3) by blast
  have "store_files rd (config_dir mc path) cfg = \<lparr>fl_enrol = None, fl_devices = None, fl_sessions = None\<rparr>"
    by (simp add: store_files_def none split: option.split)
  then show "\<exists>key. start_serving ev d rd (config_dir mc path) False dec key_of fresh master =
      Inr (sv_app (server_new ev enrol_new), key, derive_key (hmac (ev_crypto ev)) (master key) ''webshell/share-token/v1'')"
    using s k by (simp add: start_serving_def load_signing_key_def open_app_none assms(2))
next
  assume "rd_enrol rd (path_join (config_dir mc path) (mfa_enrollment_path cfg)) = Some (Inl e)"
  then show "start_serving ev d rd (config_dir mc path) False dec key_of fresh master = Inl (Unreadable_store e)"
    by (simp add: start_serving_def open_app_def store_files_def enrol_load_def Let_def assms(2))
qed

theorem first_start_witness:
  "\<exists>cfg key. run_server toy_machine ''config.toml'' = Inr (cfg, ''config.toml'') \<and>
     start_serving (toy_env\<lparr>ev_cfg := cfg\<rparr>) (toy_draw 1 ''a'') \<lparr>rd_enrol = \<lambda>_. None, rd_devices = \<lambda>_. None, rd_sessions = \<lambda>_. None\<rparr>
       (config_dir toy_machine ''config.toml'') False (\<lambda>s. Some (utf8 s)) Some [] id =
     (Inr (sv_app (server_new (toy_env\<lparr>ev_cfg := cfg\<rparr>) enrol_new), key,
        derive_key (hmac (ev_crypto (toy_env\<lparr>ev_cfg := cfg\<rparr>))) key ''webshell/share-token/v1'') ::
      unit serve_error + unit app \<times> u8 list \<times> u8 list)"
proof -
  obtain cfg where r: "run_server toy_machine ''config.toml'' = Inr (cfg, ''config.toml'')" using toy_run by blast
  have c: "ev_cfg (toy_env\<lparr>ev_cfg := cfg\<rparr>) = cfg" by simp
  have k: "\<forall>s. secret_base64 cfg = Some s \<longrightarrow> (\<exists>raw k. Some (utf8 (trim s)) = Some raw \<and> Some raw = Some k)" by simp
  show ?thesis
    using first_start [OF r c k, where d = "toy_draw 1 ''a''" and fresh = "[]" and master = id and e = "()"
        and rd = "\<lparr>rd_enrol = \<lambda>_. None, rd_devices = \<lambda>_. None, rd_sessions = \<lambda>_. None\<rparr>"] r
    by auto
qed

subsection \<open>Writing a starter configuration\<close>

datatype genconfig_error = Would_overwrite | Not_written

text \<open>The file written holds \<open>Settings::default\<close>, serialized by the TOML library (\<open>ser\<close>); \<open>wrote\<close> is whether the write
  succeeded.\<close>

definition sample_toml :: "(settings \<Rightarrow> string option) \<Rightarrow> string" where
  "sample_toml ser = (case ser settings_default of Some text \<Rightarrow> text | None \<Rightarrow> [])"

definition genconfig :: "machine \<Rightarrow> (settings \<Rightarrow> string option) \<Rightarrow> bool \<Rightarrow> string \<Rightarrow> genconfig_error + string" where
  "genconfig mc ser wrote path =
    (if mc_exists mc path then Inl Would_overwrite
     else if \<not> wrote then Inl Not_written else Inr (sample_toml ser))"

end
