(* ===== verification/Routes.thy ===== *)
theory Routes
  imports Startup
begin

text \<open>
  The route table of \<open>serve\<close> in \<open>src/src/main.rs\<close> with its three routers and their layers, and the embedded
  static assets. Matching a path exactly, GET also answering HEAD (with no body), and a router's \<open>layer\<close> going around
  every method of its paths, those a path does not take included, are axum's documented behaviour. What axum
  answers to a path or method without a route, whether the fallback the merged routers end up with is the private
  one with its layer, and the responses with which the extractors reject a query or a form, are parameters.
\<close>

subsection \<open>The table\<close>

datatype endpoint =
    E_login_page | E_local_login | E_oauth_start | E_oauth_callback | E_mfa_page | E_mfa_submit | E_mfa_cancel
  | E_favicon | E_xterm_js | E_xterm_css | E_addon_fit_js | E_to_private
  | E_access_page | E_access_ws | E_access_status | E_access_meta
  | E_terminal_page | E_ws | E_logout | E_terminals | E_reset | E_share | E_shares | E_share_revoke | E_prefs
  | E_devices | E_device_revoke

datatype meth = M_get | M_head | M_post | M_other

datatype verb = V_get | V_post

type_synonym table = "(string \<times> (verb \<times> endpoint) list) list"

definition public_router :: table where
  "public_router =
    [(''/webshell/public/access'', [(V_get, E_access_page)]),
     (''/webshell/public/access/ws'', [(V_get, E_access_ws)]),
     (''/webshell/public/access/status'', [(V_get, E_access_status)]),
     (''/webshell/public/access/meta'', [(V_get, E_access_meta)])]"

definition private_router :: table where
  "private_router =
    [(''/webshell/private/'', [(V_get, E_terminal_page)]),
     (''/webshell/private/ws'', [(V_get, E_ws)]),
     (''/webshell/private/logout'', [(V_post, E_logout)]),
     (''/webshell/private/api/terminals'', [(V_get, E_terminals)]),
     (''/webshell/private/api/reset'', [(V_post, E_reset)]),
     (''/webshell/private/api/share'', [(V_post, E_share)]),
     (''/webshell/private/api/shares'', [(V_get, E_shares)]),
     (''/webshell/private/api/share/revoke'', [(V_post, E_share_revoke)]),
     (''/webshell/private/api/prefs'', [(V_post, E_prefs)]),
     (''/webshell/private/api/devices'', [(V_get, E_devices)]),
     (''/webshell/private/api/device/revoke'', [(V_post, E_device_revoke)])]"

definition app_router :: table where
  "app_router =
    [(''/webshell/login'', [(V_get, E_login_page)]),
     (''/webshell/login/local'', [(V_post, E_local_login)]),
     (''/webshell/oauth/start'', [(V_post, E_oauth_start)]),
     (''/webshell/oauth/callback'', [(V_get, E_oauth_callback)]),
     (''/webshell/mfa'', [(V_get, E_mfa_page), (V_post, E_mfa_submit)]),
     (''/webshell/mfa/cancel'', [(V_post, E_mfa_cancel)]),
     (''/favicon.ico'', [(V_get, E_favicon)]),
     (''/webshell/favicon.ico'', [(V_get, E_favicon)]),
     (''/webshell/static/xterm.js'', [(V_get, E_xterm_js)]),
     (''/webshell/static/xterm.css'', [(V_get, E_xterm_css)]),
     (''/webshell/static/addon-fit.js'', [(V_get, E_addon_fit_js)]),
     (''/webshell'', [(V_get, E_to_private)]),
     (''/webshell/'', [(V_get, E_to_private)])]"

definition answers :: "meth \<Rightarrow> verb \<Rightarrow> bool" where
  "answers m v \<longleftrightarrow> (case v of V_get \<Rightarrow> m = M_get \<or> m = M_head | V_post \<Rightarrow> m = M_post)"

definition in_table :: "table \<Rightarrow> meth \<Rightarrow> string \<Rightarrow> endpoint option" where
  "in_table t m path = Option.bind (map_of t path) (\<lambda>vs. map_option snd (find (\<lambda>(v, _). answers m v) vs))"

text \<open>Where a request goes: behind the authentication layer, where a path of the private router answers a method it does
  not take with axum's refusal; to an open handler; to an open path that does not take the method; or to no path.\<close>

datatype target = Behind_auth "endpoint option" | Open endpoint | Not_allowed | Unrouted

definition target_of :: "meth \<Rightarrow> string \<Rightarrow> target" where
  "target_of m path =
    (if path \<in> fst ` set private_router then Behind_auth (in_table private_router m path)
     else if path \<in> fst ` set (app_router @ public_router) then
       (case in_table (app_router @ public_router) m path of Some e \<Rightarrow> Open e | None \<Rightarrow> Not_allowed)
     else Unrouted)"

text \<open>What the extractors make of the query or form of a request, for the handler of a route.\<close>

fun made_for :: "endpoint \<Rightarrow> request \<Rightarrow> bool" where
  "made_for E_login_page r = (r = Login_page)"
| "made_for E_local_login r = (case r of Local_login _ \<Rightarrow> True | _ \<Rightarrow> False)"
| "made_for E_oauth_start r = (case r of Oauth_start _ \<Rightarrow> True | _ \<Rightarrow> False)"
| "made_for E_oauth_callback r = (case r of Oauth_callback _ \<Rightarrow> True | _ \<Rightarrow> False)"
| "made_for E_mfa_page r = (r = Mfa_page)"
| "made_for E_mfa_submit r = (case r of Mfa_submit _ \<Rightarrow> True | _ \<Rightarrow> False)"
| "made_for E_mfa_cancel r = (case r of Mfa_cancel _ \<Rightarrow> True | _ \<Rightarrow> False)"
| "made_for E_access_page r = (case r of Public (Access_page _) \<Rightarrow> True | _ \<Rightarrow> False)"
| "made_for E_access_ws r = (case r of Public (Access_ws _ _ _) \<Rightarrow> True | _ \<Rightarrow> False)"
| "made_for E_access_status r = (case r of Public (Access_status _) \<Rightarrow> True | _ \<Rightarrow> False)"
| "made_for E_access_meta r = (case r of Public (Access_meta _) \<Rightarrow> True | _ \<Rightarrow> False)"
| "made_for E_terminal_page r = (r = Private Page)"
| "made_for E_ws r = (case r of Private (Websocket _) \<Rightarrow> True | _ \<Rightarrow> False)"
| "made_for E_logout r = (case r of Private (Logout _ _) \<Rightarrow> True | _ \<Rightarrow> False)"
| "made_for E_terminals r = (r = Private List_terminals)"
| "made_for E_reset r = (case r of Private (Reset _ _) \<Rightarrow> True | _ \<Rightarrow> False)"
| "made_for E_share r = (case r of Private (Share_slot _ _ _ _) \<Rightarrow> True | _ \<Rightarrow> False)"
| "made_for E_shares r = (r = Private List_shares)"
| "made_for E_share_revoke r = (case r of Private (Revoke_share _ _) \<Rightarrow> True | _ \<Rightarrow> False)"
| "made_for E_prefs r = (case r of Private (Prefs _ _ _) \<Rightarrow> True | _ \<Rightarrow> False)"
| "made_for E_devices r = (r = Private List_devices)"
| "made_for E_device_revoke r = (case r of Private (Revoke_device _ _ _) \<Rightarrow> True | _ \<Rightarrow> False)"
| "made_for e r = False"

text \<open>A router is not built with the same path twice: axum panics at startup.\<close>

definition all_routes :: table where
  "all_routes = app_router @ public_router @ private_router"

lemma private_route: "path \<in> fst ` set private_router \<Longrightarrow> starts_with ''/webshell/private/'' path"
  by (auto simp: private_router_def starts_with_def)

lemma private_endpoint: "in_table private_router m path = Some e \<Longrightarrow> path \<in> fst ` set private_router"
  by (auto simp: in_table_def bind_eq_Some_conv dest: map_of_SomeD intro: rev_image_eqI)

lemma open_path: "path \<in> fst ` set (app_router @ public_router) \<Longrightarrow> \<not> starts_with ''/webshell/private/'' path"
  by (auto simp: app_router_def public_router_def starts_with_def)

lemma open_route:
  "target_of m path = Open e \<Longrightarrow> \<not> starts_with ''/webshell/private/'' path \<and> (\<forall>r. made_for e (Private r) = False)"
  unfolding target_of_def
  by (auto simp: in_table_def app_router_def public_router_def starts_with_def split: if_splits option.splits)

text \<open>the routers can be merged (no path twice), every route behind the authentication layer is under
  \<open>/webshell/private/\<close> and every other one is outside it, and each handler of the private namespace is
  behind the layer: no open route is made for a private request.\<close>

theorem private_namespace:
  "distinct (map fst all_routes) \<and>
   (case target_of m path of
      Behind_auth e \<Rightarrow> starts_with ''/webshell/private/'' path
    | Open e \<Rightarrow> \<not> starts_with ''/webshell/private/'' path \<and> (\<forall>r. made_for e (Private r) = False)
    | Not_allowed \<Rightarrow> \<not> starts_with ''/webshell/private/'' path
    | Unrouted \<Rightarrow> True)"
proof
  show "distinct (map fst all_routes)"
    by (simp add: all_routes_def app_router_def public_router_def private_router_def)
  show "case target_of m path of
      Behind_auth e \<Rightarrow> starts_with ''/webshell/private/'' path
    | Open e \<Rightarrow> \<not> starts_with ''/webshell/private/'' path \<and> (\<forall>r. made_for e (Private r) = False)
    | Not_allowed \<Rightarrow> \<not> starts_with ''/webshell/private/'' path
    | Unrouted \<Rightarrow> True"
    using open_route [of m path] private_route [of path] open_path [of path]
    by (cases "target_of m path") (auto simp: target_of_def split: if_splits option.splits)
qed

subsection \<open>Static assets\<close>

text \<open>SHA-256 and the bytes compiled into the binary are parameters. The tag is computed once per process; the digest
  being a function of the bytes, computing it at each request is the same.\<close>

record asset_answer =
  aa_status :: nat
  aa_headers :: headers
  aa_bytes :: "u8 list"

definition hex_lower :: "nat \<Rightarrow> char" where
  "hex_lower n = (if n < 10 then char_of (48 + n) else char_of (87 + n))"

definition hex_byte :: "u8 \<Rightarrow> string" where
  "hex_byte b = [hex_lower (unat b div 16), hex_lower (unat b mod 16)]"

definition etag_of :: "(u8 list \<Rightarrow> u8 list) \<Rightarrow> u8 list \<Rightarrow> string" where
  "etag_of sha bytes = dq # concat (map hex_byte (take 16 (sha bytes))) @ [dq]"

definition asset_cache :: string where
  "asset_cache = ''public, max-age=0, must-revalidate''"

definition embedded_asset :: "(u8 list \<Rightarrow> u8 list) \<Rightarrow> u8 list \<Rightarrow> string \<Rightarrow> headers \<Rightarrow> asset_answer" where
  "embedded_asset sha bytes content_type hs =
    (let tag = etag_of sha bytes
     in if header ''if-none-match'' hs = Some tag
        then \<lparr>aa_status = 304,
          aa_headers = [(''cache-control'', asset_cache), (''etag'', tag), (''x-content-type-options'', ''nosniff'')],
          aa_bytes = []\<rparr>
        else \<lparr>aa_status = 200,
          aa_headers = [(''content-type'', content_type), (''cache-control'', asset_cache), (''etag'', tag),
            (''x-content-type-options'', ''nosniff'')],
          aa_bytes = bytes\<rparr>)"

definition js_type :: string where
  "js_type = ''application/javascript; charset=utf-8''"

definition favicon :: "u8 list \<Rightarrow> asset_answer" where
  "favicon bytes =
    \<lparr>aa_status = 200, aa_headers = [(''content-type'', ''image/x-icon''), (''cache-control'', ''public, max-age=604800'')],
     aa_bytes = bytes\<rparr>"

text \<open>The four files compiled in.\<close>

record binary =
  bn_favicon :: "u8 list"
  bn_xterm_js :: "u8 list"
  bn_xterm_css :: "u8 list"
  bn_addon_fit_js :: "u8 list"

definition asset_xterm_js :: "(u8 list \<Rightarrow> u8 list) \<Rightarrow> binary \<Rightarrow> headers \<Rightarrow> asset_answer" where
  "asset_xterm_js sha bn hs = embedded_asset sha (bn_xterm_js bn) js_type hs"

definition asset_addon_fit_js :: "(u8 list \<Rightarrow> u8 list) \<Rightarrow> binary \<Rightarrow> headers \<Rightarrow> asset_answer" where
  "asset_addon_fit_js sha bn hs = embedded_asset sha (bn_addon_fit_js bn) js_type hs"

definition asset_xterm_css :: "(u8 list \<Rightarrow> u8 list) \<Rightarrow> binary \<Rightarrow> headers \<Rightarrow> asset_answer" where
  "asset_xterm_css sha bn hs = embedded_asset sha (bn_xterm_css bn) ''text/css; charset=utf-8'' hs"

lemma code_hex_lower: "n < 16 \<Longrightarrow> code (hex_lower n) = (if n < 10 then 48 + n else 87 + n)"
  by (simp add: hex_lower_def code_char_of)

lemma hex_lower_inj: "m < 16 \<Longrightarrow> n < 16 \<Longrightarrow> hex_lower m = hex_lower n \<Longrightarrow> m = n"
proof -
  assume m: "m < 16" and n: "n < 16" and eq: "hex_lower m = hex_lower n"
  from eq have "code (hex_lower m) = code (hex_lower n)" by (rule arg_cong)
  then show "m = n" unfolding code_hex_lower [OF m] code_hex_lower [OF n] using m n by (auto split: if_splits)
qed

lemma hex_byte_inj: "hex_byte a = hex_byte b \<longleftrightarrow> a = b"
proof
  assume "hex_byte a = hex_byte b"
  then have "unat a div 16 = unat b div 16" "unat a mod 16 = unat b mod 16"
    using hex_lower_inj unat_u8_nibbles [of a] unat_u8_nibbles [of b] by (simp_all add: hex_byte_def)
  then show "a = b" by (metis div_mod_decomp word_unat_eq_iff)
qed simp

lemma hex_bytes_inj: "concat (map hex_byte xs) = concat (map hex_byte ys) \<longleftrightarrow> xs = ys"
proof (induction xs arbitrary: ys)
  case Nil
  then show ?case by (cases ys) (simp_all add: hex_byte_def)
next
  case (Cons x xs)
  show ?case
  proof (cases ys)
    case (Cons y ys')
    have "hex_byte x @ a = hex_byte y @ b \<longleftrightarrow> hex_byte x = hex_byte y \<and> a = b" for a b
      by (auto simp: hex_byte_def)
    then show ?thesis using Cons Cons.IH hex_byte_inj [of x y] by simp
  qed (simp add: hex_byte_def)
qed

lemma etag_inj: "etag_of sha a = etag_of sha b \<longleftrightarrow> take 16 (sha a) = take 16 (sha b)"
  by (simp add: etag_of_def hex_bytes_inj)

lemma etag_visible: "list_all visible (etag_of sha bytes)"
proof -
  have "visible (hex_lower n)" if "n < 16" for n using that by (auto simp: visible_def hex_lower_def code_char_of)
  then have "list_all visible (hex_byte b)" for b using unat_u8_nibbles [of b] by (simp add: hex_byte_def)
  then show ?thesis by (auto simp: etag_of_def list_all_iff visible_def dq_def code_def)
qed

text \<open>an upgrade always reaches the browser and an unchanged file is never sent twice: a browser that sends back the
  tag it was given is answered from its cache exactly if the file's digest still starts with the same
  sixteen bytes, and gets the new file otherwise; either answer carries the current tag and \<open>nosniff\<close>.\<close>

theorem asset_revalidation:
  fixes old new :: "u8 list" and sha ct hs hs'
  defines "tag \<equiv> the (map_of (aa_headers (embedded_asset sha old ct hs)) ''etag'')"
  defines "next \<equiv> embedded_asset sha new ct ((''if-none-match'', tag) # hs')"
  shows "next = (if take 16 (sha new) = take 16 (sha old)
      then \<lparr>aa_status = 304, aa_headers = tl (aa_headers (embedded_asset sha new ct [])), aa_bytes = []\<rparr>
      else embedded_asset sha new ct []) \<and>
    aa_bytes (embedded_asset sha new ct []) = new \<and>
    map_of (aa_headers next) ''etag'' = Some (etag_of sha new) \<and>
    map_of (aa_headers next) ''x-content-type-options'' = Some ''nosniff''"
proof -
  have tag: "tag = etag_of sha old" unfolding tag_def by (simp add: embedded_asset_def Let_def)
  have "header ''if-none-match'' ((''if-none-match'', tag) # hs') = Some tag"
    using etag_visible by (simp add: header_def tag)
  moreover have "header ''if-none-match'' [] = None" by (simp add: header_def)
  ultimately show ?thesis by (auto simp: next_def embedded_asset_def Let_def tag etag_inj)
qed

subsection \<open>Routing a request\<close>

datatype served = Page_of progress | Asset_of asset_answer

text \<open>\<open>ex_private\<close> and \<open>ex\<close> are the extractors of a route, \<open>other\<close> what axum answers without one, and \<open>wraps\<close> whether
  its fallback is behind the layer.\<close>

definition route_request ::
  "env \<Rightarrow> draw \<Rightarrow> (u8 list \<Rightarrow> u8 list) \<Rightarrow> binary \<Rightarrow> jar \<Rightarrow> headers \<Rightarrow> meth \<Rightarrow> string \<Rightarrow>
   (endpoint \<Rightarrow> response + private_request) \<Rightarrow> (endpoint \<Rightarrow> response + request) \<Rightarrow> response \<Rightarrow> bool \<Rightarrow>
   's app \<Rightarrow> served \<times> 's app" where
  "route_request ev d sha bn j hs m path ex_private ex other wraps app =
    (case target_of m path of
      Unrouted \<Rightarrow>
        if wraps then apfst Page_of (reply (auth_layer ev d j hs (\<lambda>app1. (other, app1)) app))
        else (Page_of (Reply other), app)
    | Not_allowed \<Rightarrow> (Page_of (Reply other), app)
    | Behind_auth None \<Rightarrow> apfst Page_of (reply (auth_layer ev d j hs (\<lambda>app1. (other, app1)) app))
    | Behind_auth (Some e) \<Rightarrow>
        apfst Page_of (reply (auth_layer ev d j hs
          (\<lambda>app1. case ex_private e of Inl rejection \<Rightarrow> (rejection, app1) | Inr req \<Rightarrow> private_handler ev d j hs req app1) app))
    | Open e \<Rightarrow>
        (case e of
          E_favicon \<Rightarrow> (Asset_of (favicon (bn_favicon bn)), app)
        | E_xterm_js \<Rightarrow> (Asset_of (asset_xterm_js sha bn hs), app)
        | E_xterm_css \<Rightarrow> (Asset_of (asset_xterm_css sha bn hs), app)
        | E_addon_fit_js \<Rightarrow> (Asset_of (asset_addon_fit_js sha bn hs), app)
        | E_to_private \<Rightarrow> (Page_of (Reply (redirect ''/webshell/private/'')), app)
        | _ \<Rightarrow> (case ex e of
            Inl rejection \<Rightarrow> (Page_of (Reply rejection), app)
          | Inr req \<Rightarrow> apfst Page_of (handle ev d j hs req app))))"

text \<open>C2: whoever is not logged in learns nothing from the private namespace: on every path of the private router the answer
  to any method (one the path does not take included), query and form is the one fixed refusal, whatever
  extractors make of the request, and no private handler runs; all that happens to the state is that the
  cookie's session was looked up. Any other path under \<open>/webshell/private/\<close> is not one of the program's and gets
  the same refusal or axum's fixed answer, according to where axum's fallback is.\<close>

theorem private_paths_refused:
  assumes "starts_with ''/webshell/private/'' path" "authed_session ev d j app = (None, app1)"
  shows "route_request ev d sha bn j hs m path ex_private ex other wraps app =
    (if path \<in> fst ` set private_router \<or> wraps
     then (Page_of (Reply (if (case header ''accept'' hs of Some a \<Rightarrow> str_contains ''text/html'' a | None \<Rightarrow> False)
        then redirect ''/webshell/login'' else status_text 401 ''not authenticated'')), app1)
     else (Page_of (Reply other), app))"
proof (cases "path \<in> fst ` set private_router")
  case True
  then show ?thesis
    using assms(2) by (simp add: route_request_def target_of_def auth_layer_def reply_def Let_def split: option.split)
next
  case False
  then have "target_of m path = Unrouted" using open_path [of path] assms(1) by (auto simp: target_of_def)
  then show ?thesis using False assms(2) by (simp add: route_request_def auth_layer_def reply_def Let_def)
qed

theorem private_paths_refused_witness:
  "route_request toy_env (toy_draw 2 ''c'') id (\<lparr>bn_favicon = [], bn_xterm_js = [], bn_xterm_css = [], bn_addon_fit_js = []\<rparr>)
     (toy_jar [''a'']) [] M_get ''/webshell/private/api/reset'' (\<lambda>_. Inr (Reset ''ca'' 0)) (\<lambda>_. Inr Login_page) no_content False
     (toy_app [(''a'', toy_session False [] ''a'' 1)] [] [] []) =
   (Page_of (Reply (status_text 401 ''not authenticated'')), toy_app [(''a'', toy_session False [] ''a'' 1)] [] [] [])"
proof -
  have "starts_with ''/webshell/private/'' ''/webshell/private/api/reset''" by (simp add: starts_with_def)
  moreover have "''/webshell/private/api/reset'' \<in> fst ` set private_router" by (simp add: private_router_def)
  ultimately show ?thesis by (simp add: private_paths_refused [OF _ toy_pending [simplified]] header_def)
qed

text \<open>routing adds no behaviour: whatever arrives over HTTP is either an asset, which touches no state, or exactly one
  step of the handlers, on the request the route was made for, or a rejection by axum's extractors before
  the handler ran, which leaves at most the session lookup behind. So what holds of every step of the
  server holds of every HTTP request.\<close>

definition rejected :: "(endpoint \<Rightarrow> response + private_request) \<Rightarrow> (endpoint \<Rightarrow> response + request) \<Rightarrow> response \<Rightarrow> response set" where
  "rejected ex_private ex other =
    {other, redirect ''/webshell/private/''} \<union> {r. \<exists>e. ex_private e = Inl r} \<union> {r. \<exists>e. ex e = Inl r}"

lemma layer_refines:
  assumes "route_request ev d sha bn j hs m path ex_private ex other wraps app = apfst Page_of (reply (auth_layer ev d j hs (\<lambda>app1. (r, app1)) app))"
    and "r \<in> rejected ex_private ex other"
  shows "case route_request ev d sha bn j hs m path ex_private ex other wraps app of
     (Asset_of a, app') \<Rightarrow> app' = app
   | (Page_of p, app') \<Rightarrow>
       (\<exists>req. handle ev d j hs req app = (p, app')) \<or>
       (p \<in> Reply ` rejected ex_private ex other \<and> app' \<in> {app, snd (authed_session ev d j app)})"
proof -
  obtain s app1 where a: "authed_session ev d j app = (s, app1)" by (cases "authed_session ev d j app")
  show ?thesis
  proof (cases s)
    case None
    then have "route_request ev d sha bn j hs m path ex_private ex other wraps app = apfst Page_of (handle ev d j hs (Private Page) app)"
      by (simp add: assms(1) handle_def require_auth_layer auth_layer_def a)
    then show ?thesis by (cases "handle ev d j hs (Private Page) app") auto
  next
    case (Some s')
    then show ?thesis using assms(2) by (simp add: assms(1) auth_layer_def a reply_def)
  qed
qed

theorem routing_refines:
  "case route_request ev d sha bn j hs m path ex_private ex other wraps app of
     (Asset_of a, app') \<Rightarrow> app' = app
   | (Page_of p, app') \<Rightarrow>
       (\<exists>req. handle ev d j hs req app = (p, app')) \<or>
       (p \<in> Reply ` rejected ex_private ex other \<and> app' \<in> {app, snd (authed_session ev d j app)})"
proof (cases "target_of m path")
  case (Behind_auth o')
  show ?thesis
  proof (cases o')
    case None
    show ?thesis
      by (rule layer_refines [where r = other]) (simp_all add: route_request_def Behind_auth None rejected_def)
  next
    case (Some e)
    show ?thesis
    proof (cases "ex_private e")
      case (Inr req)
      then have "route_request ev d sha bn j hs m path ex_private ex other wraps app = apfst Page_of (handle ev d j hs (Private req) app)"
        by (simp add: route_request_def Behind_auth Some handle_def require_auth_layer)
      then show ?thesis by (cases "handle ev d j hs (Private req) app") auto
    next
      case (Inl r)
      show ?thesis
        by (rule layer_refines [where r = r])
          (simp add: route_request_def Behind_auth Some Inl, use Inl in \<open>auto simp: rejected_def\<close>)
    qed
  qed
next
  case (Open e)
  have handled: "case (case ex e of Inl r \<Rightarrow> (Page_of (Reply r), app) | Inr req \<Rightarrow> apfst Page_of (handle ev d j hs req app)) of
      (Asset_of a, app') \<Rightarrow> app' = app
    | (Page_of p, app') \<Rightarrow> (\<exists>req. handle ev d j hs req app = (p, app')) \<or>
        (p \<in> Reply ` rejected ex_private ex other \<and> app' \<in> {app, snd (authed_session ev d j app)})"
  proof (cases "ex e")
    case (Inl r)
    then have "r \<in> rejected ex_private ex other" by (auto simp: rejected_def)
    then show ?thesis using Inl by simp
  next
    case (Inr req)
    then show ?thesis by (cases "handle ev d j hs req app") auto
  qed
  show ?thesis
    using handled by (cases e) (simp_all add: route_request_def Open rejected_def)
next
  case Unrouted
  show ?thesis
  proof (cases wraps)
    case True
    show ?thesis by (rule layer_refines [where r = other]) (simp_all add: route_request_def Unrouted True rejected_def)
  qed (simp add: route_request_def Unrouted rejected_def)
qed (simp add: route_request_def rejected_def)

end
