(* ===== verification/Spec2Isabelle.thy ===== *)
theory Spec2Isabelle
  imports Keyboard Routes
begin

text \<open>
  A verification library for webshell, a browser terminal server written in Rust: one owner's shells run in
  numbered slots on the server, are reached through a WebSocket after a login with password or Google and
  optionally a one-time code, survive disconnections, and can be shown to others through expiring read-only
  links. The library is a shallow embedding of the program's sources under \<open>src/src\<close>; this file gathers it.

  \<^bold>\<open>Layers and theories.\<close>

  Basis. \<open>Prelude\<close>: Rust's integers and hash maps (an association list, interpreting the locale \<open>keyed_map\<close> of what a map
  promises), shared lemmas. \<open>Text\<close>: the string functions of the standard library. \<open>Contracts\<close>: the locales of
  stores, revocable registries and persistence that the stores below interpret.

  Stores. \<open>Disk\<close> (the temporary-file-and-rename writes), \<open>Ident\<close> (\<open>identity.rs\<close>), \<open>Sessions\<close> (\<open>session.rs\<close>),
  \<open>Devices\<close> (\<open>devices.rs\<close>), \<open>Enrollment\<close> (\<open>enrollment.rs\<close>), \<open>Share\<close> (\<open>share.rs\<close>): state as a record, one definition
  per operation, a step function over a datatype of operations, an invariant every step keeps, and properties
  over all traces: revocation and logout are final, trust comes only from minting, a restart agrees.

  Credentials. \<open>Totp\<close> (\<open>totp.rs\<close>), \<open>Oidc\<close> (\<open>oidc.rs\<close>), \<open>LocalAuth\<close> (\<open>localauth.rs\<close>), \<open>Guard\<close> (the throttle in \<open>main.rs\<close>).

  Terminals. \<open>Modes\<close> (the private-mode tracker), \<open>Ring\<close> (the scrollback ring and the screen model), \<open>Terminals\<close>
  (one terminal: a step relation of its reader and command threads over a bounded queue), \<open>Slots\<close> (the slots
  of every user), all of \<open>terminals.rs\<close>; \<open>Pty\<close> and \<open>Viewer\<close> (the owner's and the viewers' sockets, \<open>pty.rs\<close>) as step
  relations in which sockets, terminals and clocks interleave. In \<open>Pty\<close> the tasks of one connection interleave too: its
  loop, a forward task for each channel and the writer behind its queue of 512 frames, on which the others wait;
  the steps are named (\<open>mux_event\<close>). The refinement lemmas say that what a client has received is the
  terminal's own output, cut and tagged, whatever the interleaving, but for the one race that \<open>Pty\<close> exhibits: a slot that
  is closed and opened again while its old task still holds a chunk.

  Configuration and start. \<open>Config\<close> (\<open>config.rs\<close>), \<open>Certs\<close> (\<open>certs.rs\<close>), \<open>Startup\<close> (the subcommands, secrets and
  stores of \<open>main.rs\<close>).

  HTTP. \<open>Pages\<close> (headers and pages), \<open>Login\<close> (the sign-in handlers), \<open>Api\<close> (the private and public handlers),
  \<open>Routes\<close> (the route table and its layers, the static assets). \<open>Server\<close> puts them together: a step relation
  whose steps are whole requests, the parts of a handler between its awaits, the minute sweep, the life of
  the terminals, and restarts of the process, which reload the stores from what was last written. \<open>Access\<close> and
  \<open>Requests\<close> hold the properties of the whole: in every reachable state a session is logged in, a browser
  trusted, a link valid or a socket open only with evidence of what was verified for it; what one request can
  do; who it can touch; and a concrete server that the witnesses run. \<open>Live\<close> adds the open sockets to the server:
  requests, owners' connections, viewers, terminals and the clock interleave over one set of terminals, so that what
  \<open>Pty\<close> and \<open>Viewer\<close> show of one socket holds of all of them at once, from the login to the revocation of a link. A
  step of it is a request (\<open>attend\<close>; \<open>Server\<close> alone has \<open>serve\<close>, in which others may do to the terminals what they
  like), time passing, a step of one terminal's threads or the end of its queue, the opening of a socket by an
  answered upgrade, a step of one socket, or a restart, each with its name (\<open>live_event\<close>), so that a property can say whose
  step it was that ended a connection. \<open>Keyboard\<close> follows what is typed
  the other way, from a connection's binary frames to the shell: only an owner's connection types, and the path is a queue.

\<^bold>\<open>How state and operations correspond.\<close> A struct is a record with its fields, an enum a datatype; a method
  that takes the lock of a store is one definition from store to store, its result paired with the new store.
  A handler is cut where it awaits (the turn of a throttle bucket, the blocking task of a hash, Google's
  answer): between two awaits it is taken to be atomic, although it releases one store before it locks the
  next, and it reads each clock once. Errors are values of sums, options and datatypes; what is only printed
  or logged is left out. Wall-clock seconds and monotonic nanoseconds are natural numbers; 32- and 64-bit
  counters saturate or wrap as written, and words are used for bytes and hashes. \<open>ap_log\<close> and
  \<open>mx_mixed\<close> are ghosts: the program has no such fields, and nothing in the model depends on them.

  \<^bold>\<open>Parameters.\<close> Code that is not in the repository is an argument of the definitions that use it: SHA-256,
  HMAC, base64, Argon2 and bcrypt, the TOML, JSON and URL libraries, the vt100 emulator, the pseudo-terminals
  and their processes, Google's token endpoint, random numbers, clocks and the outcome of every read and
  write, axum's extractors and its answers to requests without a route. What is assumed of them is
  stated as a named hypothesis (for instance \<open>b64_laws\<close>, \<open>hash_laws\<close>, \<open>toml_laws\<close>), and each such hypothesis is shown to be
  satisfiable by a concrete function in the witness.

  \<^bold>\<open>Bounds and termination.\<close> No fuel is used: loops over lists are structural, the others have a measure, and
  loops that run for the life of the process (sockets, terminal threads, the server) are step relations, for
  which liveness is stated as the existence of a run or as what the next step must be.

  \<^bold>\<open>Not modelled.\<close> The command line parser and messages of \<open>main\<close>; the ACME client and the accept loop (
  libraries); the ticker that asks for periodic redraws in \<open>pty.rs\<close> beyond the redraw it
  causes; \<open>util.rs\<close> (a mutex that ignores poisoning: no operation of the model fails while it holds a lock);
  the bodies of answers to HEAD; the browser's code under \<open>src/static\<close>; timing, and so side channels. A restart
  as a step of the server keeps the configuration; the property of \<open>Startup\<close> on restarts allows a changed one.
\<close>

end
